(* ===== verification/Engine_Prelude.thy ===== *)
theory Engine_Prelude
  imports Main "HOL-Library.Word" "HOL-Library.Monad_Syntax"
begin

unbundle bit_operations_syntax

text \<open>
  Shared vocabulary of the development: the fixed-width integers of the C++ sources, byte
  buffers with pointers into them, checked reads, \<open>memcpy\<close>, and the outcome of a call that
  may block. The word and list lemmas that several components use are proved here once and
  collected in \<open>mem_simps\<close> (reads from a buffer) and \<open>size_simps\<close> (sizes as \<open>size_t\<close>).

  A pointer is null or an offset into one buffer. A read outside the buffer, or through a
  null pointer, has no meaning in C++: it is the value \<open>None\<close> of the outer \<open>option\<close> of
  every definition that dereferences a pointer. The inner \<open>option\<close> of a parser's result is
  the \<open>std::optional\<close> of the source.
\<close>

named_theorems mem_simps \<open>evaluation of reads from a buffer\<close>
named_theorems size_simps \<open>arithmetic on sizes\<close>

type_synonym u8 = "8 word"
type_synonym u16 = "16 word"
type_synonym u32 = "32 word"
type_synonym u64 = "64 word"
type_synonym size_t = "64 word"

type_synonym mem = "u8 list"

datatype ptr = nullptr | Ptr nat

text \<open>\<open>p[i]\<close>: the byte \<open>i\<close> places after \<open>p\<close>.\<close>

definition load :: "mem \<Rightarrow> ptr \<Rightarrow> nat \<Rightarrow> u8 option" where
  "load m p i = (case p of nullptr \<Rightarrow> None
     | Ptr a \<Rightarrow> if a + i < length m then Some (m ! (a + i)) else None)"

text \<open>\<open>p + n\<close> on pointers.\<close>

definition ptr_add :: "ptr \<Rightarrow> nat \<Rightarrow> ptr" where
  "ptr_add p n = (case p of nullptr \<Rightarrow> nullptr | Ptr a \<Rightarrow> Ptr (a + n))"

text \<open>A counted copy loop \<open>for (i = 0; i < n; ++i) dst[i] = p[off + i]\<close>.\<close>

fun load_bytes :: "mem \<Rightarrow> ptr \<Rightarrow> nat \<Rightarrow> nat \<Rightarrow> u8 list option" where
  "load_bytes m p off 0 = Some []"
| "load_bytes m p off (Suc n) = do {
     b \<leftarrow> load m p off;
     bs \<leftarrow> load_bytes m p (Suc off) n;
     Some (b # bs) }"

text \<open>\<open>memcpy (dst + off, src, n)\<close> between two byte objects.\<close>

definition memcpy_at :: "u8 list \<Rightarrow> nat \<Rightarrow> u8 list \<Rightarrow> nat \<Rightarrow> u8 list option" where
  "memcpy_at dst off src n =
     (if off + n \<le> length dst \<and> n \<le> length src
      then Some (take off dst @ take n src @ drop (off + n) dst) else None)"

text \<open>
  The outcome of a call that may wait on a condition variable: it blocks, it runs into
  undefined behaviour, or it returns a value.
\<close>

datatype 'a outcome = Blocks | Undefined | Returns 'a

text \<open>The \<open>n\<close> bytes from \<open>p\<close> on all exist.\<close>

definition readable :: "mem \<Rightarrow> ptr \<Rightarrow> nat \<Rightarrow> bool" where
  "readable m p n \<longleftrightarrow> (case p of nullptr \<Rightarrow> False | Ptr a \<Rightarrow> a + n \<le> length m)"

text \<open>The \<open>n\<close> bytes from \<open>p\<close> on, as a list.\<close>

definition bytes_at :: "mem \<Rightarrow> ptr \<Rightarrow> nat \<Rightarrow> u8 list" where
  "bytes_at m p n = (case p of nullptr \<Rightarrow> [] | Ptr a \<Rightarrow> take n (drop a m))"

text \<open>Big-endian composition of words from bytes, and the bytes of a word.\<close>

definition be16 :: "u8 \<Rightarrow> u8 \<Rightarrow> u16" where
  "be16 hi lo = push_bit 8 (ucast hi) OR ucast lo"

definition be32 :: "u8 \<Rightarrow> u8 \<Rightarrow> u8 \<Rightarrow> u8 \<Rightarrow> u32" where
  "be32 a b c d = push_bit 24 (ucast a) OR push_bit 16 (ucast b) OR push_bit 8 (ucast c) OR ucast d"

definition bytes_be16 :: "u16 \<Rightarrow> u8 list" where
  "bytes_be16 w = [ucast (drop_bit 8 w), ucast w]"

definition bytes_be32 :: "u32 \<Rightarrow> u8 list" where
  "bytes_be32 w = [ucast (drop_bit 24 w), ucast (drop_bit 16 w), ucast (drop_bit 8 w), ucast w]"


subsection \<open>Reads\<close>

lemma load_Ptr [mem_simps]: "a + i < length m \<Longrightarrow> load m (Ptr a) i = Some (m ! (a + i))"
  by (simp add: load_def)

lemma load_nullptr [simp]: "load m nullptr i = None"
  by (simp add: load_def)

lemma load_SomeD: "load m p i = Some b \<Longrightarrow> \<exists>a. p = Ptr a \<and> a + i < length m \<and> b = m ! (a + i)"
  by (auto simp: load_def split: ptr.splits if_splits)

lemma ptr_add_simps [simp]: "ptr_add (Ptr a) n = Ptr (a + n)" "ptr_add nullptr n = nullptr"
  by (simp_all add: ptr_add_def)

lemma readable_simps [simp]: "readable m (Ptr a) n \<longleftrightarrow> a + n \<le> length m" "\<not> readable m nullptr n"
  by (simp_all add: readable_def)

lemma bytes_at_Ptr [simp]: "bytes_at m (Ptr a) n = take n (drop a m)"
  by (simp add: bytes_at_def)

lemma length_bytes_at: "readable m p n \<Longrightarrow> length (bytes_at m p n) = n"
  by (cases p) simp_all

lemma nth_bytes_at: "readable m (Ptr a) n \<Longrightarrow> i < n \<Longrightarrow> bytes_at m (Ptr a) n ! i = m ! (a + i)"
  by simp

lemma load_bytes_Ptr [mem_simps]:
  "a + off + n \<le> length m \<Longrightarrow> load_bytes m (Ptr a) off n = Some (take n (drop (a + off) m))"
proof (induction n arbitrary: off)
  case 0
  then show ?case by simp
next
  case (Suc n)
  then have "drop (a + off) m = m ! (a + off) # drop (Suc (a + off)) m"
    by (simp add: Cons_nth_drop_Suc)
  with Suc.IH [of "Suc off"] Suc.prems show ?case
    by (simp add: load_Ptr)
qed

lemma load_bytes_length: "load_bytes m p off n = Some bs \<Longrightarrow> length bs = n"
  by (induction n arbitrary: off bs) (auto split: Option.bind_splits)

lemma memcpy_at_SomeD:
  "memcpy_at dst off src n = Some d \<Longrightarrow>
     length d = length dst \<and> take off d = take off dst \<and> take n (drop off d) = take n src
     \<and> drop (off + n) d = drop (off + n) dst"
  by (auto simp: memcpy_at_def split: if_splits)


subsection \<open>Big-endian words\<close>

lemma be16_bytes [simp]: "be16 (ucast (drop_bit 8 w)) (ucast w) = w"
  by (rule bit_word_eqI) (auto simp: be16_def bit_simps)

lemma be32_bytes [simp]:
  "be32 (ucast (drop_bit 24 w)) (ucast (drop_bit 16 w)) (ucast (drop_bit 8 w)) (ucast w) = w"
proof (rule bit_word_eqI)
  fix n
  assume "n < LENGTH(32)"
  then show "bit (be32 (ucast (drop_bit 24 w)) (ucast (drop_bit 16 w)) (ucast (drop_bit 8 w)) (ucast w)) n
    = bit w n"
    by (cases "24 \<le> n"; cases "16 \<le> n"; cases "8 \<le> n") (auto simp: be32_def bit_simps)
qed

lemma be16_hi [simp]: "ucast (drop_bit 8 (be16 a b)) = a"
  by (rule bit_word_eqI) (auto simp: be16_def bit_simps dest: bit_imp_le_length)

lemma be16_lo [simp]: "ucast (be16 a b) = b"
  by (rule bit_word_eqI) (auto simp: be16_def bit_simps)

lemma be32_parts [simp]:
  "ucast (drop_bit 24 (be32 a b c d)) = a" "ucast (drop_bit 16 (be32 a b c d)) = b"
  "ucast (drop_bit 8 (be32 a b c d)) = c" "ucast (be32 a b c d) = d"
  by (rule bit_word_eqI; auto simp: be32_def bit_simps dest: bit_imp_le_length)+

lemma unat_ucast_up:
  assumes "LENGTH('a) \<le> LENGTH('b)"
  shows "unat (ucast (w :: 'a::len word) :: 'b::len word) = unat w"
proof -
  have "unat w < 2 ^ LENGTH('a)" by (rule unsigned_less)
  also have "\<dots> \<le> 2 ^ LENGTH('b)" using assms by (simp add: power_increasing)
  finally show ?thesis by (simp add: unsigned_ucast_eq take_bit_nat_eq_self_iff)
qed

lemma unat_ucast_16_64 [simp]: "unat (ucast (w :: u16) :: size_t) = unat w"
  by (rule unat_ucast_up) simp

lemma unat_ucast_8_64 [simp]: "unat (ucast (w :: u8) :: size_t) = unat w"
  by (rule unat_ucast_up) simp

lemma unat_ucast_8_32 [simp]: "unat (ucast (w :: u8) :: u32) = unat w"
  by (rule unat_ucast_up) simp

lemma unat_ucast_16_32 [simp]: "unat (ucast (w :: u16) :: u32) = unat w"
  by (rule unat_ucast_up) simp

lemma unat_be16: "unat (be16 a b) = 256 * unat a + unat b"
proof -
  have "be16 a b = push_bit 8 (ucast a) + ucast b"
    unfolding be16_def by (rule disjunctive_add [symmetric])
      (auto simp: bit_simps dest: bit_imp_le_length)
  also have "unat \<dots> = 256 * unat a + unat b"
    using unsigned_less [of a, where ?'a = nat] unsigned_less [of b, where ?'a = nat]
    by (simp add: push_bit_eq_mult unat_word_ariths unat_ucast_up)
  finally show ?thesis .
qed


subsection \<open>Sizes\<close>

lemma size_eq_of_nat: "unat (len :: 'a::len word) = n \<Longrightarrow> len = of_nat n"
  by (metis of_nat_unat ucast_id)

lemma unat_small_add [size_simps]:
  "unat (a :: size_t) + unat b < 2 ^ 64 \<Longrightarrow> unat (a + b) = unat a + unat b"
  by (simp add: unat_word_ariths)

lemma unat_sub_le [size_simps]: "b \<le> (a :: size_t) \<Longrightarrow> unat (a - b) = unat a - unat b"
  by (rule unat_sub)

lemma unat_u8_less: "unat (w :: u8) < 256"
  using unsigned_less [of w, where ?'a = nat] by simp

lemma unat_u16_less: "unat (w :: u16) < 65536"
  using unsigned_less [of w, where ?'a = nat] by simp

lemma unat_and_FFFF: "unat ((w :: u32) AND 0xFFFF) = unat w mod 65536"
proof -
  have "w AND 0xFFFF = take_bit 16 w" by (simp add: take_bit_eq_mask mask_numeral)
  then have "unat (w AND 0xFFFF) = take_bit 16 (unat w)" by (simp only: unsigned_take_bit_eq)
  then show ?thesis by (simp add: take_bit_eq_mod)
qed

lemma unat_drop_bit: "unat (drop_bit n (w :: 'a::len word)) = unat w div 2 ^ n"
proof -
  have "take_bit LENGTH('a) (unat w) = unat w" by (simp add: take_bit_nat_eq_self)
  then show ?thesis by (simp only: unsigned_drop_bit_eq) (rule drop_bit_eq_div)
qed

lemma low_nibble_less: "unat ((w :: u8) AND 0x0F) < 16"
proof -
  have "unat (w AND 0x0F) \<le> unat (0x0F :: u8)"
    by (rule word_and_le1 [THEN word_le_nat_alt [THEN iffD1]])
  then show ?thesis by simp
qed


subsection \<open>Running an operation on a list of inputs\<close>

text \<open>
  The interface of a component whose state an invariant describes: from a state with the
  invariant every input is handled without undefined behaviour and leaves the invariant true. A
  checked machine may fail, but only with an excuse; a safe machine has none.
\<close>

fun machine_run :: "('i \<Rightarrow> 's \<Rightarrow> ('o \<times> 's) option) \<Rightarrow> 'i list \<Rightarrow> 's \<Rightarrow> ('o list \<times> 's) option" where
  "machine_run step [] s = Some ([], s)"
| "machine_run step (i # is) s = do {
     (out, s') \<leftarrow> step i s;
     (outs, s'') \<leftarrow> machine_run step is s';
     Some (out # outs, s'') }"

locale checked_machine =
  fixes step :: "'i \<Rightarrow> 's \<Rightarrow> ('o \<times> 's) option" and inv_of :: "'s \<Rightarrow> bool" and excuse :: bool
  assumes step_checked: "inv_of s \<Longrightarrow> case step i s of None \<Rightarrow> excuse | Some (out, s') \<Rightarrow> inv_of s'"
begin

lemma run_checked:
  "inv_of s \<Longrightarrow> case machine_run step is s of None \<Rightarrow> excuse | Some (outs, s') \<Rightarrow> inv_of s' \<and> length outs = length is"
proof (induction "is" arbitrary: s)
  case Nil
  then show ?case by simp
next
  case (Cons i "is")
  show ?case
  proof (cases "step i s")
    case None
    then show ?thesis using step_checked [OF Cons(2), of i] by simp
  next
    case (Some r)
    then show ?thesis using step_checked [OF Cons(2), of i] Cons(1) [of "snd r"]
      by (cases r; cases "machine_run step is (snd r)") auto
  qed
qed

end

locale safe_machine =
  fixes step :: "'i \<Rightarrow> 's \<Rightarrow> ('o \<times> 's) option" and inv_of :: "'s \<Rightarrow> bool"
  assumes step_safe: "inv_of s \<Longrightarrow> \<exists>out s'. step i s = Some (out, s') \<and> inv_of s'"

sublocale safe_machine \<subseteq> checked_machine step inv_of False
proof unfold_locales
  show "case step i s of None \<Rightarrow> False | Some (out, s') \<Rightarrow> inv_of s'" if "inv_of s" for s i
    using step_safe [OF that, of i] by auto
qed

context safe_machine
begin

lemma run_safe: "inv_of s \<Longrightarrow> \<exists>outs s'. machine_run step is s = Some (outs, s') \<and> inv_of s' \<and> length outs = length is"
  using run_checked [of s "is"] by (auto split: option.splits)

end

text \<open>A detailed transition system implements an abstract one: under the invariant of the detailed
  states each step is a step of the abstraction, and the invariant is kept. Every run is then a run
  of the abstract system.\<close>

locale simulation =
  fixes inv :: "'c \<Rightarrow> bool" and abs :: "'c \<Rightarrow> 'a" and cstep :: "'c \<Rightarrow> 'c \<Rightarrow> bool" and astep :: "'a \<Rightarrow> 'a \<Rightarrow> bool"
  assumes inv_kept: "cstep c c' \<Longrightarrow> inv c \<Longrightarrow> inv c'"
    and step_sim: "cstep c c' \<Longrightarrow> inv c \<Longrightarrow> astep (abs c) (abs c')"
begin

lemma run_sim: "cstep\<^sup>*\<^sup>* c c' \<Longrightarrow> inv c \<Longrightarrow> inv c' \<and> astep\<^sup>*\<^sup>* (abs c) (abs c')"
proof (induction rule: rtranclp_induct)
  case base
  then show ?case by simp
next
  case (step c' c'')
  then show ?case using inv_kept [of c' c''] step_sim [of c' c''] by (meson rtranclp.rtrancl_into_rtrancl)
qed

end

end
