(* ===== verification/Bounded_Fifo.thy ===== *)
theory Bounded_Fifo
  imports Engine_Prelude
begin

text \<open>
  The contract of a bounded queue between two threads: an abstraction to the list of queued
  elements, an invariant, and what inserting and removing do to them. Any sequence of
  inserts and removes then delivers the accepted elements in order, none lost, none
  duplicated, never more than the capacity at a time. The ring buffer and the packet buffer
  are interpretations of this contract.
\<close>

datatype 'f fifo_op = Put 'f | Get

text \<open>
  A run of operations: an insert that does not go through and a remove that finds nothing
  leave the queue alone. The result lists the accepted and the delivered elements.
\<close>

fun fifo_run :: "('f \<Rightarrow> 'q \<Rightarrow> 'q option) \<Rightarrow> ('q \<Rightarrow> ('f \<times> 'q) option) \<Rightarrow> 'f fifo_op list \<Rightarrow> 'q
    \<Rightarrow> 'f list \<times> 'f list \<times> 'q" where
  "fifo_run put get [] q = ([], [], q)"
| "fifo_run put get (Put f # ops) q =
     (case put f q of None \<Rightarrow> fifo_run put get ops q
      | Some q' \<Rightarrow> (case fifo_run put get ops q' of (acc, del, r) \<Rightarrow> (f # acc, del, r)))"
| "fifo_run put get (Get # ops) q =
     (case get q of None \<Rightarrow> fifo_run put get ops q
      | Some (f, q') \<Rightarrow> (case fifo_run put get ops q' of (acc, del, r) \<Rightarrow> (acc, f # del, r)))"

locale bounded_fifo =
  fixes inv :: "'q \<Rightarrow> bool" and frames :: "'q \<Rightarrow> 'f list" and cap :: "'q \<Rightarrow> nat"
    and admissible :: "'f \<Rightarrow> bool"
    and put :: "'f \<Rightarrow> 'q \<Rightarrow> 'q option" and get :: "'q \<Rightarrow> ('f \<times> 'q) option"
  assumes inv_bound: "inv q \<Longrightarrow> length (frames q) \<le> cap q"
    and put_room: "inv q \<Longrightarrow> admissible f \<Longrightarrow> length (frames q) < cap q \<Longrightarrow>
      \<exists>q'. put f q = Some q' \<and> inv q' \<and> frames q' = frames q @ [f] \<and> cap q' = cap q"
    and put_full: "inv q \<Longrightarrow> length (frames q) = cap q \<Longrightarrow> put f q = None"
    and put_inadmissible: "inv q \<Longrightarrow> \<not> admissible f \<Longrightarrow> put f q = None"
    and get_first: "inv q \<Longrightarrow> frames q = f # fs \<Longrightarrow>
      \<exists>q'. get q = Some (f, q') \<and> inv q' \<and> frames q' = fs \<and> cap q' = cap q"
    and get_empty: "inv q \<Longrightarrow> frames q = [] \<Longrightarrow> get q = None"
begin

lemma put_cases:
  assumes "inv q"
  obtains "put f q = None"
  | q' where "put f q = Some q'" "inv q'" "frames q' = frames q @ [f]" "cap q' = cap q" "admissible f"
  using assms inv_bound [OF assms] put_room put_full put_inadmissible
  by (metis le_neq_implies_less)

lemma get_cases:
  assumes "inv q"
  obtains "get q = None" "frames q = []"
  | f q' where "get q = Some (f, q')" "inv q'" "frames q = f # frames q'" "cap q' = cap q"
  using assms get_first get_empty by (metis list.exhaust)

text \<open>What went in is what came out followed by what is still queued.\<close>

lemma run_fifo:
  "inv q \<Longrightarrow> fifo_run put get ops q = (acc, del, r) \<Longrightarrow>
     inv r \<and> cap r = cap q \<and> frames q @ acc = del @ frames r"
proof (induction ops arbitrary: q acc del r)
  case Nil
  then show ?case by simp
next
  case (Cons opn ops)
  show ?case
  proof (cases opn)
    case (Put f)
    from Cons.prems(1) show ?thesis
    proof (cases rule: put_cases [where f = f])
      case 1
      with Cons Put show ?thesis by simp
    next
      case (2 q')
      with Cons.prems(2) Put obtain acc' where "fifo_run put get ops q' = (acc', del, r)" "acc = f # acc'"
        by (auto split: prod.splits)
      with 2 Cons.IH [OF 2(2)] show ?thesis by auto
    qed
  next
    case Get
    from Cons.prems(1) show ?thesis
    proof (cases rule: get_cases)
      case 1
      then show ?thesis using Cons.IH [OF Cons.prems(1)] Cons.prems(2) Get by simp
    next
      case (2 f q')
      with Cons.prems(2) Get obtain del' where "fifo_run put get ops q' = (acc, del', r)" "del = f # del'"
        by (auto split: prod.splits)
      with 2 Cons.IH [OF 2(2)] show ?thesis by auto
    qed
  qed
qed

lemma run_bounded: "inv q \<Longrightarrow> fifo_run put get ops q = (acc, del, r) \<Longrightarrow> length (frames r) \<le> cap q"
  using run_fifo inv_bound by metis

end

end
