(* ===== verification/Ring_Buffer.thy ===== *)
theory Ring_Buffer
  imports Bounded_Fifo
begin

text \<open>
  \<open>include/utils/ring_buffer.h\<close> and \<open>src/utils/ring_buffer.cpp\<close>: the ring of fixed-size slots
  between the capture thread and the pipeline thread. Each operation is one critical section
  under \<open>mtx_\<close>: the wait on the condition variable is the outcome \<open>Blocks\<close> when its predicate
  is false. The stop flag is atomic and not protected by the mutex, so its two loads, in the
  wait predicate and after the wait, are two arguments.
\<close>

definition SLOT_SIZE :: size_t where "SLOT_SIZE = 2048"

record RingBuffer =
  rb_head :: size_t
  rb_tail :: size_t
  rb_capacity :: size_t
  rb_buffer :: "u8 list"
  rb_slot_sizes :: "size_t list"
  rb_count :: size_t

datatype ctor_error = Allocation_Failed | Invalid_Argument string

text \<open>
  The constructor. The member initialisers run before the checks, so both vectors are
  allocated first; \<open>alloc_ok n s\<close> says whether the library can provide \<open>n\<close> elements of
  \<open>s\<close> bytes. \<open>capacity * SLOT_SIZE\<close> is computed modulo \<open>2 ^ 64\<close>.
\<close>

definition new_RingBuffer :: "(size_t \<Rightarrow> nat \<Rightarrow> bool) \<Rightarrow> size_t \<Rightarrow> ctor_error + RingBuffer" where
  "new_RingBuffer alloc_ok capacity =
     (if \<not> alloc_ok (capacity * SLOT_SIZE) 1 \<or> \<not> alloc_ok capacity 8 then Inl Allocation_Failed
      else if capacity = 0 then Inl (Invalid_Argument ''RingBuffer capacity must be > 0'')
      else if capacity > 65536 then Inl (Invalid_Argument ''RingBuffer capacity must be <= 65536'')
      else Inr \<lparr>rb_head = 0, rb_tail = 0, rb_capacity = capacity,
        rb_buffer = replicate (unat (capacity * SLOT_SIZE)) 0,
        rb_slot_sizes = replicate (unat capacity) 0, rb_count = 0\<rparr>)"

definition isEmpty :: "RingBuffer \<Rightarrow> bool" where
  "isEmpty rb \<longleftrightarrow> rb_count rb = 0"

definition isFull :: "RingBuffer \<Rightarrow> bool" where
  "isFull rb \<longleftrightarrow> rb_count rb = rb_capacity rb"

definition count :: "RingBuffer \<Rightarrow> size_t" where
  "count rb = rb_count rb"

definition capacity :: "RingBuffer \<Rightarrow> size_t" where
  "capacity rb = rb_capacity rb"

text \<open>\<open>RingBuffer::write\<close>: the flag that is returned, and the buffer.\<close>

definition ring_write :: "bool \<Rightarrow> bool \<Rightarrow> u8 list \<Rightarrow> size_t \<Rightarrow> RingBuffer \<Rightarrow> (bool \<times> RingBuffer) outcome" where
  "ring_write stop_wait stop_after data len rb =
     (if len = 0 \<or> len > SLOT_SIZE then Returns (False, rb)
      else if \<not> (\<not> isFull rb \<or> stop_wait) then Blocks
      else if stop_after \<and> isFull rb then Returns (False, rb)
      else if rb_capacity rb = 0 \<or> \<not> unat (rb_head rb) < length (rb_slot_sizes rb) then Undefined
      else (case memcpy_at (rb_buffer rb) (unat (rb_head rb * SLOT_SIZE)) data (unat len) of
          None \<Rightarrow> Undefined
        | Some b \<Rightarrow> Returns (True, rb\<lparr>rb_buffer := b,
            rb_slot_sizes := (rb_slot_sizes rb)[unat (rb_head rb) := len],
            rb_head := (rb_head rb + 1) mod rb_capacity rb,
            rb_count := rb_count rb + 1\<rparr>)))"

text \<open>
  \<open>RingBuffer::read\<close>: the flag that is returned, the caller's buffer and \<open>out_size\<close>, and the
  ring.
\<close>

definition ring_read :: "bool \<Rightarrow> bool \<Rightarrow> u8 list \<Rightarrow> size_t \<Rightarrow> RingBuffer
    \<Rightarrow> (bool \<times> u8 list \<times> size_t \<times> RingBuffer) outcome" where
  "ring_read stop_wait stop_after out_data out_size rb =
     (if \<not> (\<not> isEmpty rb \<or> stop_wait) then Blocks
      else if stop_after \<and> isEmpty rb then Returns (False, out_data, out_size, rb)
      else if rb_capacity rb = 0 \<or> \<not> unat (rb_tail rb) < length (rb_slot_sizes rb) then Undefined
      else let out_size = rb_slot_sizes rb ! unat (rb_tail rb) in
        (case memcpy_at out_data 0 (drop (unat (rb_tail rb * SLOT_SIZE)) (rb_buffer rb)) (unat out_size) of
          None \<Rightarrow> Undefined
        | Some d \<Rightarrow> Returns (True, d, out_size, rb\<lparr>
            rb_tail := (rb_tail rb + 1) mod rb_capacity rb,
            rb_count := rb_count rb - 1\<rparr>)))"


subsection \<open>Invariant and abstraction\<close>

definition slot_bytes :: "RingBuffer \<Rightarrow> nat \<Rightarrow> u8 list" where
  "slot_bytes rb j = take (unat (rb_slot_sizes rb ! j)) (drop (j * 2048) (rb_buffer rb))"

definition slot_index :: "RingBuffer \<Rightarrow> nat \<Rightarrow> nat" where
  "slot_index rb i = (unat (rb_tail rb) + i) mod unat (rb_capacity rb)"

definition ring_frames :: "RingBuffer \<Rightarrow> u8 list list" where
  "ring_frames rb = map (\<lambda>i. slot_bytes rb (slot_index rb i)) [0..<unat (rb_count rb)]"

definition ring_inv :: "RingBuffer \<Rightarrow> bool" where
  "ring_inv rb \<longleftrightarrow> 0 < unat (rb_capacity rb) \<and> unat (rb_capacity rb) \<le> 65536
     \<and> length (rb_buffer rb) = unat (rb_capacity rb) * 2048
     \<and> length (rb_slot_sizes rb) = unat (rb_capacity rb)
     \<and> unat (rb_tail rb) < unat (rb_capacity rb)
     \<and> unat (rb_count rb) \<le> unat (rb_capacity rb)
     \<and> unat (rb_head rb) = slot_index rb (unat (rb_count rb))
     \<and> (\<forall>i < unat (rb_count rb). unat (rb_slot_sizes rb ! slot_index rb i) \<in> {1..2048})"


subsection \<open>Slots\<close>

lemma memcpy_at_nth:
  "memcpy_at dst off src n = Some d \<Longrightarrow> i < length dst \<Longrightarrow>
     d ! i = (if off \<le> i \<and> i < off + n then src ! (i - off) else dst ! i)"
  by (auto simp: memcpy_at_def nth_append min_def split: if_splits)

text \<open>A copy into slot \<open>k\<close> fills that slot and leaves every other slot alone.\<close>

lemma memcpy_same_slot:
  "memcpy_at b (k * 2048) data n = Some d \<Longrightarrow> take n (drop (k * 2048) d) = take n data"
  using memcpy_at_SomeD by blast

lemma memcpy_other_slot:
  assumes "memcpy_at b (k * 2048) data n = Some d" and "n \<le> 2048" and "j \<noteq> k" and "s \<le> 2048"
    and "(j + 1) * 2048 \<le> length b"
  shows "take s (drop (j * 2048) d) = take s (drop (j * 2048) b)"
proof (rule nth_equalityI)
  have len: "length d = length b" using memcpy_at_SomeD [OF assms(1)] by simp
  then show "length (take s (drop (j * 2048) d)) = length (take s (drop (j * 2048) b))" by simp
  fix i
  assume "i < length (take s (drop (j * 2048) d))"
  then have i: "i < s" "j * 2048 + i < length b" using len by auto
  have "\<not> (k * 2048 \<le> j * 2048 + i \<and> j * 2048 + i < k * 2048 + n)"
    using assms(2,3,4) i(1) by (cases "j < k") auto
  then have "d ! (j * 2048 + i) = b ! (j * 2048 + i)"
    using memcpy_at_nth [OF assms(1) i(2)] by auto
  with i len show "take s (drop (j * 2048) d) ! i = take s (drop (j * 2048) b) ! i" by simp
qed

lemma mod_ring_inj_le:
  assumes "(t + i) mod n = (t + j) mod n" and "i \<le> j" and "j < (n :: nat)"
  shows "i = j"
proof -
  have "n dvd (t + j) - (t + i)" using assms(1,2) mod_eq_dvd_iff_nat [of "t + i" "t + j" n] by simp
  then have "n dvd j - i" by simp
  then show ?thesis using assms(2,3) nat_dvd_not_less [of "j - i" n] by fastforce
qed

lemma mod_ring_inj:
  "(t + i) mod n = (t + j) mod n \<Longrightarrow> i < n \<Longrightarrow> j < (n :: nat) \<Longrightarrow> i = j"
  using mod_ring_inj_le [of t i n j] mod_ring_inj_le [of t j n i] by (cases "i \<le> j") auto

text \<open>Sizes of the ring as natural numbers: nothing wraps below 65536 slots.\<close>

lemma unat_slot_offset:
  assumes "unat (h :: size_t) < 65536"
  shows "unat (h * SLOT_SIZE) = unat h * 2048"
  using assms by (simp add: SLOT_SIZE_def unat_word_ariths)

lemma unat_next_slot:
  assumes "unat (h :: size_t) < unat c" and "unat c \<le> 65536"
  shows "unat ((h + 1) mod c) = (unat h + 1) mod unat c"
  using assms by (simp add: unat_mod unat_word_ariths)

lemma slot_size_gt: "len > SLOT_SIZE \<longleftrightarrow> 2048 < unat len"
  by (simp add: SLOT_SIZE_def word_less_nat_alt)

lemma slot_index_less: "ring_inv rb \<Longrightarrow> slot_index rb i < unat (rb_capacity rb)"
  by (simp add: ring_inv_def slot_index_def)

lemma isFull_iff: "ring_inv rb \<Longrightarrow> isFull rb \<longleftrightarrow> length (ring_frames rb) = unat (rb_capacity rb)"
  by (simp add: isFull_def ring_frames_def word_unat_eq_iff)

lemma isEmpty_iff: "isEmpty rb \<longleftrightarrow> ring_frames rb = []"
  by (simp add: isEmpty_def ring_frames_def unat_eq_zero)

lemma length_ring_frames: "length (ring_frames rb) = unat (rb_count rb)"
  by (simp add: ring_frames_def)


subsection \<open>Construction\<close>

lemma new_RingBuffer_ok:
  assumes "new_RingBuffer alloc_ok cap = Inr rb"
  shows "ring_inv rb \<and> ring_frames rb = [] \<and> rb_capacity rb = cap"
proof -
  from assms have "cap \<noteq> 0" "\<not> cap > 65536"
    and rb: "rb = \<lparr>rb_head = 0, rb_tail = 0, rb_capacity = cap, rb_buffer = replicate (unat (cap * SLOT_SIZE)) 0,
        rb_slot_sizes = replicate (unat cap) 0, rb_count = 0\<rparr>"
    by (auto simp: new_RingBuffer_def split: if_splits)
  then have "0 < unat cap" "unat cap \<le> 65536"
    using unat_eq_zero [of cap] by (auto simp: word_less_nat_alt)
  moreover from this have "unat (cap * SLOT_SIZE) = unat cap * 2048"
    by (simp add: SLOT_SIZE_def unat_word_ariths)
  ultimately show ?thesis by (simp add: rb ring_inv_def ring_frames_def slot_index_def)
qed


subsection \<open>Writing\<close>

lemma ring_write_slot:
  assumes inv: "ring_inv rb" and room: "\<not> isFull rb" and len: "1 \<le> unat len" "unat len \<le> 2048"
    and data: "unat len \<le> length data"
  obtains b where "ring_write sw sa data len rb = Returns (True, rb\<lparr>rb_buffer := b,
      rb_slot_sizes := (rb_slot_sizes rb)[unat (rb_head rb) := len],
      rb_head := (rb_head rb + 1) mod rb_capacity rb, rb_count := rb_count rb + 1\<rparr>)"
    and "memcpy_at (rb_buffer rb) (unat (rb_head rb) * 2048) data (unat len) = Some b"
proof -
  let ?n = "unat (rb_capacity rb)" and ?h = "unat (rb_head rb)"
  have h: "?h < ?n" "?n \<le> 65536" using inv slot_index_less [OF inv] by (simp_all add: ring_inv_def)
  then have "(?h + 1) * 2048 \<le> length (rb_buffer rb)" using inv by (simp add: ring_inv_def)
  then obtain b where b: "memcpy_at (rb_buffer rb) (?h * 2048) data (unat len) = Some b"
    using len data by (simp add: memcpy_at_def)
  moreover have "len \<noteq> 0" "\<not> len > SLOT_SIZE" using len by (auto simp: slot_size_gt)
  moreover have "rb_capacity rb \<noteq> 0" using inv unat_eq_zero [of "rb_capacity rb"] by (auto simp: ring_inv_def)
  moreover have "unat (rb_head rb * SLOT_SIZE) = ?h * 2048" using h by (intro unat_slot_offset) simp
  moreover have "?h < length (rb_slot_sizes rb)" using h inv by (simp add: ring_inv_def)
  ultimately show ?thesis using room by (intro that [OF _ b]) (simp add: ring_write_def)
qed


lemma ring_write_frames:
  assumes inv: "ring_inv rb" and room: "\<not> isFull rb" and len: "1 \<le> unat len" "unat len \<le> 2048"
    and data: "unat len \<le> length data"
  shows "\<exists>rb'. ring_write sw sa data len rb = Returns (True, rb') \<and> ring_inv rb'
    \<and> ring_frames rb' = ring_frames rb @ [take (unat len) data] \<and> rb_capacity rb' = rb_capacity rb"
proof -
  let ?n = "unat (rb_capacity rb)" and ?c = "unat (rb_count rb)"
  from ring_write_slot [OF assms, of sw sa] obtain b rb' where w: "ring_write sw sa data len rb = Returns (True, rb')"
    and rb': "rb' = rb\<lparr>rb_buffer := b, rb_slot_sizes := (rb_slot_sizes rb)[unat (rb_head rb) := len],
      rb_head := (rb_head rb + 1) mod rb_capacity rb, rb_count := rb_count rb + 1\<rparr>"
    and b: "memcpy_at (rb_buffer rb) (unat (rb_head rb) * 2048) data (unat len) = Some b" by metis
  note I = inv [unfolded ring_inv_def]
  have c: "?c < ?n" using room I by (simp add: isFull_def word_unat_eq_iff)
  have count: "unat (rb_count rb') = Suc ?c" using I c by (simp add: rb' unat_word_ariths)
  have idx: "slot_index rb' i = slot_index rb i" for i by (simp add: slot_index_def rb')
  have head: "unat (rb_head rb) = slot_index rb ?c" using I by simp
  have other: "slot_index rb i \<noteq> slot_index rb ?c" if "i < ?c" for i
    using that c mod_ring_inj [of "unat (rb_tail rb)" i ?n ?c] by (auto simp: slot_index_def)
  have old: "slot_bytes rb' (slot_index rb i) = slot_bytes rb (slot_index rb i)"
    and size: "rb_slot_sizes rb' ! slot_index rb i = rb_slot_sizes rb ! slot_index rb i" if i: "i < ?c" for i
  proof -
    show eq: "rb_slot_sizes rb' ! slot_index rb i = rb_slot_sizes rb ! slot_index rb i"
      using other [OF i] head by (simp add: rb')
    have "(slot_index rb i + 1) * 2048 \<le> length (rb_buffer rb)" using slot_index_less [OF inv, of i] I by simp
    then show "slot_bytes rb' (slot_index rb i) = slot_bytes rb (slot_index rb i)"
      unfolding slot_bytes_def eq using memcpy_other_slot [OF b len(2)] other [OF i] head I i by (simp add: rb')
  qed
  have new: "rb_slot_sizes rb' ! slot_index rb ?c = len" "slot_bytes rb' (slot_index rb ?c) = take (unat len) data"
    using slot_index_less [OF inv, of ?c] I head memcpy_same_slot [OF b] by (simp_all add: rb' slot_bytes_def)
  have "ring_frames rb' = ring_frames rb @ [take (unat len) data]"
    by (simp add: ring_frames_def count idx new old)
  moreover have "ring_inv rb'"
  proof -
    have "unat (rb_head rb') = (unat (rb_head rb) + 1) mod ?n"
      using unat_next_slot [of "rb_head rb" "rb_capacity rb"] I slot_index_less [OF inv, of ?c] by (simp add: rb')
    then have head': "unat (rb_head rb') = slot_index rb (Suc ?c)"
      by (simp add: head) (simp add: slot_index_def mod_Suc_eq)
    have sizes: "\<forall>i < Suc ?c. unat (rb_slot_sizes rb' ! slot_index rb i) \<in> {1..2048}"
      using I size new(1) len by (simp add: All_less_Suc)
    have fixed: "rb_capacity rb' = rb_capacity rb" "rb_tail rb' = rb_tail rb"
      "length (rb_buffer rb') = length (rb_buffer rb)" "length (rb_slot_sizes rb') = length (rb_slot_sizes rb)"
      using memcpy_at_SomeD [OF b] by (simp_all add: rb')
    show ?thesis unfolding ring_inv_def count idx fixed using I Suc_leI [OF c] head' sizes by blast
  qed
  ultimately show ?thesis using w by (auto simp: rb')
qed


subsection \<open>Reading\<close>

lemma ring_read_first:
  assumes inv: "ring_inv rb" and fr: "ring_frames rb = f # fs" and out: "2048 \<le> length out"
  shows "\<exists>d len rb'. ring_read sw sa out osz rb = Returns (True, d, len, rb') \<and> unat len = length f
    \<and> take (unat len) d = f \<and> drop (unat len) d = drop (unat len) out \<and> length d = length out
    \<and> 1 \<le> length f \<and> length f \<le> 2048
    \<and> ring_inv rb' \<and> ring_frames rb' = fs \<and> rb_capacity rb' = rb_capacity rb"
proof -
  let ?n = "unat (rb_capacity rb)" and ?c = "unat (rb_count rb)" and ?t = "unat (rb_tail rb)"
  note I = inv [unfolded ring_inv_def]
  have c: "0 < ?c" using fr length_ring_frames [of rb] by simp
  have t0: "slot_index rb 0 = ?t" using I by (simp add: slot_index_def)
  let ?len = "rb_slot_sizes rb ! ?t"
  have len: "1 \<le> unat ?len" "unat ?len \<le> 2048" using I c t0 by (metis atLeastAtMost_iff)+
  have room: "?t * 2048 + unat ?len \<le> length (rb_buffer rb)"
  proof -
    have "(?t + 1) * 2048 \<le> ?n * 2048" using I by (intro mult_le_mono1) simp
    then show ?thesis using I len by simp
  qed
  have f: "f = take (unat ?len) (drop (?t * 2048) (rb_buffer rb))" "fs = map (\<lambda>i. slot_bytes rb (slot_index rb i)) [1..<?c]"
    using fr c t0 by (simp_all add: ring_frames_def upt_conv_Cons slot_bytes_def)
  have lf: "length f = unat ?len" using f(1) room by simp
  have "memcpy_at out 0 (drop (?t * 2048) (rb_buffer rb)) (unat ?len) \<noteq> None"
    using room len out by (auto simp: memcpy_at_def)
  then obtain d where d: "memcpy_at out 0 (drop (?t * 2048) (rb_buffer rb)) (unat ?len) = Some d" by blast
  define rb' where "rb' = rb\<lparr>rb_tail := (rb_tail rb + 1) mod rb_capacity rb, rb_count := rb_count rb - 1\<rparr>"
  have off: "unat (rb_tail rb * SLOT_SIZE) = ?t * 2048" using I by (intro unat_slot_offset) simp
  have "rb_capacity rb \<noteq> 0" "rb_count rb \<noteq> 0" using I c by auto
  then have r: "ring_read sw sa out osz rb = Returns (True, d, ?len, rb')"
    using I d by (simp add: ring_read_def isEmpty_def off Let_def rb'_def)
  have tail': "unat (rb_tail rb') = (?t + 1) mod ?n"
    using unat_next_slot [of "rb_tail rb" "rb_capacity rb"] I by (simp add: rb'_def)
  have count': "unat (rb_count rb') = ?c - 1"
    using c by (simp add: rb'_def unat_minus_one \<open>rb_count rb \<noteq> 0\<close>)
  have idx: "slot_index rb' i = slot_index rb (Suc i)" for i
    by (simp add: slot_index_def tail') (simp add: rb'_def mod_add_left_eq)
  have fixed: "rb_capacity rb' = rb_capacity rb" "rb_buffer rb' = rb_buffer rb" "rb_head rb' = rb_head rb"
    "rb_slot_sizes rb' = rb_slot_sizes rb" by (simp_all add: rb'_def)
  have sb: "slot_bytes rb' = slot_bytes rb" by (simp add: fun_eq_iff slot_bytes_def fixed)
  have "[1..<?c] = map Suc [0..<?c - 1]" using c by (simp add: map_Suc_upt)
  then have "ring_frames rb' = fs" by (simp add: f(2) ring_frames_def count' idx sb)
  moreover have "ring_inv rb'"
    unfolding ring_inv_def fixed idx count' using I c by (auto simp: tail')
  ultimately show ?thesis using r lf f(1) len memcpy_at_SomeD [OF d] fixed(1)
    by (intro exI [of _ d] exI [of _ ?len] exI [of _ rb']) simp
qed


subsection \<open>The ring as a bounded queue\<close>

text \<open>
  One call of each operation while the stop flag is down; an object is smaller than the
  address space, so its length is a \<open>size_t\<close>.
\<close>

definition ring_put :: "u8 list \<Rightarrow> RingBuffer \<Rightarrow> RingBuffer option" where
  "ring_put f rb = (if length f < 2 ^ 64 then
     (case ring_write False False f (of_nat (length f)) rb of
        Returns (ok, rb') \<Rightarrow> if ok then Some rb' else None | _ \<Rightarrow> None) else None)"

definition ring_get :: "RingBuffer \<Rightarrow> (u8 list \<times> RingBuffer) option" where
  "ring_get rb = (case ring_read False False (replicate 2048 0) 0 rb of
     Returns (ok, d, len, rb') \<Rightarrow> if ok then Some (take (unat len) d, rb') else None | _ \<Rightarrow> None)"

definition slot_sized :: "u8 list \<Rightarrow> bool" where
  "slot_sized f \<longleftrightarrow> 1 \<le> length f \<and> length f \<le> 2048"

interpretation rbq: bounded_fifo ring_inv ring_frames "\<lambda>rb. unat (rb_capacity rb)" slot_sized ring_put ring_get
proof unfold_locales
  fix rb
  assume inv: "ring_inv rb"
  then show "length (ring_frames rb) \<le> unat (rb_capacity rb)" by (simp add: length_ring_frames ring_inv_def)
  fix f
  show "length (ring_frames rb) = unat (rb_capacity rb) \<Longrightarrow> ring_put f rb = None"
    using isFull_iff [OF inv] by (simp add: ring_put_def ring_write_def)
  show "\<not> slot_sized f \<Longrightarrow> ring_put f rb = None"
    by (auto simp: ring_put_def ring_write_def slot_size_gt slot_sized_def not_le
        unat_of_nat take_bit_nat_eq_self)
  show "ring_frames rb = [] \<Longrightarrow> ring_get rb = None"
    by (simp add: ring_get_def ring_read_def isEmpty_iff)
  assume sz: "slot_sized f" and room: "length (ring_frames rb) < unat (rb_capacity rb)"
  have lf: "unat (of_nat (length f) :: size_t) = length f"
    using sz by (simp add: slot_sized_def unat_of_nat take_bit_nat_eq_self)
  show "\<exists>rb'. ring_put f rb = Some rb' \<and> ring_inv rb' \<and> ring_frames rb' = ring_frames rb @ [f]
      \<and> unat (rb_capacity rb') = unat (rb_capacity rb)"
    using ring_write_frames [OF inv, of "of_nat (length f)" f False False] room isFull_iff [OF inv] sz lf
    by (auto simp: ring_put_def slot_sized_def)
next
  fix rb f fs
  assume "ring_inv rb" and "ring_frames rb = f # fs"
  from ring_read_first [OF this, of "replicate 2048 0" False False 0]
  show "\<exists>rb'. ring_get rb = Some (f, rb') \<and> ring_inv rb' \<and> ring_frames rb' = fs
      \<and> unat (rb_capacity rb') = unat (rb_capacity rb)"
    by (auto simp: ring_get_def)
qed


subsection \<open>Properties\<close>

text \<open>C13: First in, first out: on a freshly constructed ring, after any interleaving of writes and
  reads, the frames accepted so far are exactly the frames delivered so far followed by the
  frames still queued, in order, and no more than \<open>capacity\<close> frames are queued. Wrap-around of
  \<open>head_\<close> and \<open>tail_\<close> and the reuse of slots never lose, duplicate, reorder or corrupt a frame.\<close>

theorem ring_buffer_fifo:
  assumes "new_RingBuffer alloc_ok n = Inr rb" and "fifo_run ring_put ring_get ops rb = (acc, del, r)"
  shows "acc = del @ ring_frames r \<and> length (ring_frames r) \<le> unat n \<and> ring_inv r"
  using new_RingBuffer_ok [OF assms(1)] rbq.run_fifo [OF _ assms(2)] rbq.run_bounded [OF _ assms(2)] by auto

text \<open>\<open>RingBuffer::write\<close> on every branch, for a stop flag that is never cleared once set:
  a frame of 0 or more than 2048 bytes is refused without touching the ring; on a full ring
  the writer blocks, or gives up and leaves the ring alone if the engine is stopping; otherwise
  the frame is appended, the invariant holds again and the call returns true. No branch runs
  outside the slot array.\<close>

theorem ring_write_behaviour:
  assumes "ring_inv rb" and "unat len \<le> length data" and "stop_wait \<longrightarrow> stop_after"
  shows "if unat len = 0 \<or> 2048 < unat len then ring_write stop_wait stop_after data len rb = Returns (False, rb)
    else if isFull rb then ring_write stop_wait stop_after data len rb
      = (if stop_wait then Returns (False, rb) else Blocks)
    else \<exists>rb'. ring_write stop_wait stop_after data len rb = Returns (True, rb') \<and> ring_inv rb'
      \<and> ring_frames rb' = ring_frames rb @ [take (unat len) data] \<and> rb_capacity rb' = rb_capacity rb"
proof (cases "unat len = 0 \<or> 2048 < unat len")
  case True
  then have "len = 0 \<or> len > SLOT_SIZE" using unat_eq_zero [of len] slot_size_gt [of len] by blast
  with True show ?thesis by (auto simp: ring_write_def)
next
  case False
  then have len: "1 \<le> unat len" "unat len \<le> 2048" by auto
  then have "len \<noteq> 0" "\<not> len > SLOT_SIZE" by (auto simp: slot_size_gt)
  with False show ?thesis
    using assms(3) ring_write_frames [OF assms(1) _ len assms(2), of stop_wait stop_after]
    by (cases "isFull rb") (auto simp: ring_write_def)
qed

text \<open>\<open>RingBuffer::read\<close> on every branch, for a stop flag that is never cleared once set: an
  empty ring blocks the reader, or makes it return false when the engine is stopping; otherwise
  the oldest frame is copied to the start of the caller's buffer, \<open>out_size\<close> is its length, the
  rest of the caller's buffer is unchanged and the frame is removed. A stop request never
  discards frames that are still queued.\<close>

theorem ring_read_behaviour:
  assumes "ring_inv rb" and "2048 \<le> length out" and "stop_wait \<longrightarrow> stop_after"
  shows "case ring_frames rb of
      [] \<Rightarrow> ring_read stop_wait stop_after out n rb = (if stop_wait then Returns (False, out, n, rb) else Blocks)
    | f # fs \<Rightarrow> \<exists>d len rb'. ring_read stop_wait stop_after out n rb = Returns (True, d, len, rb')
        \<and> unat len = length f \<and> d = f @ drop (length f) out
        \<and> ring_inv rb' \<and> ring_frames rb' = fs \<and> rb_capacity rb' = rb_capacity rb"
proof (cases "ring_frames rb")
  case Nil
  then show ?thesis using assms(3) by (auto simp: ring_read_def isEmpty_iff)
next
  case (Cons f fs)
  from ring_read_first [OF assms(1) Cons assms(2), of stop_wait stop_after n]
  obtain d len rb' where r: "ring_read stop_wait stop_after out n rb = Returns (True, d, len, rb')"
    "unat len = length f" "take (unat len) d = f" "drop (unat len) d = drop (unat len) out"
    "ring_inv rb'" "ring_frames rb' = fs" "rb_capacity rb' = rb_capacity rb" by blast
  then have "d = f @ drop (length f) out" by (metis append_take_drop_id)
  with r Cons show ?thesis by auto
qed

text \<open>The constructor accepts exactly the capacities from 1 to 65536 (when memory is
  available); the ring it builds is empty and satisfies the invariant. A capacity that is zero
  or too large is an \<open>std::invalid_argument\<close>.\<close>

theorem new_RingBuffer_capacity:
  assumes "\<And>k s. alloc_ok k s"
  shows "((\<exists>rb. new_RingBuffer alloc_ok n = Inr rb \<and> ring_inv rb \<and> ring_frames rb = [] \<and> rb_capacity rb = n)
        \<longleftrightarrow> 1 \<le> unat n \<and> unat n \<le> 65536)
    \<and> (\<not> (1 \<le> unat n \<and> unat n \<le> 65536) \<longrightarrow> (\<exists>msg. new_RingBuffer alloc_ok n = Inl (Invalid_Argument msg)))"
proof -
  have n: "n = 0 \<longleftrightarrow> unat n = 0" "n > 65536 \<longleftrightarrow> unat n > 65536"
    using unat_eq_zero [of n] by (auto simp: word_less_nat_alt)
  have "(\<exists>rb. new_RingBuffer alloc_ok n = Inr rb) \<longleftrightarrow> 1 \<le> unat n \<and> unat n \<le> 65536"
    using assms by (auto simp: new_RingBuffer_def n)
  moreover have "\<not> (1 \<le> unat n \<and> unat n \<le> 65536) \<longrightarrow> (\<exists>msg. new_RingBuffer alloc_ok n = Inl (Invalid_Argument msg))"
    using assms by (auto simp: new_RingBuffer_def n)
  ultimately show ?thesis using new_RingBuffer_ok by blast
qed

theorem new_RingBuffer_capacity_witness:
  "(\<exists>rb. new_RingBuffer (\<lambda>_ _. True) 65536 = Inr rb \<and> ring_inv rb)
   \<and> (\<exists>msg. new_RingBuffer (\<lambda>_ _. True) 65537 = Inl (Invalid_Argument msg))"
  using new_RingBuffer_capacity [of "\<lambda>_ _. True" 65536] new_RingBuffer_capacity [of "\<lambda>_ _. True" 65537] by auto

text \<open>A concrete ring of two slots for the witnesses.\<close>

lemma ring_of_two:
  obtains rb where "new_RingBuffer (\<lambda>_ _. True) 2 = Inr rb" and "ring_inv rb" and "ring_frames rb = []"
    and "\<not> isFull rb"
proof -
  obtain rb where rb: "new_RingBuffer (\<lambda>_ _. True) 2 = Inr rb" by (simp add: new_RingBuffer_def)
  from new_RingBuffer_ok [OF this] have "ring_inv rb" "ring_frames rb = []" "rb_capacity rb = 2" by auto
  with rb show ?thesis using isFull_iff [of rb] by (intro that) auto
qed

theorem ring_write_behaviour_witness:
  "\<exists>rb rb'. ring_inv rb \<and> ring_write False True [5, 6, 7] 2 rb = Returns (True, rb') \<and> ring_frames rb' = [[5, 6]]"
proof -
  obtain rb where rb: "ring_inv rb" "ring_frames rb = []" "\<not> isFull rb" by (rule ring_of_two)
  have "unat (2 :: size_t) \<le> length [5 :: u8, 6, 7]" by simp
  from ring_write_behaviour [OF rb(1) this, of False True] rb show ?thesis by auto
qed

theorem ring_read_behaviour_witness:
  "\<exists>rb. ring_inv rb \<and> ring_read True True (replicate 2048 0) 9 rb = Returns (False, replicate 2048 0, 9, rb)"
proof -
  obtain rb where rb: "ring_inv rb" "ring_frames rb = []" by (rule ring_of_two)
  from ring_read_behaviour [OF rb(1), of "replicate 2048 0" True True 9] rb show ?thesis by auto
qed

theorem ring_buffer_fifo_witness:
  "\<exists>rb r. new_RingBuffer (\<lambda>_ _. True) 2 = Inr rb
     \<and> fifo_run ring_put ring_get [Put [1, 2], Put [3], Get] rb = ([[1, 2], [3]], [[1, 2]], r)
     \<and> ring_frames r = [[3]]"
proof -
  obtain rb where rb: "new_RingBuffer (\<lambda>_ _. True) 2 = Inr rb" "ring_inv rb" "ring_frames rb = []"
    by (rule ring_of_two)
  then have cap: "rb_capacity rb = 2" using new_RingBuffer_ok by blast
  obtain q1 where q1: "ring_put [1, 2] rb = Some q1" "ring_inv q1" "ring_frames q1 = [[1, 2]]" "unat (rb_capacity q1) = 2"
    using rbq.put_room [OF rb(2), of "[1, 2]"] rb cap by (auto simp: slot_sized_def)
  obtain q2 where q2: "ring_put [3] q1 = Some q2" "ring_inv q2" "ring_frames q2 = [[1, 2], [3]]"
    using rbq.put_room [OF q1(2), of "[3]"] q1 by (auto simp: slot_sized_def)
  obtain r where r: "ring_get q2 = Some ([1, 2], r)" using rbq.get_first [OF q2(2,3)] by blast
  have run: "fifo_run ring_put ring_get [Put [1, 2], Put [3], Get] rb = ([[1, 2], [3]], [[1, 2]], r)"
    by (simp add: q1 q2 r)
  with ring_buffer_fifo [OF rb(1) run] rb show ?thesis by auto
qed

end
