(* ===== verification/Packet_Buffer.thy ===== *)
theory Packet_Buffer
  imports Ring_Buffer
begin

unbundle bit_operations_syntax

text \<open>
  \<open>include/capture/packet_buffer.h\<close> and \<open>src/capture/packet_buffer.cpp\<close>: captured frames in
  the ring, each behind the 8-byte timestamp of its capture. The timestamp is copied to and
  from the slot with \<open>memcpy\<close>, so its bytes are in the byte order of the host, an argument of
  the model. A stack array such as \<open>slot_buf\<close> starts with indeterminate contents: they are an
  argument as well.
\<close>

definition TIMESTAMP_SIZE :: size_t where "TIMESTAMP_SIZE = 8"

datatype byte_order = Little_Endian | Big_Endian

text \<open>The bytes of a \<open>uint64_t\<close> object in memory, and the object of eight bytes.\<close>

definition u64_bytes :: "byte_order \<Rightarrow> u64 \<Rightarrow> u8 list" where
  "u64_bytes e w = (let le = map (\<lambda>i. ucast (drop_bit (8 * i) w)) [0..<8]
     in case e of Little_Endian \<Rightarrow> le | Big_Endian \<Rightarrow> rev le)"

definition u64_of_bytes :: "byte_order \<Rightarrow> u8 list \<Rightarrow> u64" where
  "u64_of_bytes e bs = (let le = (case e of Little_Endian \<Rightarrow> bs | Big_Endian \<Rightarrow> rev bs)
     in foldr (\<lambda>b w. push_bit 8 w OR ucast b) le 0)"

text \<open>
  \<open>nowMillis\<close>: the system clock counts nanoseconds since the epoch, the cast to milliseconds
  truncates towards zero, and the count becomes a \<open>uint64_t\<close>.
\<close>

definition nowMillis :: "int \<Rightarrow> u64" where
  "nowMillis ns = word_of_int (if 0 \<le> ns then ns div 1000000 else - ((- ns) div 1000000))"

type_synonym PacketBuffer = RingBuffer

definition new_PacketBuffer :: "(size_t \<Rightarrow> nat \<Rightarrow> bool) \<Rightarrow> size_t \<Rightarrow> ctor_error + PacketBuffer" where
  "new_PacketBuffer alloc_ok n = new_RingBuffer alloc_ok n"

definition packet_write :: "byte_order \<Rightarrow> int \<Rightarrow> u8 list \<Rightarrow> bool \<Rightarrow> bool \<Rightarrow> u8 list \<Rightarrow> size_t
    \<Rightarrow> PacketBuffer \<Rightarrow> (bool \<times> PacketBuffer) outcome" where
  "packet_write e clock slot_buf stop_wait stop_after frame_data frame_size pb =
     (if frame_size = 0 \<or> frame_size > SLOT_SIZE - TIMESTAMP_SIZE then Returns (False, pb)
      else let ts = nowMillis clock in
        (case memcpy_at slot_buf 0 (u64_bytes e ts) (unat TIMESTAMP_SIZE) of None \<Rightarrow> Undefined
         | Some slot_buf \<Rightarrow>
        (case memcpy_at slot_buf (unat TIMESTAMP_SIZE) frame_data (unat frame_size) of None \<Rightarrow> Undefined
         | Some slot_buf \<Rightarrow> ring_write stop_wait stop_after slot_buf (TIMESTAMP_SIZE + frame_size) pb)))"

text \<open>The result of \<open>read\<close>: the returned flag, the out parameters and the buffer.\<close>

record read_result =
  rd_ok :: bool
  rd_data :: "u8 list"
  rd_size :: size_t
  rd_timestamp :: u64
  rd_buffer :: PacketBuffer

definition packet_read :: "byte_order \<Rightarrow> u8 list \<Rightarrow> bool \<Rightarrow> bool \<Rightarrow> u8 list \<Rightarrow> size_t \<Rightarrow> size_t \<Rightarrow> u64
    \<Rightarrow> PacketBuffer \<Rightarrow> read_result outcome" where
  "packet_read e slot_buf stop_wait stop_after out_data out_capacity out_size out_timestamp pb =
     (case ring_read stop_wait stop_after slot_buf 0 pb of
        Blocks \<Rightarrow> Blocks
      | Undefined \<Rightarrow> Undefined
      | Returns (ok, slot_buf, slot_size, pb') \<Rightarrow>
          if \<not> ok then Returns \<lparr>rd_ok = False, rd_data = out_data, rd_size = out_size,
            rd_timestamp = out_timestamp, rd_buffer = pb'\<rparr>
          else if slot_size < TIMESTAMP_SIZE then Returns \<lparr>rd_ok = False, rd_data = out_data,
            rd_size = out_size, rd_timestamp = out_timestamp, rd_buffer = pb'\<rparr>
          else let out_size = slot_size - TIMESTAMP_SIZE in
            if out_size > out_capacity then Returns \<lparr>rd_ok = False, rd_data = out_data,
              rd_size = out_size, rd_timestamp = out_timestamp, rd_buffer = pb'\<rparr>
            else (case memcpy_at out_data 0 (drop (unat TIMESTAMP_SIZE) slot_buf) (unat out_size) of
                None \<Rightarrow> Undefined
              | Some d \<Rightarrow> Returns \<lparr>rd_ok = True, rd_data = d, rd_size = out_size,
                  rd_timestamp = u64_of_bytes e (take (unat TIMESTAMP_SIZE) slot_buf), rd_buffer = pb'\<rparr>))"

definition packet_isEmpty :: "PacketBuffer \<Rightarrow> bool" where
  "packet_isEmpty pb = isEmpty pb"

definition packet_isFull :: "PacketBuffer \<Rightarrow> bool" where
  "packet_isFull pb = isFull pb"

definition packet_count :: "PacketBuffer \<Rightarrow> size_t" where
  "packet_count pb = count pb"

definition packet_capacity :: "PacketBuffer \<Rightarrow> size_t" where
  "packet_capacity pb = capacity pb"


subsection \<open>Invariant and abstraction\<close>

definition packet_of_slot :: "byte_order \<Rightarrow> u8 list \<Rightarrow> u64 \<times> u8 list" where
  "packet_of_slot e s = (u64_of_bytes e (take 8 s), drop 8 s)"

definition packet_frames :: "byte_order \<Rightarrow> PacketBuffer \<Rightarrow> (u64 \<times> u8 list) list" where
  "packet_frames e pb = map (packet_of_slot e) (ring_frames pb)"

definition packet_inv :: "PacketBuffer \<Rightarrow> bool" where
  "packet_inv pb \<longleftrightarrow> ring_inv pb \<and> (\<forall>s \<in> set (ring_frames pb). 9 \<le> length s \<and> length s \<le> 2048)"

definition capture_sized :: "u64 \<times> u8 list \<Rightarrow> bool" where
  "capture_sized x \<longleftrightarrow> 1 \<le> length (snd x) \<and> length (snd x) \<le> 2040"


subsection \<open>Timestamps\<close>

lemma length_u64_bytes [simp]: "length (u64_bytes e w) = 8"
  by (simp add: u64_bytes_def Let_def split: byte_order.splits)

lemma fold_bytes_le:
  "foldr (\<lambda>b w. push_bit 8 w OR ucast (b :: u8)) (map (\<lambda>i. ucast (drop_bit (8 * i) w)) [k..<8]) 0
    = drop_bit (8 * k) (w :: u64)" if "k \<le> 8"
  using that
proof (induction "8 - k" arbitrary: k)
  case 0
  then show ?case by (simp add: drop_bit_word_beyond)
next
  case (Suc n)
  then have k: "k < 8" "[k..<8] = k # [Suc k..<8]" by (auto simp: upt_conv_Cons)
  from Suc have "foldr (\<lambda>b w. push_bit 8 w OR ucast (b :: u8)) (map (\<lambda>i. ucast (drop_bit (8 * i) w)) [Suc k..<8]) 0
    = drop_bit (8 * Suc k) w" by simp
  moreover have "push_bit 8 (drop_bit (8 * Suc k) w) OR ucast (ucast (drop_bit (8 * k) w) :: u8) = drop_bit (8 * k) w"
    by (rule bit_word_eqI) (auto simp: bit_simps)
  ultimately show ?case by (simp add: k(2))
qed

lemma u64_roundtrip [simp]: "u64_of_bytes e (u64_bytes e w) = w"
  using fold_bytes_le [of 0 w]
  by (cases e) (simp_all only: u64_of_bytes_def u64_bytes_def Let_def byte_order.case rev_rev_ident
      mult_0_right drop_bit_0 id_apply)


subsection \<open>Writing\<close>

lemma frame_size_gt: "n > SLOT_SIZE - TIMESTAMP_SIZE \<longleftrightarrow> 2040 < unat n"
  by (simp add: SLOT_SIZE_def TIMESTAMP_SIZE_def word_less_nat_alt)

lemma slot_contents:
  assumes "length slot_buf = 2048" and "k \<le> 2040" and "k \<le> length data"
  obtains b1 b2 where "memcpy_at slot_buf 0 (u64_bytes e ts) 8 = Some b1" and "memcpy_at b1 8 data k = Some b2"
    and "take (8 + k) b2 = u64_bytes e ts @ take k data" and "length b2 = 2048"
proof -
  obtain b1 where b1: "memcpy_at slot_buf 0 (u64_bytes e ts) 8 = Some b1"
    using assms(1) by (simp add: memcpy_at_def)
  then have l1: "length b1 = 2048" "take 8 b1 = u64_bytes e ts" using memcpy_at_SomeD [OF b1] assms(1) by auto
  obtain b2 where b2: "memcpy_at b1 8 data k = Some b2" using l1 assms by (simp add: memcpy_at_def)
  have "take (8 + k) b2 = take 8 b2 @ take k (drop 8 b2)" by (rule take_add)
  then show ?thesis using memcpy_at_SomeD [OF b2] l1 by (intro that [OF b1 b2]) auto
qed

lemma unat_slot_payload: "unat n \<le> 2040 \<Longrightarrow> unat (TIMESTAMP_SIZE + n) = 8 + unat n"
  by (simp add: TIMESTAMP_SIZE_def unat_word_ariths)

lemma unat_TIMESTAMP_SIZE [simp]: "unat TIMESTAMP_SIZE = 8"
  by (simp add: TIMESTAMP_SIZE_def)

lemma packet_write_ring:
  assumes "length slot_buf = 2048" and "1 \<le> unat n" and "unat n \<le> 2040" and "unat n \<le> length data"
  obtains b where "packet_write e clock slot_buf sw sa data n pb = ring_write sw sa b (TIMESTAMP_SIZE + n) pb"
    and "take (8 + unat n) b = u64_bytes e (nowMillis clock) @ take (unat n) data" and "length b = 2048"
proof -
  obtain b1 b2 where b: "memcpy_at slot_buf 0 (u64_bytes e (nowMillis clock)) 8 = Some b1"
    "memcpy_at b1 8 data (unat n) = Some b2"
    "take (8 + unat n) b2 = u64_bytes e (nowMillis clock) @ take (unat n) data" "length b2 = 2048"
    using slot_contents [OF assms(1,3,4)] by metis
  have "n \<noteq> 0" "\<not> n > SLOT_SIZE - TIMESTAMP_SIZE" using assms by (auto simp: frame_size_gt)
  then show ?thesis using b by (intro that [of b2]) (simp_all add: packet_write_def)
qed

lemma packet_of_slot_written: "packet_of_slot e (u64_bytes e ts @ f) = (ts, f)"
  by (simp add: packet_of_slot_def)

lemma packet_write_frames:
  assumes inv: "packet_inv pb" and room: "\<not> isFull pb" and buf: "length slot_buf = 2048"
    and n: "1 \<le> unat n" "unat n \<le> 2040" "unat n \<le> length data"
  shows "\<exists>pb'. packet_write e clock slot_buf sw sa data n pb = Returns (True, pb') \<and> packet_inv pb'
    \<and> packet_frames e pb' = packet_frames e pb @ [(nowMillis clock, take (unat n) data)]
    \<and> rb_capacity pb' = rb_capacity pb"
proof -
  obtain b where w: "packet_write e clock slot_buf sw sa data n pb = ring_write sw sa b (TIMESTAMP_SIZE + n) pb"
    and b: "take (8 + unat n) b = u64_bytes e (nowMillis clock) @ take (unat n) data" "length b = 2048"
    by (rule packet_write_ring [OF buf n])
  have "ring_inv pb" using inv by (simp add: packet_inv_def)
  from ring_write_frames [OF this room, of "TIMESTAMP_SIZE + n" b sw sa] n b obtain pb' where
    "ring_write sw sa b (TIMESTAMP_SIZE + n) pb = Returns (True, pb')" "ring_inv pb'" "rb_capacity pb' = rb_capacity pb"
    "ring_frames pb' = ring_frames pb @ [u64_bytes e (nowMillis clock) @ take (unat n) data]"
    by (auto simp: unat_slot_payload)
  then show ?thesis using inv n w by (auto simp: packet_inv_def packet_frames_def packet_of_slot_written)
qed


subsection \<open>Reading\<close>

lemma packet_read_first:
  assumes inv: "packet_inv pb" and fr: "packet_frames e pb = (ts, f) # fs" and buf: "length slot_buf = 2048"
    and out: "unat cap \<le> length out"
  shows "\<exists>pb' len. unat len = length f \<and> 1 \<le> length f \<and> length f \<le> 2040
    \<and> packet_read e slot_buf sw sa out cap n t0 pb =
      (if length f \<le> unat cap
       then Returns \<lparr>rd_ok = True, rd_data = f @ drop (length f) out, rd_size = len, rd_timestamp = ts, rd_buffer = pb'\<rparr>
       else Returns \<lparr>rd_ok = False, rd_data = out, rd_size = len, rd_timestamp = t0, rd_buffer = pb'\<rparr>)
    \<and> packet_inv pb' \<and> packet_frames e pb' = fs \<and> rb_capacity pb' = rb_capacity pb"
proof -
  obtain s ss where s: "ring_frames pb = s # ss" "packet_of_slot e s = (ts, f)" "map (packet_of_slot e) ss = fs"
    using fr by (auto simp: packet_frames_def)
  then have sz: "9 \<le> length s" "length s \<le> 2048" and f: "f = drop 8 s" "ts = u64_of_bytes e (take 8 s)"
    using inv by (auto simp: packet_inv_def packet_of_slot_def)
  have "ring_inv pb" using inv by (simp add: packet_inv_def)
  from ring_read_first [OF this s(1), of slot_buf sw sa 0] buf obtain d len pb' where
    r: "ring_read sw sa slot_buf 0 pb = Returns (True, d, len, pb')" and len: "unat len = length s"
    and d: "take (length s) d = s" "length d = 2048" and pb': "ring_inv pb'" "ring_frames pb' = ss"
      "rb_capacity pb' = rb_capacity pb" by auto
  let ?n = "len - TIMESTAMP_SIZE"
  have n: "unat ?n = length f" "\<not> len < TIMESTAMP_SIZE"
    using len sz f by (simp_all add: unat_sub word_le_nat_alt word_less_nat_alt)
  have d8: "take 8 d = take 8 s" "take (length f) (drop 8 d) = f"
  proof -
    have "take 8 (take (length s) d) = take 8 d" using sz by (simp add: min_def)
    then show "take 8 d = take 8 s" using d(1) by simp
    show "take (length f) (drop 8 d) = f" using d(1) sz f(1) by (metis drop_take length_drop)
  qed
  have "packet_read e slot_buf sw sa out cap n t0 pb =
      (if length f \<le> unat cap
       then Returns \<lparr>rd_ok = True, rd_data = f @ drop (length f) out, rd_size = ?n, rd_timestamp = ts, rd_buffer = pb'\<rparr>
       else Returns \<lparr>rd_ok = False, rd_data = out, rd_size = ?n, rd_timestamp = t0, rd_buffer = pb'\<rparr>)"
    using n d d8 out f sz len
    by (auto simp: packet_read_def r Let_def word_less_nat_alt memcpy_at_def)
  moreover have "packet_inv pb'" "packet_frames e pb' = fs"
    using inv pb' s by (auto simp: packet_inv_def packet_frames_def)
  moreover have "1 \<le> length f" "length f \<le> 2040" using f(1) sz by auto
  ultimately show ?thesis using n(1) pb'(3) by (intro exI [of _ pb'] exI [of _ ?n]) simp
qed


subsection \<open>The packet buffer as a bounded queue of timestamped frames\<close>

definition packet_put :: "byte_order \<Rightarrow> u64 \<times> u8 list \<Rightarrow> PacketBuffer \<Rightarrow> PacketBuffer option" where
  "packet_put e x pb = (if length (snd x) < 2 ^ 64 then
     (case packet_write e (uint (fst x) * 1000000) (replicate 2048 0) False False (snd x)
        (of_nat (length (snd x))) pb of
        Returns (ok, pb') \<Rightarrow> if ok then Some pb' else None | _ \<Rightarrow> None) else None)"

definition packet_get :: "byte_order \<Rightarrow> PacketBuffer \<Rightarrow> ((u64 \<times> u8 list) \<times> PacketBuffer) option" where
  "packet_get e pb = (case packet_read e (replicate 2048 0) False False (replicate 2040 0) 2040 0 0 pb of
     Returns r \<Rightarrow> if rd_ok r then Some ((rd_timestamp r, take (unat (rd_size r)) (rd_data r)), rd_buffer r) else None
     | _ \<Rightarrow> None)"

lemma nowMillis_of_millis [simp]: "nowMillis (uint ts * 1000000) = ts"
  by (simp add: nowMillis_def)

lemma packet_write_full: "packet_inv pb \<Longrightarrow> isFull pb \<Longrightarrow> length slot_buf = 2048 \<Longrightarrow> 1 \<le> unat n
    \<Longrightarrow> unat n \<le> 2040 \<Longrightarrow> unat n \<le> length data \<Longrightarrow>
    packet_write e clock slot_buf False sa data n pb = Blocks"
  by (rule packet_write_ring [of slot_buf n data e clock False sa pb])
    (auto simp: ring_write_def slot_size_gt unat_slot_payload dest!: arg_cong [of _ 0 unat])

interpretation pbq: bounded_fifo packet_inv "packet_frames e" "\<lambda>pb. unat (rb_capacity pb)" capture_sized
    "packet_put e" "packet_get e" for e
proof unfold_locales
  fix pb
  assume inv: "packet_inv pb"
  then have rinv: "ring_inv pb" by (simp add: packet_inv_def)
  have len: "length (packet_frames e pb) = unat (rb_count pb)" by (simp add: packet_frames_def length_ring_frames)
  then show "length (packet_frames e pb) \<le> unat (rb_capacity pb)" using rinv by (simp add: ring_inv_def)
  fix x
  show "\<not> capture_sized x \<Longrightarrow> packet_put e x pb = None"
    by (auto simp: packet_put_def packet_write_def frame_size_gt capture_sized_def not_le unat_of_nat
        take_bit_nat_eq_self)
  have lx: "unat (of_nat (length (snd x)) :: size_t) = length (snd x)" if "capture_sized x"
    using that by (simp add: capture_sized_def unat_of_nat take_bit_nat_eq_self)
  show "packet_put e x pb = None" if "length (packet_frames e pb) = unat (rb_capacity pb)"
  proof (cases "capture_sized x")
    case True
    then show ?thesis using packet_write_full [OF inv, of "replicate 2048 0"] that len lx isFull_iff [OF rinv]
      by (auto simp: packet_put_def capture_sized_def length_ring_frames)
  next
    case False
    then show ?thesis by (auto simp: packet_put_def packet_write_def frame_size_gt capture_sized_def not_le
        unat_of_nat take_bit_nat_eq_self)
  qed
  show "packet_frames e pb = [] \<Longrightarrow> packet_get e pb = None"
    by (simp add: packet_get_def packet_read_def ring_read_def isEmpty_iff packet_frames_def)
  show "\<exists>pb'. packet_put e x pb = Some pb' \<and> packet_inv pb' \<and> packet_frames e pb' = packet_frames e pb @ [x]
      \<and> unat (rb_capacity pb') = unat (rb_capacity pb)"
    if "capture_sized x" and "length (packet_frames e pb) < unat (rb_capacity pb)"
  proof -
    have "\<not> isFull pb" using that(2) len isFull_iff [OF rinv] by (simp add: length_ring_frames)
    from packet_write_frames [OF inv this, of "replicate 2048 0" "of_nat (length (snd x))" "snd x" e
        "uint (fst x) * 1000000" False False] that(1) lx [OF that(1)]
    show ?thesis by (auto simp: packet_put_def capture_sized_def)
  qed
next
  fix pb x fs
  assume "packet_inv pb" and "packet_frames e pb = x # fs"
  then have "packet_frames e pb = (fst x, snd x) # fs" by simp
  from packet_read_first [OF \<open>packet_inv pb\<close> this, of "replicate 2048 0" 2040 "replicate 2040 0" False False 0 0]
  show "\<exists>pb'. packet_get e pb = Some (x, pb') \<and> packet_inv pb' \<and> packet_frames e pb' = fs
      \<and> unat (rb_capacity pb') = unat (rb_capacity pb)"
    by (auto simp: packet_get_def)
qed

lemma packet_observers:
  assumes "packet_inv pb"
  shows "packet_isEmpty pb \<longleftrightarrow> packet_frames e pb = []" and "unat (packet_count pb) = length (packet_frames e pb)"
    and "packet_isFull pb \<longleftrightarrow> length (packet_frames e pb) = unat (packet_capacity pb)"
  using assms isFull_iff [of pb] isEmpty_iff [of pb]
  by (simp_all add: packet_isEmpty_def packet_count_def packet_isFull_def packet_capacity_def packet_frames_def packet_inv_def
      length_ring_frames count_def capacity_def)

lemma new_PacketBuffer_ok:
  "new_PacketBuffer alloc_ok n = Inr pb \<Longrightarrow> packet_inv pb \<and> packet_frames e pb = [] \<and> rb_capacity pb = n"
  using new_RingBuffer_ok [of alloc_ok n pb] by (simp add: new_PacketBuffer_def packet_inv_def packet_frames_def)

text \<open>
  For a frame that fits a slot, \<open>PacketBuffer::write\<close> appends it, blocks on a full ring, or,
  when the engine is stopping, gives up on a full ring.
\<close>

lemma packet_write_outcome:
  assumes inv: "packet_inv pb" and buf: "length slot_buf = 2048"
    and n: "1 \<le> unat n" "unat n \<le> 2040" "unat n \<le> length data" and mono: "sw \<longrightarrow> sa"
  shows "(\<not> isFull pb \<and> (\<exists>pb'. packet_write e clock slot_buf sw sa data n pb = Returns (True, pb') \<and> packet_inv pb'
      \<and> packet_frames e pb' = packet_frames e pb @ [(nowMillis clock, take (unat n) data)]
      \<and> rb_capacity pb' = rb_capacity pb))
    \<or> (isFull pb \<and> \<not> sw \<and> packet_write e clock slot_buf sw sa data n pb = Blocks)
    \<or> (isFull pb \<and> sw \<and> packet_write e clock slot_buf sw sa data n pb = Returns (False, pb))"
proof (cases "isFull pb")
  case True
  obtain b where w: "packet_write e clock slot_buf sw sa data n pb = ring_write sw sa b (TIMESTAMP_SIZE + n) pb"
    by (rule packet_write_ring [OF buf n])
  have "unat (TIMESTAMP_SIZE + n) = 8 + unat n" by (rule unat_slot_payload [OF n(2)])
  then have "TIMESTAMP_SIZE + n \<noteq> 0" "\<not> TIMESTAMP_SIZE + n > SLOT_SIZE"
    using n by (auto simp: slot_size_gt dest: arg_cong [of _ 0 unat])
  with True w mono show ?thesis by (auto simp: ring_write_def)
next
  case False
  with packet_write_frames [OF inv False buf n] show ?thesis by blast
qed


subsection \<open>Properties\<close>

text \<open>C12: The packet buffer is a first-in first-out channel of timestamped frames: on a freshly
  constructed buffer, after any interleaving of writes and reads, the accepted pairs of
  capture time and frame bytes are the delivered pairs followed by the queued ones, in order
  and unchanged, on hosts of either byte order.\<close>

theorem packet_buffer_fifo:
  assumes "new_PacketBuffer alloc_ok n = Inr pb"
    and "fifo_run (packet_put e) (packet_get e) ops pb = (acc, del, r)"
  shows "acc = del @ packet_frames e r \<and> length (packet_frames e r) \<le> unat n \<and> packet_inv r"
  using new_PacketBuffer_ok [OF assms(1), of e] pbq.run_fifo [OF _ assms(2)] pbq.run_bounded [OF _ assms(2)]
  by auto

theorem packet_buffer_fifo_witness:
  "\<exists>pb r. new_PacketBuffer (\<lambda>_ _. True) 2 = Inr pb
     \<and> fifo_run (packet_put Big_Endian) (packet_get Big_Endian) [Put (1700000000000, [1, 2]), Get] pb
       = ([(1700000000000, [1, 2])], [(1700000000000, [1, 2])], r)
     \<and> packet_frames Big_Endian r = []"
proof -
  obtain pb where pb: "new_PacketBuffer (\<lambda>_ _. True) 2 = Inr pb" "packet_inv pb"
    "packet_frames Big_Endian pb = []" "rb_capacity pb = 2"
    using ring_of_two new_PacketBuffer_ok [of "\<lambda>_ _. True" 2 _ Big_Endian] by (metis new_PacketBuffer_def)
  obtain q where q: "packet_put Big_Endian (1700000000000, [1, 2]) pb = Some q" "packet_inv q"
    "packet_frames Big_Endian q = [(1700000000000, [1, 2])]"
    using pbq.put_room [OF pb(2), of "(1700000000000, [1, 2])" Big_Endian] pb by (auto simp: capture_sized_def)
  obtain r where r: "packet_get Big_Endian q = Some ((1700000000000, [1, 2]), r)"
    using pbq.get_first [OF q(2,3)] by blast
  have run: "fifo_run (packet_put Big_Endian) (packet_get Big_Endian) [Put (1700000000000, [1, 2]), Get] pb
       = ([(1700000000000, [1, 2])], [(1700000000000, [1, 2])], r)" by (simp add: q r)
  with packet_buffer_fifo [OF pb(1) run] pb show ?thesis by auto
qed

text \<open>\<open>PacketBuffer::read\<close> with a queued frame: if the frame fits the caller's buffer it is
  delivered with its capture time; if it does not, the call returns false and the frame is gone
  from the queue all the same, with the caller's data and timestamp untouched.\<close>

theorem packet_read_behaviour:
  assumes "packet_inv pb" and "packet_frames e pb = (ts, f) # fs" and "length slot_buf = 2048"
    and "unat cap \<le> length out"
  shows "\<exists>pb' len. unat len = length f
    \<and> packet_read e slot_buf sw sa out cap n t0 pb =
      (if length f \<le> unat cap
       then Returns \<lparr>rd_ok = True, rd_data = f @ drop (length f) out, rd_size = len, rd_timestamp = ts, rd_buffer = pb'\<rparr>
       else Returns \<lparr>rd_ok = False, rd_data = out, rd_size = len, rd_timestamp = t0, rd_buffer = pb'\<rparr>)
    \<and> packet_inv pb' \<and> packet_frames e pb' = fs"
  using packet_read_first [OF assms, of sw sa n t0] by blast

theorem packet_read_behaviour_witness:
  "\<exists>pb pb'. packet_read Little_Endian (replicate 2048 0) False False [9, 9] 2 0 7 pb
     = Returns \<lparr>rd_ok = False, rd_data = [9, 9], rd_size = 3, rd_timestamp = 7, rd_buffer = pb'\<rparr>
     \<and> packet_frames Little_Endian pb = [(5, [1, 2, 3])] \<and> packet_frames Little_Endian pb' = []"
proof -
  obtain pb where pb: "packet_inv pb" "packet_frames Little_Endian pb = []" "rb_capacity pb = 2"
    using ring_of_two new_PacketBuffer_ok [of "\<lambda>_ _. True" 2 _ Little_Endian] by (metis new_PacketBuffer_def)
  obtain q where q: "packet_inv q" "packet_frames Little_Endian q = [(5, [1, 2, 3])]"
    using pbq.put_room [OF pb(1), of "(5, [1, 2, 3])" Little_Endian] pb by (auto simp: capture_sized_def)
  have "unat (2 :: size_t) \<le> length [9 :: u8, 9]" by simp
  from packet_read_behaviour [OF q(1) q(2) _ this, of "replicate 2048 0" False False 0 7] obtain pb' len where
    "unat len = Suc (Suc (Suc 0))" "packet_frames Little_Endian pb' = []"
    "packet_read Little_Endian (replicate 2048 0) False False [9, 9] 2 0 7 q
     = Returns \<lparr>rd_ok = False, rd_data = [9, 9], rd_size = len, rd_timestamp = 7, rd_buffer = pb'\<rparr>" by auto
  moreover from this(1) have "len = 3" by (auto dest: size_eq_of_nat)
  ultimately show ?thesis using q(2) by blast
qed

end
