(* ===== verification/Header_Reader.thy ===== *)
theory Header_Reader
  imports Engine_Prelude
begin

unbundle bit_operations_syntax

text \<open>
  The big-endian readers that every parser file of \<open>src/parsers\<close> declares as its own static
  functions, and the contracts the pipeline relies on. \<open>safe_parser\<close>: a header parser that is
  given \<open>len\<close> readable bytes never leaves them, its result depends on them only, and it
  rejects what is shorter than its minimal header. \<open>payload_parser\<close> adds that the payload
  handed to the next layer lies inside the bytes the parser was given.
\<close>

definition readU16Be :: "mem \<Rightarrow> ptr \<Rightarrow> u16 option" where
  "readU16Be m p = do {
     b0 \<leftarrow> load m p 0;
     b1 \<leftarrow> load m p 1;
     Some (push_bit 8 (ucast b0) OR ucast b1) }"

definition readU32Be :: "mem \<Rightarrow> ptr \<Rightarrow> u32 option" where
  "readU32Be m p = do {
     b0 \<leftarrow> load m p 0;
     b1 \<leftarrow> load m p 1;
     b2 \<leftarrow> load m p 2;
     b3 \<leftarrow> load m p 3;
     Some (push_bit 24 (ucast b0) OR push_bit 16 (ucast b1) OR push_bit 8 (ucast b2) OR ucast b3) }"

lemma load_ptr_add [simp]: "load m (ptr_add p k) i = load m p (k + i)"
  by (cases p) (simp_all add: load_def add.assoc)

lemma ptr_add_ptr_add [simp]: "ptr_add (ptr_add p i) j = ptr_add p (i + j)"
  by (cases p) (simp_all add: add.assoc)

lemma ptr_add_0 [simp]: "ptr_add p 0 = p"
  by (cases p) simp_all

lemma readU16Be_loads:
  "readU16Be m (ptr_add p k) = do { a \<leftarrow> load m p k; b \<leftarrow> load m p (k + 1); Some (be16 a b) }"
  by (simp add: readU16Be_def be16_def)

lemma readU32Be_loads:
  "readU32Be m (ptr_add p k) = do {
     a \<leftarrow> load m p k; b \<leftarrow> load m p (k + 1); c \<leftarrow> load m p (k + 2); d \<leftarrow> load m p (k + 3);
     Some (be32 a b c d) }"
  by (simp add: readU32Be_def be32_def)

lemmas readBe_loads = readU16Be_loads readU32Be_loads

text \<open>Reads below a readable bound succeed, and equal bytes give equal reads.\<close>

lemma load_readable: "readable m p n \<Longrightarrow> i < n \<Longrightarrow> load m p i = Some (bytes_at m p n ! i)"
  by (cases p) (simp_all add: load_Ptr)

lemma load_bytes_readable:
  "readable m p n \<Longrightarrow> off + k \<le> n \<Longrightarrow> load_bytes m p off k = Some (take k (drop off (bytes_at m p n)))"
  by (cases p) (simp_all add: load_bytes_Ptr drop_take take_take add.commute min_def)

lemma readable_mono: "readable m p n \<Longrightarrow> k \<le> n \<Longrightarrow> readable m p k"
  by (cases p) simp_all

lemma readable_ptr_add: "readable m p n \<Longrightarrow> k + j \<le> n \<Longrightarrow> readable m (ptr_add p k) j"
  by (cases p) simp_all

lemma bytes_at_prefix: "k \<le> n \<Longrightarrow> bytes_at m p k = take k (bytes_at m p n)"
  by (cases p) (simp_all add: bytes_at_def min_def)

lemma bytes_at_sub:
  "k + j \<le> n \<Longrightarrow> bytes_at m (ptr_add p k) j = take j (drop k (bytes_at m p n))"
  by (cases p) (simp_all add: bytes_at_def drop_take take_take add.commute min_def)

lemma bytes_at_prefix_eq:
  "bytes_at m p n = bytes_at m' p n \<Longrightarrow> k \<le> n \<Longrightarrow> bytes_at m p k = bytes_at m' p k"
  by (simp add: bytes_at_prefix [of k n])

lemma bytes_at_sub_eq:
  "bytes_at m p n = bytes_at m' p n \<Longrightarrow> k + j \<le> n \<Longrightarrow>
     bytes_at m (ptr_add p k) j = bytes_at m' (ptr_add p k) j"
  by (simp add: bytes_at_sub [of k j n])


subsection \<open>The contract of a header parser\<close>

locale safe_parser =
  fixes parse :: "mem \<Rightarrow> ptr \<Rightarrow> size_t \<Rightarrow> 'h option option"
    and min_len :: nat
  assumes no_fault: "readable m p (unat len) \<Longrightarrow> \<exists>r. parse m p len = Some r"
    and local_bytes: "readable m p (unat len) \<Longrightarrow> readable m' p (unat len) \<Longrightarrow>
      bytes_at m p (unat len) = bytes_at m' p (unat len) \<Longrightarrow> parse m p len = parse m' p len"
    and rejects_short: "unat len < min_len \<Longrightarrow> parse m p len = Some None"
begin

lemma accepted_long: "parse m p len = Some (Some h) \<Longrightarrow> min_len \<le> unat len"
  using rejects_short [of len m p] by (cases "unat len < min_len") auto

text \<open>Bytes written behind the frame, such as those a longer frame left there, do not matter.\<close>

lemma stale_bytes_irrelevant:
  assumes "a + unat len \<le> length m"
  shows "parse (take (a + unat len) m @ rest) (Ptr a) len = parse m (Ptr a) len"
  using assms by (intro local_bytes) (simp_all add: drop_take)

end

locale payload_parser = safe_parser parse min_len
  for parse :: "mem \<Rightarrow> ptr \<Rightarrow> size_t \<Rightarrow> 'h option option" and min_len :: nat +
  fixes payload_of :: "'h \<Rightarrow> ptr" and payload_len_of :: "'h \<Rightarrow> size_t"
  assumes payload_inside: "parse m p len = Some (Some h) \<Longrightarrow>
      \<exists>k. payload_of h = ptr_add p k \<and> k + unat (payload_len_of h) \<le> unat len"
begin

lemma payload_readable:
  assumes "readable m p (unat len)" and "parse m p len = Some (Some h)"
  shows "readable m (payload_of h) (unat (payload_len_of h))"
  using payload_inside [OF assms(2)] readable_ptr_add [OF assms(1)] by auto

end

end
