(* ===== verification/Text_Format.thy ===== *)
theory Text_Format
  imports Engine_Prelude
begin

text \<open>
  The text the program prints: decimal and hexadecimal numerals (\<open>std::to_string\<close>,
  \<open>operator<<\<close> with \<open>std::dec\<close> and \<open>std::hex\<close>), fields padded by \<open>std::setw\<close> and
  \<open>std::setfill\<close>, and the dotted-decimal addresses of \<open>inet_ntop (AF_INET, ...)\<close>. Numerals
  can be read back (\<open>radix_value\<close>), so that printing is injective.
\<close>

definition digit_char :: "nat \<Rightarrow> char" where
  "digit_char d = (if d < 10 then char_of (48 + d) else char_of (87 + d))"

fun radix_string :: "nat \<Rightarrow> nat \<Rightarrow> string" where
  "radix_string b n =
     (if n < b \<or> b < 2 then [digit_char n] else radix_string b (n div b) @ [digit_char (n mod b)])"

declare radix_string.simps [simp del]

definition dec_string :: "nat \<Rightarrow> string" where
  "dec_string n = radix_string 10 n"

definition int_string :: "int \<Rightarrow> string" where
  "int_string i = (if i < 0 then ''-'' @ dec_string (nat (- i)) else dec_string (nat i))"

definition hex_string :: "nat \<Rightarrow> string" where
  "hex_string n = radix_string 16 n"

definition setw :: "nat \<Rightarrow> char \<Rightarrow> string \<Rightarrow> string" where
  "setw w fill s = replicate (w - length s) fill @ s"

definition hex2 :: "u8 \<Rightarrow> string" where
  "hex2 b = setw 2 CHR ''0'' (hex_string (unat b))"

text \<open>
  \<open>htonl\<close> followed by \<open>inet_ntop (AF_INET, ...)\<close>: the address is laid out with its most
  significant byte first and printed byte by byte.
\<close>

definition inet_ntop :: "u8 list \<Rightarrow> string" where
  "inet_ntop bs = dec_string (unat (bs ! 0)) @ ''.'' @ dec_string (unat (bs ! 1)) @ ''.''
     @ dec_string (unat (bs ! 2)) @ ''.'' @ dec_string (unat (bs ! 3))"

definition htonl_bytes :: "u32 \<Rightarrow> u8 list" where
  "htonl_bytes ip = bytes_be32 ip"


subsection \<open>Reading numerals back\<close>

definition digit_value :: "char \<Rightarrow> nat" where
  "digit_value c = (if of_char c < (58 :: nat) then of_char c - 48 else of_char c - 87)"

definition radix_value :: "nat \<Rightarrow> string \<Rightarrow> nat" where
  "radix_value b s = foldl (\<lambda>v c. b * v + digit_value c) 0 s"

lemma digit_value_char [simp]: "d < 16 \<Longrightarrow> digit_value (digit_char d) = d"
  by (simp add: digit_value_def digit_char_def)

lemma digit_char_0: "digit_char 0 = CHR ''0''"
  by code_simp

lemma radix_value_string: "2 \<le> b \<Longrightarrow> b \<le> 16 \<Longrightarrow> radix_value b (radix_string b n) = n"
proof (induction b n rule: radix_string.induct)
  case (1 b n)
  show ?case
  proof (cases "n < b")
    case True
    with 1 show ?thesis by (subst radix_string.simps) (simp add: radix_value_def)
  next
    case False
    with 1 have "radix_value b (radix_string b (n div b)) = n div b" by simp
    moreover have "n mod b < b" using 1(2) by simp
    then have "n mod b < 16" using 1(3) by linarith
    ultimately show ?thesis using False 1(2,3)
      by (subst radix_string.simps) (simp add: radix_value_def)
  qed
qed

lemma radix_string_inject:
  "2 \<le> b \<Longrightarrow> b \<le> 16 \<Longrightarrow> radix_string b n = radix_string b k \<longleftrightarrow> n = k"
  by (metis radix_value_string)

lemma dec_string_inject [simp]: "dec_string n = dec_string k \<longleftrightarrow> n = k"
  by (simp add: dec_string_def radix_string_inject)

lemma hex_string_inject [simp]: "hex_string n = hex_string k \<longleftrightarrow> n = k"
  by (simp add: hex_string_def radix_string_inject)

lemma radix_string_digits:
  "2 \<le> b \<Longrightarrow> b \<le> 16 \<Longrightarrow> set (radix_string b n) \<subseteq> digit_char ` {..<b}"
proof (induction b n rule: radix_string.induct)
  case (1 b n)
  then show ?case
    by (subst radix_string.simps) (auto simp: image_iff)
qed

lemma radix_string_nonempty [simp]: "radix_string b n \<noteq> []"
  by (subst radix_string.simps) simp

lemma dec_string_nonempty [simp]: "dec_string n \<noteq> []"
  by (simp add: dec_string_def)

definition is_digit :: "char \<Rightarrow> bool" where
  "is_digit c \<longleftrightarrow> (48 :: nat) \<le> of_char c \<and> of_char c < (58 :: nat)"

lemma dec_string_digits: "c \<in> set (dec_string n) \<Longrightarrow> is_digit c"
  using radix_string_digits [of 10 n] by (auto simp: dec_string_def is_digit_def digit_char_def)

text \<open>Two numerals followed by something that is no digit: where both agree, the numerals do.\<close>

lemma digits_split:
  assumes "\<forall>c \<in> set xs. is_digit c" and "\<forall>c \<in> set ys. is_digit c"
    and "\<not> is_digit s" and "\<not> is_digit t" and "xs @ s # us = ys @ t # vs"
  shows "xs = ys \<and> s = t \<and> us = vs"
  using assms
proof (induction xs arbitrary: ys)
  case Nil
  then show ?case by (cases ys) auto
next
  case (Cons x xs)
  then show ?case by (cases ys) auto
qed

lemma dec_string_split:
  "\<not> is_digit s \<Longrightarrow> \<not> is_digit t \<Longrightarrow>
     dec_string n @ s # us = dec_string k @ t # vs \<longleftrightarrow> n = k \<and> s = t \<and> us = vs"
  using digits_split [of "dec_string n" "dec_string k" s t us vs] dec_string_digits by auto

lemma length_dec_string_3: "n < 1000 \<Longrightarrow> length (dec_string n) \<le> 3"
  unfolding dec_string_def
  by (subst radix_string.simps, simp, subst radix_string.simps, simp, subst radix_string.simps, simp)

end
