(* ===== verification/Ethernet_Parser.thy ===== *)
theory Ethernet_Parser
  imports Header_Reader Text_Format
begin

unbundle bit_operations_syntax

text \<open>
  \<open>include/parsers/types.h\<close>, \<open>include/parsers/ethernet_parser.h\<close> and
  \<open>src/parsers/ethernet_parser.cpp\<close>: MAC addresses, the \<open>EthernetFrame\<close> view of a captured
  frame, its parser and the printing of MAC addresses.
\<close>

text \<open>\<open>std::array<uint8_t, 6>\<close>: a list of six bytes.\<close>

type_synonym MACAddress = "u8 list"

definition ETHERNET_HEADER_SIZE :: size_t where "ETHERNET_HEADER_SIZE = 14"
definition ETHERNET_MIN_SIZE :: size_t where "ETHERNET_MIN_SIZE = 15"
definition ETHERTYPE_IPV4 :: u16 where "ETHERTYPE_IPV4 = 0x0800"
definition ETHERTYPE_ARP :: u16 where "ETHERTYPE_ARP = 0x0806"
definition ETHERTYPE_IPV6 :: u16 where "ETHERTYPE_IPV6 = 0x86DD"

record EthernetFrame =
  eth_dst_mac :: MACAddress
  eth_src_mac :: MACAddress
  eth_ethertype :: u16
  eth_payload :: ptr
  eth_payload_size :: size_t
  eth_valid :: bool

text \<open>\<open>EthernetFrame frame{}\<close>: every field zero, \<open>valid\<close> false.\<close>

definition empty_frame :: EthernetFrame where
  "empty_frame = \<lparr>eth_dst_mac = replicate 6 0, eth_src_mac = replicate 6 0, eth_ethertype = 0,
     eth_payload = nullptr, eth_payload_size = 0, eth_valid = False\<rparr>"

definition macToString :: "MACAddress \<Rightarrow> string" where
  "macToString mac = concat (map (\<lambda>i. (if i > 0 then '':'' else []) @ hex2 (mac ! i)) [0..<6])"

definition srcMacString :: "EthernetFrame \<Rightarrow> string" where
  "srcMacString f = macToString (eth_src_mac f)"

definition dstMacString :: "EthernetFrame \<Rightarrow> string" where
  "dstMacString f = macToString (eth_dst_mac f)"

definition ethernet_parse :: "mem \<Rightarrow> ptr \<Rightarrow> size_t \<Rightarrow> EthernetFrame option" where
  "ethernet_parse m data len =
     (if data = nullptr then Some empty_frame
      else if len < ETHERNET_MIN_SIZE then Some empty_frame
      else do {
        dst \<leftarrow> load_bytes m data 0 6;
        src \<leftarrow> load_bytes m data 6 6;
        b12 \<leftarrow> load m data 12;
        b13 \<leftarrow> load m data 13;
        Some (empty_frame\<lparr>eth_dst_mac := dst, eth_src_mac := src,
          eth_ethertype := push_bit 8 (ucast b12) OR ucast b13,
          eth_payload := ptr_add data (unat ETHERNET_HEADER_SIZE),
          eth_payload_size := len - ETHERNET_HEADER_SIZE,
          eth_valid := True\<rparr>) })"


subsection \<open>The bytes of a frame\<close>

text \<open>The header as it is laid out on the wire.\<close>

definition ethernet_wire :: "MACAddress \<Rightarrow> MACAddress \<Rightarrow> u16 \<Rightarrow> u8 list" where
  "ethernet_wire dst src ty = dst @ src @ bytes_be16 ty"

lemma ethernet_min_less: "len < ETHERNET_MIN_SIZE \<longleftrightarrow> unat len < 15"
  by (simp add: ETHERNET_MIN_SIZE_def word_less_nat_alt)

lemma ethernet_parse_valid:
  assumes "readable m p (unat len)" and "15 \<le> unat len"
  shows "ethernet_parse m p len = Some \<lparr>eth_dst_mac = take 6 (bytes_at m p (unat len)),
    eth_src_mac = take 6 (drop 6 (bytes_at m p (unat len))),
    eth_ethertype = be16 (bytes_at m p (unat len) ! 12) (bytes_at m p (unat len) ! 13),
    eth_payload = ptr_add p 14, eth_payload_size = len - 14, eth_valid = True\<rparr>"
proof -
  have "p \<noteq> nullptr" using assms(1) by (cases p) auto
  then show ?thesis using assms
    by (simp add: ethernet_parse_def ethernet_min_less load_readable [OF assms(1)]
        load_bytes_readable [OF assms(1)] empty_frame_def be16_def ETHERNET_HEADER_SIZE_def)
qed

lemma ethernet_parse_invalid:
  "p = nullptr \<or> unat len < 15 \<Longrightarrow> ethernet_parse m p len = Some empty_frame"
  by (auto simp: ethernet_parse_def ethernet_min_less)

lemma unat_payload_size: "15 \<le> unat len \<Longrightarrow> unat (len - 14 :: size_t) = unat len - 14"
  by (simp add: unat_sub word_le_nat_alt)

interpretation eth: payload_parser
  "\<lambda>m p len. map_option (\<lambda>f. if eth_valid f then Some f else None) (ethernet_parse m p len)"
  15 eth_payload eth_payload_size
proof unfold_locales
  fix m m' p and len :: size_t
  assume rd: "readable m p (unat len)"
  then show "\<exists>r. map_option (\<lambda>f. if eth_valid f then Some f else None) (ethernet_parse m p len) = Some r"
    by (cases "unat len < 15") (simp_all add: ethernet_parse_invalid ethernet_parse_valid)
  assume "readable m' p (unat len)" and "bytes_at m p (unat len) = bytes_at m' p (unat len)"
  with rd show "map_option (\<lambda>f. if eth_valid f then Some f else None) (ethernet_parse m p len)
    = map_option (\<lambda>f. if eth_valid f then Some f else None) (ethernet_parse m' p len)"
    by (cases "unat len < 15") (simp_all add: ethernet_parse_invalid ethernet_parse_valid)
next
  fix m p and len :: size_t
  assume "unat len < 15"
  then show "map_option (\<lambda>f. if eth_valid f then Some f else None) (ethernet_parse m p len) = Some None"
    by (simp add: ethernet_parse_invalid empty_frame_def)
next
  fix m p and len :: size_t and h
  assume "map_option (\<lambda>f. if eth_valid f then Some f else None) (ethernet_parse m p len) = Some (Some h)"
  then show "\<exists>k. eth_payload h = ptr_add p k \<and> k + unat (eth_payload_size h) \<le> unat len"
    by (intro exI [of _ 14])
      (auto simp: ethernet_parse_def empty_frame_def ethernet_min_less ETHERNET_HEADER_SIZE_def
        unat_payload_size split: if_splits Option.bind_splits)
qed

subsection \<open>Printing of MAC addresses\<close>

lemma radix_string_two:
  "n < b * b \<Longrightarrow> 2 \<le> b \<Longrightarrow> radix_string b n =
     (if n < b then [digit_char n] else [digit_char (n div b), digit_char (n mod b)])"
  by (subst radix_string.simps, simp, subst radix_string.simps) (simp add: less_mult_imp_div_less)

lemma hex2_digits: "hex2 b = [digit_char (unat b div 16), digit_char (unat b mod 16)]"
  using unat_u8_less [of b]
  by (simp add: hex2_def hex_string_def radix_string_two setw_def digit_char_0)

lemma hex2_inject [simp]: "hex2 a = hex2 b \<longleftrightarrow> a = b"
proof
  assume "hex2 a = hex2 b"
  then have "digit_value (digit_char (unat a div 16)) = digit_value (digit_char (unat b div 16))"
    "digit_value (digit_char (unat a mod 16)) = digit_value (digit_char (unat b mod 16))"
    by (simp_all add: hex2_digits)
  moreover have "unat a div 16 < 16" "unat b div 16 < 16"
    using unat_u8_less [of a] unat_u8_less [of b] by auto
  ultimately have "unat a = unat b"
    by (simp add: digit_value_char) (metis div_mult_mod_eq)
  then show "a = b" by (simp add: word_unat_eq_iff)
qed simp

lemma length_hex2 [simp]: "length (hex2 b) = 2"
  by (simp add: hex2_digits)

lemma macToString_expand:
  "macToString mac = hex2 (mac ! 0) @ '':'' @ hex2 (mac ! 1) @ '':'' @ hex2 (mac ! 2) @ '':''
     @ hex2 (mac ! 3) @ '':'' @ hex2 (mac ! 4) @ '':'' @ hex2 (mac ! 5)"
  by (simp add: macToString_def upt_rec eval_nat_numeral)

lemma list_eq_6:
  "length xs = 6 \<Longrightarrow> length ys = 6 \<Longrightarrow> (\<forall>i < 6. xs ! i = ys ! i) \<Longrightarrow> xs = ys"
  by (simp add: list_eq_iff_nth_eq)

lemma macToString_inject_lemma:
  assumes "length a = 6" and "length b = 6"
  shows "macToString a = macToString b \<longleftrightarrow> a = b"
proof
  assume "macToString a = macToString b"
  then have "\<forall>i < 6. a ! i = b ! i"
    by (simp add: macToString_expand All_less_Suc numeral_eq_Suc)
  with assms show "a = b" by (intro list_eq_6)
qed simp


subsection \<open>Properties\<close>

text \<open>A frame laid out as destination MAC, source MAC, EtherType and a non-empty payload
  is parsed back into exactly these fields, with the payload pointer right behind the
  14-byte header and \<open>payload_size\<close> the number of remaining bytes, wherever in the buffer it
  lies and whatever follows it.\<close>

theorem ethernet_roundtrip:
  assumes "length dst = 6" and "length src = 6" and "0 < length payload"
    and "unat len = 14 + length payload"
  shows "ethernet_parse (before @ ethernet_wire dst src ty @ payload @ rest) (Ptr (length before)) len
    = Some \<lparr>eth_dst_mac = dst, eth_src_mac = src, eth_ethertype = ty,
        eth_payload = Ptr (length before + 14), eth_payload_size = of_nat (length payload),
        eth_valid = True\<rparr>"
proof -
  let ?m = "before @ ethernet_wire dst src ty @ payload @ rest"
  have rd: "readable ?m (Ptr (length before)) (unat len)"
    using assms by (simp add: ethernet_wire_def bytes_be16_def)
  have bs: "bytes_at ?m (Ptr (length before)) (unat len) = dst @ src @ bytes_be16 ty @ payload"
    using assms by (simp add: ethernet_wire_def bytes_be16_def)
  have "len - 14 = of_nat (length payload)"
    using assms(4) word_unat_eq_iff [of "len - 14" "of_nat (length payload)"] unat_payload_size [of len]
      assms(3) unsigned_less [of len, where ?'a = nat]
    by (simp add: unat_of_nat take_bit_nat_eq_self_iff)
  moreover have "15 \<le> unat len" using assms(3,4) by linarith
  note ethernet_parse_valid [OF rd this, unfolded bs]
  ultimately show ?thesis using assms by (simp add: nth_append bytes_be16_def)
qed

theorem ethernet_roundtrip_witness:
  "ethernet_parse ([7] @ ethernet_wire [1,2,3,4,5,6] [9,8,7,6,5,4] 0x0806 @ [0xAB] @ [0xFF]) (Ptr 1) 15
    = Some \<lparr>eth_dst_mac = [1,2,3,4,5,6], eth_src_mac = [9,8,7,6,5,4], eth_ethertype = 0x0806,
        eth_payload = Ptr 15, eth_payload_size = 1, eth_valid = True\<rparr>"
  using ethernet_roundtrip [of "[1,2,3,4,5,6]" "[9,8,7,6,5,4]" "[0xAB]" 15 "[7]" "0x0806" "[0xFF]"]
  by simp

text \<open>\<open>macToString\<close> tells MAC addresses apart: two addresses print alike only when they are
  equal, and the text always has the 17 characters of \<open>xx:xx:xx:xx:xx:xx\<close>.\<close>

theorem macToString_injective:
  assumes "length a = 6" and "length b = 6"
  shows "(macToString a = macToString b \<longleftrightarrow> a = b) \<and> length (macToString a) = 17"
  using assms by (simp add: macToString_inject_lemma) (simp add: macToString_expand)

theorem macToString_injective_witness:
  "macToString [0x00, 0x1A, 0x2B, 0x3C, 0x4D, 0x5E] \<noteq> macToString [0x00, 0x1A, 0x2B, 0x3C, 0x4D, 0x5F]"
  using macToString_injective [of "[0x00, 0x1A, 0x2B, 0x3C, 0x4D, 0x5E]" "[0x00, 0x1A, 0x2B, 0x3C, 0x4D, 0x5F]"]
  by simp

end
