(* ===== verification/Filter_Stage.thy ===== *)
theory Filter_Stage
  imports Packet_Buffer Ethernet_Parser
begin

unbundle bit_operations_syntax

text \<open>
  \<open>include/pipeline/filter_stage.h\<close> and \<open>src/pipeline/filter_stage.cpp\<close>: take one frame out of
  the packet buffer into the pipeline's own frame buffer and let through what the dissector
  handles, that is IPv4 and ARP frames with a payload.
\<close>

record FilteredFrame =
  ff_eth :: EthernetFrame
  ff_capture_ts_ms :: u64

definition filter_stage :: "byte_order \<Rightarrow> u8 list \<Rightarrow> bool \<Rightarrow> bool \<Rightarrow> PacketBuffer \<Rightarrow> u8 list \<Rightarrow> size_t
    \<Rightarrow> (FilteredFrame option \<times> u8 list \<times> PacketBuffer) outcome" where
  "filter_stage e slot_buf stop_wait stop_after packet_buf frame_buf buf_capacity =
     (case packet_read e slot_buf stop_wait stop_after frame_buf buf_capacity 0 0 packet_buf of
        Blocks \<Rightarrow> Blocks
      | Undefined \<Rightarrow> Undefined
      | Returns r \<Rightarrow> let frame_buf = rd_data r; frame_size = rd_size r; packet_buf = rd_buffer r in
          if \<not> rd_ok r then Returns (None, frame_buf, packet_buf)
          else if frame_size < ETHERNET_MIN_SIZE then Returns (None, frame_buf, packet_buf)
          else if frame_size > buf_capacity then Returns (None, frame_buf, packet_buf)
          else (case ethernet_parse frame_buf (Ptr 0) frame_size of
              None \<Rightarrow> Undefined
            | Some eth \<Rightarrow>
                if \<not> eth_valid eth then Returns (None, frame_buf, packet_buf)
                else if eth_payload_size eth = 0 then Returns (None, frame_buf, packet_buf)
                else if eth_ethertype eth \<noteq> ETHERTYPE_IPV4 \<and> eth_ethertype eth \<noteq> ETHERTYPE_ARP
                  then Returns (None, frame_buf, packet_buf)
                else Returns (Some \<lparr>ff_eth = eth, ff_capture_ts_ms = rd_timestamp r\<rparr>, frame_buf, packet_buf)))"

text \<open>What the stage makes of the bytes of one frame.\<close>

definition eth_of_frame :: "u8 list \<Rightarrow> EthernetFrame" where
  "eth_of_frame f = \<lparr>eth_dst_mac = take 6 f, eth_src_mac = take 6 (drop 6 f),
     eth_ethertype = be16 (f ! 12) (f ! 13), eth_payload = Ptr 14,
     eth_payload_size = of_nat (length f - 14), eth_valid = True\<rparr>"

definition filter_frame :: "u64 \<Rightarrow> u8 list \<Rightarrow> FilteredFrame option" where
  "filter_frame ts f =
     (if 15 \<le> length f \<and> be16 (f ! 12) (f ! 13) \<in> {ETHERTYPE_IPV4, ETHERTYPE_ARP}
      then Some \<lparr>ff_eth = eth_of_frame f, ff_capture_ts_ms = ts\<rparr> else None)"

text \<open>What later stages may rely on in an admitted frame of a buffer.\<close>

definition filtered_ok :: "mem \<Rightarrow> FilteredFrame \<Rightarrow> bool" where
  "filtered_ok m ff \<longleftrightarrow> eth_payload (ff_eth ff) = Ptr 14
     \<and> 14 + unat (eth_payload_size (ff_eth ff)) \<le> length m
     \<and> 1 \<le> unat (eth_payload_size (ff_eth ff))
     \<and> eth_ethertype (ff_eth ff) \<in> {ETHERTYPE_IPV4, ETHERTYPE_ARP}
     \<and> length (eth_src_mac (ff_eth ff)) = 6 \<and> length (eth_dst_mac (ff_eth ff)) = 6"


subsection \<open>One frame through the stage\<close>

lemma ethernet_parse_frame:
  assumes "15 \<le> length f" and "unat len = length f"
  shows "ethernet_parse (f @ rest) (Ptr 0) len = Some (eth_of_frame f)"
proof -
  have rd: "readable (f @ rest) (Ptr 0) (unat len)" using assms by simp
  have bs: "bytes_at (f @ rest) (Ptr 0) (unat len) = f" using assms by simp
  have "len - 14 = of_nat (length f - 14)"
    using unat_payload_size [of len] assms by (metis size_eq_of_nat)
  then show ?thesis
    using ethernet_parse_valid [OF rd, unfolded bs] assms by (simp add: eth_of_frame_def)
qed

lemma filter_stage_frame:
  assumes inv: "packet_inv pb" and fr: "packet_frames e pb = (ts, f) # fs" and buf: "length slot_buf = 2048"
    and out: "length frame_buf = 2040"
  shows "\<exists>pb'. filter_stage e slot_buf sw sa pb frame_buf 2040
      = Returns (filter_frame ts f, f @ drop (length f) frame_buf, pb')
    \<and> packet_inv pb' \<and> packet_frames e pb' = fs \<and> rb_capacity pb' = rb_capacity pb \<and> length f \<le> 2040"
proof -
  have "unat (2040 :: size_t) \<le> length frame_buf" using out by simp
  from packet_read_first [OF inv fr buf this, of sw sa 0 0] obtain pb' len where
    len: "unat len = length f" "1 \<le> length f" "length f \<le> 2040" and pb': "packet_inv pb'" "packet_frames e pb' = fs"
      "rb_capacity pb' = rb_capacity pb"
    and r: "packet_read e slot_buf sw sa frame_buf 2040 0 0 pb = Returns \<lparr>rd_ok = True,
      rd_data = f @ drop (length f) frame_buf, rd_size = len, rd_timestamp = ts, rd_buffer = pb'\<rparr>" by auto
  have small: "len < ETHERNET_MIN_SIZE \<longleftrightarrow> length f < 15" "\<not> len > 2040"
    using len by (simp_all add: ETHERNET_MIN_SIZE_def word_less_nat_alt)
  have "filter_stage e slot_buf sw sa pb frame_buf 2040
      = Returns (filter_frame ts f, f @ drop (length f) frame_buf, pb')"
  proof (cases "length f < 15")
    case True
    then show ?thesis by (simp add: filter_stage_def r small filter_frame_def)
  next
    case False
    then have "ethernet_parse (f @ drop (length f) frame_buf) (Ptr 0) len = Some (eth_of_frame f)"
      using len by (intro ethernet_parse_frame) simp_all
    moreover have "unat (of_nat (length f - 14) :: size_t) = length f - 14"
      using len by (simp add: unat_of_nat take_bit_nat_eq_self)
    then have "(of_nat (length f - 14) :: size_t) \<noteq> 0" using False by (auto dest: arg_cong [of _ 0 unat])
    ultimately show ?thesis using False
      by (simp add: filter_stage_def r small filter_frame_def) (auto simp: eth_of_frame_def)
  qed
  with pb' len show ?thesis by blast
qed

lemma filter_stage_empty:
  assumes "packet_frames e pb = []" and "stop_wait \<longrightarrow> stop_after"
  shows "filter_stage e slot_buf stop_wait stop_after pb frame_buf cap
    = (if stop_wait then Returns (None, frame_buf, pb) else Blocks)"
  using assms by (auto simp: filter_stage_def packet_read_def ring_read_def isEmpty_iff packet_frames_def)

lemma filter_frame_ok:
  assumes "filter_frame ts f = Some ff" and "length f \<le> 2040"
  shows "filtered_ok (f @ rest) ff"
proof -
  have "unat (of_nat (length f - 14) :: size_t) = length f - 14"
    using assms(2) by (simp add: unat_of_nat take_bit_nat_eq_self)
  with assms show ?thesis
    by (auto simp: filter_frame_def filtered_ok_def eth_of_frame_def split: if_splits)
qed


subsection \<open>Properties\<close>

text \<open>The filter stage on a non-empty buffer takes exactly the oldest frame out of it and
  copies it to the start of \<open>frame_buf\<close>. It lets the frame through exactly when it has at least
  15 bytes and an IPv4 or ARP EtherType, with the MAC addresses, EtherType, payload bounds and
  capture time of that frame, and an admitted payload always lies inside \<open>frame_buf\<close>.\<close>

theorem filter_stage_behaviour:
  assumes "packet_inv pb" and "packet_frames e pb = (ts, f) # fs" and "length slot_buf = 2048"
    and "length frame_buf = 2040"
  shows "\<exists>pb'. filter_stage e slot_buf sw sa pb frame_buf 2040
      = Returns (filter_frame ts f, f @ drop (length f) frame_buf, pb')
    \<and> packet_inv pb' \<and> packet_frames e pb' = fs
    \<and> (\<forall>ff. filter_frame ts f = Some ff \<longrightarrow> filtered_ok (f @ drop (length f) frame_buf) ff)"
  using filter_stage_frame [OF assms, of sw sa] filter_frame_ok [of ts f] by blast

theorem filter_stage_behaviour_witness:
  "\<exists>pb pb'. packet_frames Little_Endian pb = [(5, [1,2,3,4,5,6,7,8,9,10,11,12,0x08,0x06,0xAA])]
    \<and> filter_stage Little_Endian (replicate 2048 0) False False pb (replicate 2040 0) 2040
     = Returns (Some \<lparr>ff_eth = \<lparr>eth_dst_mac = [1,2,3,4,5,6], eth_src_mac = [7,8,9,10,11,12],
          eth_ethertype = 0x0806, eth_payload = Ptr 14, eth_payload_size = 1, eth_valid = True\<rparr>,
          ff_capture_ts_ms = 5\<rparr>, [1,2,3,4,5,6,7,8,9,10,11,12,0x08,0x06,0xAA] @ replicate 2025 0, pb')"
proof -
  let ?f = "[1,2,3,4,5,6,7,8,9,10,11,12,0x08,0x06,0xAA] :: u8 list"
  obtain pb where pb: "packet_inv pb" "packet_frames Little_Endian pb = []" "rb_capacity pb = 2"
    using ring_of_two new_PacketBuffer_ok [of "\<lambda>_ _. True" 2 _ Little_Endian] by (metis new_PacketBuffer_def)
  obtain q where q: "packet_inv q" "packet_frames Little_Endian q = [(5, ?f)]"
    using pbq.put_room [OF pb(1), of "(5, ?f)" Little_Endian] pb by (auto simp: capture_sized_def)
  have ff: "filter_frame 5 ?f = Some \<lparr>ff_eth = \<lparr>eth_dst_mac = [1,2,3,4,5,6], eth_src_mac = [7,8,9,10,11,12],
          eth_ethertype = 0x0806, eth_payload = Ptr 14, eth_payload_size = 1, eth_valid = True\<rparr>,
          ff_capture_ts_ms = 5\<rparr>"
    by (simp add: filter_frame_def eth_of_frame_def be16_def ETHERTYPE_ARP_def)
  from filter_stage_behaviour [OF q, of "replicate 2048 0" "replicate 2040 0" False False] q(2)
  show ?thesis unfolding ff by (auto simp: drop_replicate)
qed

end
