(* ===== verification/Arp_Parser.thy ===== *)
theory Arp_Parser
  imports Ethernet_Parser
begin

unbundle bit_operations_syntax

text \<open>
  \<open>include/parsers/arp_parser.h\<close> and \<open>src/parsers/arp_parser.cpp\<close>: the fields of an
  Ethernet/IPv4 ARP packet and its parser.
\<close>

definition ArpOper_REQUEST :: u16 where "ArpOper_REQUEST = 1"
definition ArpOper_REPLY :: u16 where "ArpOper_REPLY = 2"
definition ARP_HTYPE_ETHERNET :: u16 where "ARP_HTYPE_ETHERNET = 1"
definition ARP_PTYPE_IPV4 :: u16 where "ARP_PTYPE_IPV4 = 0x0800"

record ArpPacket =
  arp_oper :: u16
  arp_sender_mac :: MACAddress
  arp_sender_ip :: u32
  arp_target_mac :: MACAddress
  arp_target_ip :: u32
  arp_is_reply :: bool

definition parseArpPacket :: "mem \<Rightarrow> ptr \<Rightarrow> size_t \<Rightarrow> ArpPacket option option" where
  "parseArpPacket m data len =
     (if data = nullptr \<or> len < 28 then Some None else do {
        htype \<leftarrow> readU16Be m (ptr_add data 0);
        if htype \<noteq> ARP_HTYPE_ETHERNET then Some None else do {
        ptype \<leftarrow> readU16Be m (ptr_add data 2);
        if ptype \<noteq> ARP_PTYPE_IPV4 then Some None else do {
        b4 \<leftarrow> load m data 4;
        b5 \<leftarrow> load m data 5;
        if b4 \<noteq> 6 \<or> b5 \<noteq> 4 then Some None else do {
        oper \<leftarrow> readU16Be m (ptr_add data 6);
        sender_mac \<leftarrow> load_bytes m data 8 6;
        sender_ip \<leftarrow> readU32Be m (ptr_add data 14);
        target_mac \<leftarrow> load_bytes m data 18 6;
        target_ip \<leftarrow> readU32Be m (ptr_add data 24);
        Some (Some \<lparr>arp_oper = oper, arp_sender_mac = sender_mac, arp_sender_ip = sender_ip,
          arp_target_mac = target_mac, arp_target_ip = target_ip,
          arp_is_reply = (oper = ArpOper_REPLY)\<rparr>) }}}})"

text \<open>The 28 bytes of an ARP packet on the wire.\<close>

definition arp_wire :: "ArpPacket \<Rightarrow> u8 list" where
  "arp_wire a = bytes_be16 ARP_HTYPE_ETHERNET @ bytes_be16 ARP_PTYPE_IPV4 @ [6, 4]
     @ bytes_be16 (arp_oper a) @ arp_sender_mac a @ bytes_be32 (arp_sender_ip a)
     @ arp_target_mac a @ bytes_be32 (arp_target_ip a)"

definition arp_wf :: "ArpPacket \<Rightarrow> bool" where
  "arp_wf a \<longleftrightarrow> length (arp_sender_mac a) = 6 \<and> length (arp_target_mac a) = 6
     \<and> (arp_is_reply a \<longleftrightarrow> arp_oper a = ArpOper_REPLY)"


subsection \<open>The parser as a function of the bytes\<close>

definition arp_of_bytes :: "u8 list \<Rightarrow> ArpPacket option" where
  "arp_of_bytes bs =
     (if be16 (bs ! 0) (bs ! 1) = ARP_HTYPE_ETHERNET \<and> be16 (bs ! 2) (bs ! 3) = ARP_PTYPE_IPV4
         \<and> bs ! 4 = 6 \<and> bs ! 5 = 4
      then Some \<lparr>arp_oper = be16 (bs ! 6) (bs ! 7), arp_sender_mac = take 6 (drop 8 bs),
        arp_sender_ip = be32 (bs ! 14) (bs ! 15) (bs ! 16) (bs ! 17),
        arp_target_mac = take 6 (drop 18 bs),
        arp_target_ip = be32 (bs ! 24) (bs ! 25) (bs ! 26) (bs ! 27),
        arp_is_reply = (be16 (bs ! 6) (bs ! 7) = ArpOper_REPLY)\<rparr>
      else None)"

lemma parseArpPacket_bytes:
  assumes "readable m p (unat len)" and "28 \<le> unat len"
  shows "parseArpPacket m p len = Some (arp_of_bytes (bytes_at m p (unat len)))"
proof -
  have "p \<noteq> nullptr" using assms(1) by (cases p) auto
  moreover have "\<not> len < 28" using assms(2) by (simp add: word_less_nat_alt)
  ultimately show ?thesis using assms(2)
    by (simp add: parseArpPacket_def arp_of_bytes_def readBe_loads readBe_loads [where k = 0, simplified]
        load_readable [OF assms(1)] load_bytes_readable [OF assms(1)])
qed

lemma parseArpPacket_short: "p = nullptr \<or> unat len < 28 \<Longrightarrow> parseArpPacket m p len = Some None"
  by (auto simp: parseArpPacket_def word_less_nat_alt)

interpretation arp: safe_parser parseArpPacket 28
proof unfold_locales
  fix m m' p and len :: size_t
  assume rd: "readable m p (unat len)"
  then show "\<exists>r. parseArpPacket m p len = Some r"
    by (cases "unat len < 28") (simp_all add: parseArpPacket_short parseArpPacket_bytes)
  assume "readable m' p (unat len)" and "bytes_at m p (unat len) = bytes_at m' p (unat len)"
  with rd show "parseArpPacket m p len = parseArpPacket m' p len"
    by (cases "unat len < 28") (simp_all add: parseArpPacket_short parseArpPacket_bytes)
qed (simp add: parseArpPacket_short)


subsection \<open>Properties\<close>

lemma arp_of_wire:
  assumes "arp_wf a"
  shows "arp_of_bytes (arp_wire a @ rest) = Some a"
  using assms
  by (auto simp: arp_of_bytes_def arp_wire_def arp_wf_def bytes_be16_def bytes_be32_def nth_append
      intro!: ArpPacket.equality)

lemma arp_of_packet:
  assumes "arp_wf a" and "28 \<le> unat len" and "unat len \<le> 28 + length padding"
  shows "parseArpPacket (before @ arp_wire a @ padding) (Ptr (length before)) len = Some (Some a)"
proof -
  let ?m = "before @ arp_wire a @ padding"
  have len28: "length (arp_wire a) = 28"
    using assms(1) by (simp add: arp_wire_def arp_wf_def bytes_be16_def bytes_be32_def)
  then have rd: "readable ?m (Ptr (length before)) (unat len)" using assms(3) by simp
  have "bytes_at ?m (Ptr (length before)) (unat len) = arp_wire a @ take (unat len - 28) padding"
    using len28 assms(2) by simp
  then show ?thesis using parseArpPacket_bytes [OF rd assms(2)] arp_of_wire [OF assms(1)] by simp
qed

text \<open>Round trip: every well-formed ARP packet (six-byte MACs, \<open>is_reply\<close> exactly when the
  operation is \<open>REPLY\<close>), laid out on the wire anywhere in a buffer, is parsed back into the
  same packet; padding behind its 28 bytes is ignored.\<close>

theorem arp_roundtrip:
  assumes "arp_wf a" and "28 \<le> unat len" and "unat len \<le> 28 + length padding"
  shows "parseArpPacket (before @ arp_wire a @ padding) (Ptr (length before)) len = Some (Some a)"
  using assms by (rule arp_of_packet)

theorem arp_roundtrip_witness:
  "parseArpPacket ([1] @ arp_wire \<lparr>arp_oper = 2, arp_sender_mac = [1,2,3,4,5,6], arp_sender_ip = 0xC0A80101,
      arp_target_mac = [6,5,4,3,2,1], arp_target_ip = 0xC0A80102, arp_is_reply = True\<rparr> @ [0, 0]) (Ptr 1) 30
   = Some (Some \<lparr>arp_oper = 2, arp_sender_mac = [1,2,3,4,5,6], arp_sender_ip = 0xC0A80101,
      arp_target_mac = [6,5,4,3,2,1], arp_target_ip = 0xC0A80102, arp_is_reply = True\<rparr>)"
  using arp_roundtrip [of "\<lparr>arp_oper = 2, arp_sender_mac = [1,2,3,4,5,6], arp_sender_ip = 0xC0A80101,
      arp_target_mac = [6,5,4,3,2,1], arp_target_ip = 0xC0A80102, arp_is_reply = True\<rparr>" 30 "[0, 0]" "[1]"]
  by (simp add: arp_wf_def ArpOper_REPLY_def)

end
