(* ===== verification/Checksum.thy ===== *)
theory Checksum
  imports Engine_Prelude
begin

unbundle bit_operations_syntax

text \<open>
  The Internet checksum of \<open>src/utils/checksum.cpp\<close>: the summing loop and the carry-folding
  loop as functions with their termination proofs, and the reference definition on lists of
  bytes (\<open>word_sum\<close>, \<open>ones_complement\<close>) they are compared with.
\<close>

text \<open>The loop \<open>while (len > 1)\<close>: two bytes per round, added to a 32-bit accumulator.\<close>

function checksum_words :: "mem \<Rightarrow> ptr \<Rightarrow> size_t \<Rightarrow> u32 \<Rightarrow> (ptr \<times> size_t \<times> u32) option" where
  "checksum_words m data len acc =
     (if len > 1 then do {
        b0 \<leftarrow> load m data 0;
        b1 \<leftarrow> load m data 1;
        checksum_words m (ptr_add data 2) (len - 2) (acc + ucast (be16 b0 b1)) }
      else Some (data, len, acc))"
  by pat_completeness auto
termination
proof (relation "measure (\<lambda>(m, data, len, acc). unat len)")
  fix m data b0 b1 and len :: size_t and acc :: u32
  assume "len > 1"
  then have "2 \<le> unat len" by (simp add: word_less_nat_alt)
  then have "unat (len - 2) < unat len" by (simp add: unat_sub word_le_nat_alt)
  then show "((m, ptr_add data 2, len - 2, acc + ucast (be16 b0 b1)), m, data, len, acc)
    \<in> measure (\<lambda>(m, data, len, acc). unat len)" by simp
qed simp

declare checksum_words.simps [simp del]

lemma unat_fold_step:
  "unat ((acc AND 0xFFFF) + drop_bit 16 (acc :: u32)) = unat acc mod 65536 + unat acc div 65536"
proof -
  have "unat acc < 2 ^ 32" using unsigned_less [of acc, where ?'a = nat] by simp
  then have "unat acc div 65536 < 65536" by (simp add: less_mult_imp_div_less)
  moreover have "unat acc mod 65536 < 65536" by simp
  ultimately have "unat acc mod 65536 + unat acc div 65536 < 2 ^ 32" by simp
  then show ?thesis by (simp only: unat_word_ariths unat_and_FFFF unat_drop_bit) simp
qed

text \<open>The loop \<open>while (sum >> 16)\<close>: add the carries back in until none is left.\<close>

function fold_carries :: "u32 \<Rightarrow> u32" where
  "fold_carries acc =
     (if drop_bit 16 acc \<noteq> 0 then fold_carries ((acc AND 0xFFFF) + drop_bit 16 acc) else acc)"
  by pat_completeness auto
termination
proof (relation "measure unat")
  fix acc :: u32
  assume "drop_bit 16 acc \<noteq> 0"
  then have "unat (drop_bit 16 acc) \<noteq> 0" using unat_eq_zero by blast
  then have "unat acc div 65536 \<noteq> 0" by (simp only: unat_drop_bit) simp
  then show "((acc AND 0xFFFF) + drop_bit 16 acc, acc) \<in> measure unat"
    using div_mult_mod_eq [of "unat acc" 65536]
    by (simp only: in_measure unat_fold_step)
qed simp

declare fold_carries.simps [simp del]

definition internetChecksum :: "mem \<Rightarrow> ptr \<Rightarrow> size_t \<Rightarrow> u16 option" where
  "internetChecksum m data len = do {
     (data, len, acc) \<leftarrow> checksum_words m data len 0;
     acc \<leftarrow> (if len = 1 then do {
                b \<leftarrow> load m data 0;
                Some (acc + ucast (push_bit 8 (ucast b :: u16))) }
            else Some acc);
     Some (ucast (NOT (fold_carries acc))) }"

definition verifyIpChecksum :: "mem \<Rightarrow> ptr \<Rightarrow> size_t \<Rightarrow> bool option" where
  "verifyIpChecksum m data len = do {
     c \<leftarrow> internetChecksum m data len;
     Some (c = 0) }"


subsection \<open>The reference: a sum of big-endian words, in one's complement\<close>

fun word_sum :: "u8 list \<Rightarrow> nat" where
  "word_sum [] = 0"
| "word_sum [a] = 256 * unat a"
| "word_sum (a # b # bs) = 256 * unat a + unat b + word_sum bs"

definition ones_complement :: "nat \<Rightarrow> nat" where
  "ones_complement n = (if n = 0 then 0 else (n - 1) mod 65535 + 1)"


subsection \<open>The summing loop\<close>

lemma ucast_be16: "ucast (be16 a b) = (of_nat (256 * unat a + unat b) :: u32)"
  by (simp only: unat_be16 [symmetric] of_nat_unat)

lemma ucast_odd_byte: "ucast (push_bit 8 (ucast a :: u16)) = (of_nat (256 * unat (a :: u8)) :: u32)"
proof -
  have "push_bit 8 (ucast a :: u16) = be16 a 0" by (simp add: be16_def)
  then show ?thesis using ucast_be16 [of a 0] by simp
qed

lemma take_two_split:
  "a + n \<le> length m \<Longrightarrow> 2 \<le> n \<Longrightarrow>
     take n (drop a m) = m ! a # m ! Suc a # take (n - 2) (drop (a + 2) m)"
  by (cases n; cases "n - 1") (simp_all add: Cons_nth_drop_Suc [symmetric] take_Suc_conv_app_nth)

lemma checksum_words_sum:
  "a + unat len \<le> length m \<Longrightarrow>
   \<exists>d l s'. checksum_words m (Ptr a) len s = Some (d, l, s') \<and>
     (if l = 1 then \<exists>b. load m d 0 = Some b \<and>
        s' + ucast (push_bit 8 (ucast b :: u16)) = s + of_nat (word_sum (take (unat len) (drop a m)))
      else s' = s + of_nat (word_sum (take (unat len) (drop a m))))"
proof (induction m "Ptr a" len s arbitrary: a rule: checksum_words.induct)
  case (1 m len s a)
  show ?case
  proof (cases "len > 1")
    case True
    then have two: "2 \<le> unat len" by (simp add: word_less_nat_alt)
    then have len2: "unat (len - 2) = unat len - 2" by (simp add: unat_sub word_le_nat_alt)
    have ld: "load m (Ptr a) 0 = Some (m ! a)" "load m (Ptr a) 1 = Some (m ! Suc a)"
      using 1(2) two by (simp_all add: load_Ptr)
    let ?x = "s + ucast (be16 (m ! a) (m ! Suc a))" and ?rest = "take (unat (len - 2)) (drop (a + 2) m)"
    have sum: "?x + of_nat (word_sum ?rest) = s + of_nat (word_sum (take (unat len) (drop a m)))"
      by (simp only: take_two_split [OF 1(2) two] len2 word_sum.simps ucast_be16 of_nat_add add.assoc)
    have bnd: "a + 2 + unat (len - 2) \<le> length m" using 1(2) two len2 by simp
    have step: "checksum_words m (Ptr a) len s = checksum_words m (Ptr (a + 2)) (len - 2) ?x"
      using True ld by (subst checksum_words.simps) (simp add: numeral_2_eq_2)
    from 1(1) [OF True ld ptr_add_simps(1) bnd] show ?thesis by (simp only: step sum)
  next
    case False
    then have "unat len \<le> 1" by (simp add: word_less_nat_alt)
    then consider "len = 0" | "len = 1"
      using word_unat_eq_iff [of len 0] word_unat_eq_iff [of len 1] by fastforce
    then show ?thesis
    proof cases
      case 1
      then show ?thesis by (subst checksum_words.simps) simp
    next
      case 2
      then have "take (unat len) (drop a m) = [m ! a]" "load m (Ptr a) 0 = Some (m ! a)"
        using 1(2) by (simp_all add: load_Ptr take_Suc_conv_app_nth)
      with 2 show ?thesis by (subst checksum_words.simps) (simp add: ucast_odd_byte)
    qed
  qed
qed


lemma internetChecksum_sum:
  assumes "readable m p (unat len)"
  shows "internetChecksum m p len =
    Some (ucast (NOT (fold_carries (of_nat (word_sum (bytes_at m p (unat len)))))))"
proof -
  from assms obtain a where p: "p = Ptr a" and bnd: "a + unat len \<le> length m"
    by (cases p) auto
  from checksum_words_sum [OF bnd, of 0] show ?thesis
    by (auto simp: internetChecksum_def p split: if_splits)
qed


subsection \<open>Folding the carries\<close>

lemma ones_complement_step:
  "ones_complement (n mod 65536 + n div 65536) = ones_complement n"
proof -
  have n: "n = 65535 * (n div 65536) + (n mod 65536 + n div 65536)"
    using div_mult_mod_eq [of n 65536] by simp
  show ?thesis
  proof (cases "n = 0")
    case False
    let ?k = "n mod 65536 + n div 65536"
    have k: "?k \<noteq> 0" using n False by (metis add_is_0 mult_0_right)
    then have "n - 1 = 65535 * (n div 65536) + (?k - 1)" using n by linarith
    then have "(n - 1) mod 65535 = (?k - 1) mod 65535" by (metis mod_mult_self4)
    with k False show ?thesis by (simp only: ones_complement_def if_False)
  qed (simp add: ones_complement_def)
qed

lemma unat_fold_carries: "unat (fold_carries acc) = ones_complement (unat acc)"
proof (induction acc rule: fold_carries.induct)
  case (1 acc)
  show ?case
  proof (cases "drop_bit 16 acc \<noteq> 0")
    case True
    then have "fold_carries acc = fold_carries ((acc AND 0xFFFF) + drop_bit 16 acc)"
      by (subst fold_carries.simps) (simp only: if_True True simp_thms)
    then show ?thesis using 1 [OF True] by (simp only: unat_fold_step ones_complement_step)
  next
    case False
    then have "unat (drop_bit 16 acc) = 0" using unat_eq_zero by blast
    then have "unat acc div 65536 = 0" by (simp only: unat_drop_bit) simp
    then have "unat acc < 65536" by (simp add: div_eq_0_iff)
    moreover from False have "fold_carries acc = acc"
      by (subst fold_carries.simps) (simp only: if_False)
    ultimately show ?thesis by (auto simp: ones_complement_def)
  qed
qed

lemma ones_complement_le: "ones_complement n \<le> 65535"
proof -
  have "(n - 1) mod 65535 < 65535" by simp
  then show ?thesis unfolding ones_complement_def by (simp only: split: if_split) linarith
qed

lemma ones_complement_full: "ones_complement n = 65535 \<longleftrightarrow> 0 < n \<and> 65535 dvd n"
proof (cases n)
  case (Suc k)
  have "k mod 65535 = 65534 \<longleftrightarrow> Suc k mod 65535 = 0" by (simp add: mod_Suc)
  with Suc show ?thesis by (simp add: ones_complement_def dvd_eq_mod_eq_0)
qed (simp add: ones_complement_def)

lemma unat_ucast_NOT:
  assumes "unat (x :: u32) \<le> 65535"
  shows "unat (ucast (NOT x) :: u16) = 65535 - unat x"
proof -
  have "(ucast (NOT x) :: u16) = NOT (ucast x)"
    by (rule bit_word_eqI) (simp add: bit_simps)
  moreover have "unat (ucast x :: u16) = unat x"
    using assms by (simp add: unsigned_ucast_eq take_bit_nat_eq_self_iff)
  moreover have "NOT (ucast x :: u16) = 65535 - ucast x" by (simp add: not_eq_complement)
  moreover have "(ucast x :: u16) \<le> 65535" using assms calculation(2) by (simp add: word_le_nat_alt)
  ultimately show ?thesis by (simp add: unat_sub)
qed

lemma word_sum_le: "word_sum bs \<le> 65535 * ((length bs + 1) div 2)"
proof (induction bs rule: word_sum.induct)
  case (2 a)
  then show ?case using unat_u8_less [of a] by simp
next
  case (3 a b bs)
  then show ?case using unat_u8_less [of a] unat_u8_less [of b] by simp
qed simp


subsection \<open>The checksum and its verification\<close>

lemma word_sum_append: "even (length xs) \<Longrightarrow> word_sum (xs @ ys) = word_sum xs + word_sum ys"
  by (induction xs rule: word_sum.induct) auto

lemma word_sum_fits:
  assumes "length bs \<le> 131072"
  shows "unat (of_nat (word_sum bs) :: u32) = word_sum bs"
proof -
  have "(length bs + 1) div 2 \<le> 65536" using assms by linarith
  then have "word_sum bs \<le> 65535 * 65536" using word_sum_le [of bs] by linarith
  then show ?thesis by (simp add: unat_of_nat take_bit_nat_eq_self_iff)
qed

lemma internetChecksum_value:
  assumes "readable m p (unat len)" and "unat len \<le> 131072"
  shows "\<exists>c. internetChecksum m p len = Some c \<and>
           unat c = 65535 - ones_complement (word_sum (bytes_at m p (unat len)))"
proof -
  let ?s = "of_nat (word_sum (bytes_at m p (unat len))) :: u32"
  have "unat ?s = word_sum (bytes_at m p (unat len))"
    using assms by (intro word_sum_fits) (simp add: length_bytes_at)
  then have "unat (fold_carries ?s) = ones_complement (word_sum (bytes_at m p (unat len)))"
    by (simp add: unat_fold_carries)
  with unat_ucast_NOT [of "fold_carries ?s"] show ?thesis
    by (simp add: internetChecksum_sum [OF assms(1)] ones_complement_le)
qed

lemma verifyIpChecksum_value:
  assumes "readable m p (unat len)" and "unat len \<le> 131072"
  shows "verifyIpChecksum m p len =
    Some (0 < word_sum (bytes_at m p (unat len)) \<and> 65535 dvd word_sum (bytes_at m p (unat len)))"
proof -
  from internetChecksum_value [OF assms] obtain c where
    c: "internetChecksum m p len = Some c"
      "unat c = 65535 - ones_complement (word_sum (bytes_at m p (unat len)))" by blast
  have "c = 0 \<longleftrightarrow> ones_complement (word_sum (bytes_at m p (unat len))) = 65535"
    using c(2) ones_complement_le [of "word_sum (bytes_at m p (unat len))"] unat_eq_zero [of c] by simp
  then show ?thesis by (simp add: verifyIpChecksum_def c(1) ones_complement_full)
qed

text \<open>A buffer of \<open>len\<close> readable bytes never makes the checksum fault.\<close>

lemma verifyIpChecksum_total: "readable m p (unat len) \<Longrightarrow> \<exists>b. verifyIpChecksum m p len = Some b"
  by (simp add: verifyIpChecksum_def internetChecksum_sum)

text \<open>The result depends on the bytes in range only.\<close>

lemma verifyIpChecksum_local:
  "readable m p (unat len) \<Longrightarrow> readable m' p (unat len) \<Longrightarrow> bytes_at m p (unat len) = bytes_at m' p (unat len)
    \<Longrightarrow> verifyIpChecksum m p len = verifyIpChecksum m' p len"
  by (simp add: verifyIpChecksum_def internetChecksum_sum)

text \<open>Adding the complement of a folded sum makes the sum a multiple of \<open>65535\<close>.\<close>

lemma ones_complement_completes:
  "0 < n + (65535 - ones_complement n) \<and> 65535 dvd n + (65535 - ones_complement n)"
proof (cases n)
  case (Suc k)
  have "k mod 65535 < 65535" by simp
  moreover have "ones_complement n = k mod 65535 + 1" using Suc by (simp add: ones_complement_def)
  ultimately have "n + (65535 - ones_complement n) = k div 65535 * 65535 + 65535"
    using Suc div_mult_mod_eq [of k 65535] by linarith
  then show ?thesis using Suc by simp
qed (simp add: ones_complement_def)


subsection \<open>Properties\<close>

text \<open>C24: \<open>verifyIpChecksum\<close> is the test of RFC 1071: on any readable buffer of at most 131072
  bytes, where the 32-bit accumulator cannot overflow, it accepts exactly the buffers whose
  big-endian 16-bit words (an odd last byte padded with zero) sum to a non-zero multiple of 65535.\<close>

theorem verifyIpChecksum_accepts_iff:
  assumes "readable m p (unat len)" and "unat len \<le> 131072"
  shows "verifyIpChecksum m p len =
    Some (0 < word_sum (bytes_at m p (unat len)) \<and> 65535 dvd word_sum (bytes_at m p (unat len)))"
  using assms by (rule verifyIpChecksum_value)

theorem verifyIpChecksum_accepts_iff_witness:
  "verifyIpChecksum [0x45, 0x00, 0xBA, 0xFF] (Ptr 0) 4 = Some True"
  using verifyIpChecksum_accepts_iff [of "[0x45, 0x00, 0xBA, 0xFF]" "Ptr 0" 4] by simp

text \<open>C25: Round trip of a checksum field: compute \<open>internetChecksum\<close> over a header whose
  16-bit checksum field, at an even offset, is zero, store the result in the field, and
  \<open>verifyIpChecksum\<close> accepts the stamped header.\<close>

theorem checksum_stamp_verifies:
  assumes "even (length pre)" and "length pre + 2 + length post \<le> 131072"
    and len: "unat len = length pre + 2 + length post"
    and c: "internetChecksum (pre @ [0, 0] @ post) (Ptr 0) len = Some c"
  shows "verifyIpChecksum (pre @ bytes_be16 c @ post) (Ptr 0) len = Some True"
proof -
  let ?n = "word_sum (pre @ [0, 0] @ post)"
  from internetChecksum_value [of "pre @ [0, 0] @ post" "Ptr 0" len] c assms
  have "unat c = 65535 - ones_complement ?n" by simp
  moreover have "word_sum (pre @ bytes_be16 c @ post) = ?n + unat c"
    using assms(1) unat_be16 [of "ucast (drop_bit 8 c)" "ucast c"]
    by (simp add: word_sum_append bytes_be16_def)
  ultimately have "0 < word_sum (pre @ bytes_be16 c @ post) \<and> 65535 dvd word_sum (pre @ bytes_be16 c @ post)"
    using ones_complement_completes [of ?n] by (simp only:)
  then show ?thesis
    using assms by (subst verifyIpChecksum_value) (simp_all add: bytes_be16_def)
qed


theorem checksum_stamp_verifies_witness:
  "internetChecksum [0x45, 0x00, 0, 0, 0xC0] (Ptr 0) 5 = Some 0xFAFE
   \<and> verifyIpChecksum [0x45, 0x00, 0xFA, 0xFE, 0xC0] (Ptr 0) 5 = Some True"
proof -
  have c: "internetChecksum [0x45, 0x00, 0, 0, 0xC0] (Ptr 0) 5 = Some 0xFAFE"
    by (simp add: internetChecksum_def checksum_words.simps fold_carries.simps load_def be16_def)
  moreover have "bytes_be16 0xFAFE = [0xFA, 0xFE]" by (simp add: bytes_be16_def)
  ultimately show ?thesis
    using checksum_stamp_verifies [of "[0x45, 0x00]" "[0xC0]" 5 "0xFAFE"] by simp
qed

end
