(* ===== verification/Ip_Parser.thy ===== *)
theory Ip_Parser
  imports Header_Reader Checksum
begin

unbundle bit_operations_syntax

text \<open>
  \<open>include/parsers/ip_parser.h\<close> and \<open>src/parsers/ip_parser.cpp\<close>: the IPv4 header and its
  parser. The parser bounds \<open>total_length\<close> from above by the bytes it was given but not from
  below by the header length: for a smaller \<open>total_length\<close> the subtraction that computes
  \<open>payload_len\<close> wraps around, so this parser is a \<open>safe_parser\<close> but no \<open>payload_parser\<close>.
\<close>

datatype Direction = Inbound | Outbound | Unknown

record IpHeader =
  ip_ihl :: u8
  ip_ttl :: u8
  ip_protocol :: u8
  ip_src_ip :: u32
  ip_dst_ip :: u32
  ip_total_length :: u16
  ip_checksum_ok :: bool
  ip_direction :: Direction
  ip_payload :: ptr
  ip_payload_len :: size_t

definition parseIpHeader :: "mem \<Rightarrow> ptr \<Rightarrow> size_t \<Rightarrow> Direction \<Rightarrow> IpHeader option option" where
  "parseIpHeader m data len direction =
     (if len < 20 then Some None else do {
        b0 \<leftarrow> load m data 0;
        let version = drop_bit 4 b0 AND 0x0F;
        if version \<noteq> 4 then Some None else do {
        let ihl = b0 AND 0x0F;
        let header_bytes = (ucast (ucast ihl * 4 :: u32) :: size_t);
        if ihl < 5 \<or> header_bytes > len then Some None else do {
        total_length \<leftarrow> readU16Be m (ptr_add data 2);
        if (ucast total_length :: size_t) > len then Some None else do {
        ttl \<leftarrow> load m data 8;
        protocol \<leftarrow> load m data 9;
        src_ip \<leftarrow> readU32Be m (ptr_add data 12);
        dst_ip \<leftarrow> readU32Be m (ptr_add data 16);
        checksum_ok \<leftarrow> verifyIpChecksum m data header_bytes;
        let payload = ptr_add data (unat header_bytes);
        let payload_len = (ucast total_length :: size_t) - header_bytes;
        Some (Some \<lparr>ip_ihl = ihl, ip_ttl = ttl, ip_protocol = protocol, ip_src_ip = src_ip,
          ip_dst_ip = dst_ip, ip_total_length = total_length, ip_checksum_ok = checksum_ok,
          ip_direction = direction, ip_payload = payload, ip_payload_len = payload_len\<rparr>) }}}})"


subsection \<open>The parser as a function of the bytes\<close>

definition ip_header_bytes :: "u8 \<Rightarrow> nat" where
  "ip_header_bytes b0 = 4 * unat (b0 AND 0x0F)"

definition ip_checksum_valid :: "u8 list \<Rightarrow> bool" where
  "ip_checksum_valid bs \<longleftrightarrow> 0 < word_sum bs \<and> 65535 dvd word_sum bs"

definition ip_of_bytes :: "ptr \<Rightarrow> Direction \<Rightarrow> u8 list \<Rightarrow> IpHeader option" where
  "ip_of_bytes p dir bs =
     (let hb = ip_header_bytes (bs ! 0); tl = be16 (bs ! 2) (bs ! 3)
      in if drop_bit 4 (bs ! 0) AND 0x0F = 4 \<and> 20 \<le> hb \<and> hb \<le> length bs \<and> unat tl \<le> length bs
      then Some \<lparr>ip_ihl = bs ! 0 AND 0x0F, ip_ttl = bs ! 8, ip_protocol = bs ! 9,
        ip_src_ip = be32 (bs ! 12) (bs ! 13) (bs ! 14) (bs ! 15),
        ip_dst_ip = be32 (bs ! 16) (bs ! 17) (bs ! 18) (bs ! 19),
        ip_total_length = tl, ip_checksum_ok = ip_checksum_valid (take hb bs),
        ip_direction = dir, ip_payload = ptr_add p hb,
        ip_payload_len = ucast tl - of_nat hb\<rparr>
      else None)"

lemma ip_header_bytes_less: "ip_header_bytes b < 64"
  using low_nibble_less [of b] by (simp add: ip_header_bytes_def)

lemma header_bytes_size: "(ucast (ucast (b AND 0x0F) * 4 :: u32) :: size_t) = of_nat (ip_header_bytes b)"
proof -
  have "unat (ucast (b AND 0x0F) * 4 :: u32) = ip_header_bytes b"
    using low_nibble_less [of b] by (simp add: ip_header_bytes_def unat_word_ariths)
  then show ?thesis by (metis of_nat_unat)
qed

lemma unat_header_bytes [simp]: "unat (of_nat (ip_header_bytes b) :: size_t) = ip_header_bytes b"
  using ip_header_bytes_less [of b] by (simp add: unat_of_nat take_bit_nat_eq_self_iff)

lemma ihl_min: "b AND 0x0F < (5 :: u8) \<longleftrightarrow> ip_header_bytes b < 20"
  by (simp add: word_less_nat_alt ip_header_bytes_def)

lemma parseIpHeader_bytes:
  assumes "readable m p (unat len)" and "20 \<le> unat len"
  shows "parseIpHeader m p len dir = Some (ip_of_bytes p dir (bytes_at m p (unat len)))"
proof -
  let ?bs = "bytes_at m p (unat len)"
  have len20: "\<not> len < 20" using assms(2) by (simp add: word_less_nat_alt)
  have hb: "ip_header_bytes b \<le> unat len \<Longrightarrow>
    verifyIpChecksum m p (of_nat (ip_header_bytes b)) = Some (ip_checksum_valid (take (ip_header_bytes b) ?bs))" for b
    using ip_header_bytes_less [of b] readable_mono [OF assms(1)]
    by (subst verifyIpChecksum_value)
      (simp_all add: ip_checksum_valid_def bytes_at_prefix [of "ip_header_bytes b" "unat len"])
  have gt: "(of_nat (ip_header_bytes b) > len) = (unat len < ip_header_bytes b)"
    "((ucast t :: size_t) > len) = (unat len < unat t)" for b and t :: u16
    by (simp_all add: word_less_nat_alt)
  show ?thesis using assms(2) hb
    by (simp add: parseIpHeader_def ip_of_bytes_def Let_def len20 readBe_loads load_readable [OF assms(1)]
        header_bytes_size ihl_min gt length_bytes_at [OF assms(1)] not_less)
qed

lemma parseIpHeader_short: "unat len < 20 \<Longrightarrow> parseIpHeader m p len dir = Some None"
  by (simp add: parseIpHeader_def word_less_nat_alt)

interpretation ip: safe_parser "\<lambda>m p len. parseIpHeader m p len dir" 20 for dir
proof unfold_locales
  fix m m' p and len :: size_t
  assume rd: "readable m p (unat len)"
  then show "\<exists>r. parseIpHeader m p len dir = Some r"
    by (cases "unat len < 20") (simp_all add: parseIpHeader_short parseIpHeader_bytes)
  assume "readable m' p (unat len)" and "bytes_at m p (unat len) = bytes_at m' p (unat len)"
  with rd show "parseIpHeader m p len dir = parseIpHeader m' p len dir"
    by (cases "unat len < 20") (simp_all add: parseIpHeader_short parseIpHeader_bytes)
qed (simp add: parseIpHeader_short)


subsection \<open>Payload bounds\<close>

lemma parseIpHeader_fields:
  assumes "readable m p (unat len)" and "parseIpHeader m p len dir = Some (Some h)"
  shows "20 \<le> 4 * unat (ip_ihl h)" and "4 * unat (ip_ihl h) < 64" and "4 * unat (ip_ihl h) \<le> unat len"
    and "unat (ip_total_length h) \<le> unat len" and "ip_payload h = ptr_add p (4 * unat (ip_ihl h))"
    and "ip_payload_len h = ucast (ip_total_length h) - of_nat (4 * unat (ip_ihl h))"
    and "ip_direction h = dir"
proof -
  have "20 \<le> unat len" using assms(2) by (rule ip.accepted_long)
  from parseIpHeader_bytes [OF assms(1) this, of dir] assms(2)
  have "ip_of_bytes p dir (bytes_at m p (unat len)) = Some h" by simp
  then show "20 \<le> 4 * unat (ip_ihl h)" and "4 * unat (ip_ihl h) < 64" and "4 * unat (ip_ihl h) \<le> unat len"
    and "unat (ip_total_length h) \<le> unat len" and "ip_payload h = ptr_add p (4 * unat (ip_ihl h))"
    and "ip_payload_len h = ucast (ip_total_length h) - of_nat (4 * unat (ip_ihl h))"
    and "ip_direction h = dir"
    using low_nibble_less [of "bytes_at m p (unat len) ! 0"]
    by (auto simp: ip_of_bytes_def Let_def ip_header_bytes_def length_bytes_at [OF assms(1)] split: if_splits)
qed

lemma unat_size_sub:
  assumes "b < 2 ^ 64"
  shows "unat ((a :: size_t) - of_nat b) = (if b \<le> unat a then unat a - b else 2 ^ 64 + unat a - b)"
proof -
  have b: "unat (of_nat b :: size_t) = b" using assms by (simp add: unat_of_nat take_bit_nat_eq_self_iff)
  show ?thesis
  proof (cases "b \<le> unat a")
    case True
    then show ?thesis using b by (simp add: unat_sub word_le_nat_alt)
  next
    case False
    then show ?thesis using b by (simp add: unat_sub_if_size word_size)
  qed
qed

lemma ip_payload_len_value:
  assumes "readable m p (unat len)" and "parseIpHeader m p len dir = Some (Some h)"
  shows "unat (ip_payload_len h) =
    (if 4 * unat (ip_ihl h) \<le> unat (ip_total_length h)
     then unat (ip_total_length h) - 4 * unat (ip_ihl h)
     else 2 ^ 64 + unat (ip_total_length h) - 4 * unat (ip_ihl h))"
  using parseIpHeader_fields [OF assms] unat_size_sub [of "4 * unat (ip_ihl h)" "ucast (ip_total_length h)"]
  by simp

lemma ip_payload_readable:
  assumes "readable m p (unat len)" and "parseIpHeader m p len dir = Some (Some h)"
    and "4 * unat (ip_ihl h) \<le> unat (ip_total_length h)"
  shows "readable m (ip_payload h) (unat (ip_payload_len h))"
  using parseIpHeader_fields [OF assms(1,2)] ip_payload_len_value [OF assms(1,2)] assms(3)
  by (auto intro!: readable_ptr_add [OF assms(1)])


subsection \<open>Packets on the wire\<close>

record ip_packet =
  pk_ihl :: u8
  pk_tos :: u8
  pk_id :: u16
  pk_frag :: u16
  pk_ttl :: u8
  pk_protocol :: u8
  pk_checksum :: u16
  pk_src :: u32
  pk_dst :: u32
  pk_options :: "u8 list"
  pk_data :: "u8 list"

definition ip_packet_len :: "ip_packet \<Rightarrow> nat" where
  "ip_packet_len k = 4 * unat (pk_ihl k) + length (pk_data k)"

definition ip_wire_header :: "ip_packet \<Rightarrow> u8 list" where
  "ip_wire_header k = [0x40 OR pk_ihl k, pk_tos k] @ bytes_be16 (of_nat (ip_packet_len k))
     @ bytes_be16 (pk_id k) @ bytes_be16 (pk_frag k) @ [pk_ttl k, pk_protocol k]
     @ bytes_be16 (pk_checksum k) @ bytes_be32 (pk_src k) @ bytes_be32 (pk_dst k) @ pk_options k"

definition ip_packet_wf :: "ip_packet \<Rightarrow> bool" where
  "ip_packet_wf k \<longleftrightarrow> 5 \<le> unat (pk_ihl k) \<and> unat (pk_ihl k) < 16
     \<and> length (pk_options k) + 20 = 4 * unat (pk_ihl k) \<and> ip_packet_len k < 65536"

lemma version_ihl_byte:
  assumes "unat (ihl :: u8) < 16"
  shows "drop_bit 4 (0x40 OR ihl) AND 0x0F = 4" and "(0x40 OR ihl) AND 0x0F = ihl"
proof -
  have "take_bit 4 ihl = ihl"
    using assms by (simp add: word_unat_eq_iff unsigned_take_bit_eq take_bit_nat_eq_self_iff)
  then have lo: "ihl AND 0x0F = ihl" by (simp add: take_bit_eq_mask mask_numeral)
  have "unat (drop_bit 4 ihl) = 0" using assms by (simp only: unat_drop_bit) simp
  then have hi: "drop_bit 4 ihl = 0" using unat_eq_zero by blast
  have "(0x40 OR ihl) AND 0x0F = (0x40 AND 0x0F) OR (ihl AND 0x0F)" by (rule bit.conj_disj_distrib2)
  then show "(0x40 OR ihl) AND 0x0F = ihl" by (simp add: lo)
  have "drop_bit 4 (0x40 OR ihl) = drop_bit 4 0x40 OR drop_bit 4 ihl" by (rule drop_bit_or)
  also have "\<dots> = 4" by (simp only: hi) simp
  finally show "drop_bit 4 (0x40 OR ihl) AND 0x0F = 4" by simp
qed

lemma ip_of_wire:
  assumes "ip_packet_wf k"
  shows "ip_of_bytes p dir (ip_wire_header k @ pk_data k @ padding) =
    Some \<lparr>ip_ihl = pk_ihl k, ip_ttl = pk_ttl k, ip_protocol = pk_protocol k, ip_src_ip = pk_src k,
      ip_dst_ip = pk_dst k, ip_total_length = of_nat (ip_packet_len k),
      ip_checksum_ok = ip_checksum_valid (ip_wire_header k), ip_direction = dir,
      ip_payload = ptr_add p (4 * unat (pk_ihl k)), ip_payload_len = of_nat (length (pk_data k))\<rparr>"
proof -
  let ?bs = "ip_wire_header k @ pk_data k @ padding"
  note wf = assms [unfolded ip_packet_wf_def]
  have b0: "?bs ! 0 = 0x40 OR pk_ihl k" by (simp add: ip_wire_header_def)
  have hb: "ip_header_bytes (?bs ! 0) = 4 * unat (pk_ihl k)"
    using wf by (simp add: ip_header_bytes_def b0 version_ihl_byte)
  have lh: "length (ip_wire_header k) = 4 * unat (pk_ihl k)"
    using wf by (simp add: ip_wire_header_def bytes_be16_def bytes_be32_def)
  have tl: "unat (of_nat (ip_packet_len k) :: u16) = ip_packet_len k"
    using wf by (simp add: unat_of_nat take_bit_nat_eq_self_iff)
  have "(ucast (of_nat (ip_packet_len k) :: u16) :: size_t) = of_nat (ip_packet_len k)"
    by (metis tl of_nat_unat)
  then have pl: "(ucast (of_nat (ip_packet_len k) :: u16) :: size_t) - of_nat (4 * unat (pk_ihl k))
    = of_nat (length (pk_data k))" by (simp add: ip_packet_len_def)
  have nth: "?bs ! 2 = ucast (drop_bit 8 (of_nat (ip_packet_len k) :: u16))"
    "?bs ! 3 = ucast (of_nat (ip_packet_len k) :: u16)" "?bs ! 8 = pk_ttl k" "?bs ! 9 = pk_protocol k"
    "be32 (?bs ! 12) (?bs ! 13) (?bs ! 14) (?bs ! 15) = pk_src k"
    "be32 (?bs ! 16) (?bs ! 17) (?bs ! 18) (?bs ! 19) = pk_dst k"
    by (simp_all add: ip_wire_header_def bytes_be16_def bytes_be32_def)
  have v: "drop_bit 4 (?bs ! 0) AND 0x0F = 4" "?bs ! 0 AND 0x0F = pk_ihl k"
    using wf by (simp_all only: b0 version_ihl_byte)
  have len: "length ?bs = ip_packet_len k + length padding" "take (4 * unat (pk_ihl k)) ?bs = ip_wire_header k"
    by (simp_all add: lh ip_packet_len_def)
  have "20 \<le> 4 * unat (pk_ihl k) \<and> 4 * unat (pk_ihl k) \<le> ip_packet_len k + length padding
    \<and> ip_packet_len k \<le> ip_packet_len k + length padding" using wf by (simp add: ip_packet_len_def)
  then show ?thesis by (simp only: ip_of_bytes_def Let_def hb nth be16_bytes v len tl pl simp_thms if_True)
qed


subsection \<open>Properties\<close>

text \<open>Round trip of the IPv4 parser: a well-formed packet (IHL from 5 to 15 with that many
  option bytes, total length below 65536) is parsed into its own fields, the payload pointer
  and length delimit exactly its data, trailing Ethernet padding is not counted, and
  \<open>checksum_ok\<close> is the RFC 1071 test of the header bytes.\<close>

theorem ip_roundtrip:
  assumes "ip_packet_wf k" and "unat len = ip_packet_len k + length padding"
  shows "parseIpHeader (before @ ip_wire_header k @ pk_data k @ padding @ rest) (Ptr (length before)) len dir
    = Some (Some \<lparr>ip_ihl = pk_ihl k, ip_ttl = pk_ttl k, ip_protocol = pk_protocol k, ip_src_ip = pk_src k,
      ip_dst_ip = pk_dst k, ip_total_length = of_nat (ip_packet_len k),
      ip_checksum_ok = (0 < word_sum (ip_wire_header k) \<and> 65535 dvd word_sum (ip_wire_header k)),
      ip_direction = dir, ip_payload = Ptr (length before + 4 * unat (pk_ihl k)),
      ip_payload_len = of_nat (length (pk_data k))\<rparr>)"
proof -
  let ?m = "before @ ip_wire_header k @ pk_data k @ padding @ rest"
  have lh: "length (ip_wire_header k) = 4 * unat (pk_ihl k)"
    using assms(1) by (simp add: ip_packet_wf_def ip_wire_header_def bytes_be16_def bytes_be32_def)
  have rd: "readable ?m (Ptr (length before)) (unat len)" using assms(2) lh by (simp add: ip_packet_len_def)
  have bs: "bytes_at ?m (Ptr (length before)) (unat len) = ip_wire_header k @ pk_data k @ padding"
    using assms(2) lh by (simp add: ip_packet_len_def)
  have "20 \<le> unat len" using assms by (simp add: ip_packet_wf_def ip_packet_len_def)
  from parseIpHeader_bytes [OF rd this, of dir] show ?thesis
    by (simp only: bs ip_of_wire [OF assms(1)] ip_checksum_valid_def ptr_add_simps)
qed

theorem ip_roundtrip_witness:
  "map_option (map_option (\<lambda>h. (ip_protocol h, ip_dst_ip h, ip_payload h, ip_payload_len h)))
     (parseIpHeader ([9] @ ip_wire_header \<lparr>pk_ihl = 6, pk_tos = 0, pk_id = 1, pk_frag = 0, pk_ttl = 64,
        pk_protocol = 17, pk_checksum = 0, pk_src = 1, pk_dst = 0x08080808, pk_options = [1, 1, 1, 0],
        pk_data = [5, 6, 7]\<rparr> @ [5, 6, 7] @ [0, 0] @ [0xEE]) (Ptr 1) 29 Unknown)
   = Some (Some (17, 0x08080808, Ptr 25, 3))"
  using ip_roundtrip [of "\<lparr>pk_ihl = 6, pk_tos = 0, pk_id = 1, pk_frag = 0, pk_ttl = 64,
        pk_protocol = 17, pk_checksum = 0, pk_src = 1, pk_dst = 0x08080808, pk_options = [1, 1, 1, 0],
        pk_data = [5, 6, 7]\<rparr>" 29 "[0, 0]" "[9]" "[0xEE]" Unknown]
  by (simp add: ip_packet_wf_def ip_packet_len_def)

text \<open>What the IPv4 parser hands to the next layer: \<open>payload_len\<close> is \<open>total_length\<close> minus the
  header length when that is not negative, and otherwise wraps around to a size just below
  \<open>2 ^ 64\<close>, because the parser never compares \<open>total_length\<close> with the header length.\<close>

theorem ip_payload_len_wraps:
  assumes "readable m p (unat len)" and "parseIpHeader m p len dir = Some (Some h)"
  shows "unat (ip_payload_len h) =
    (if 4 * unat (ip_ihl h) \<le> unat (ip_total_length h)
     then unat (ip_total_length h) - 4 * unat (ip_ihl h)
     else 2 ^ 64 + unat (ip_total_length h) - 4 * unat (ip_ihl h))"
  using assms by (rule ip_payload_len_value)


theorem ip_payload_len_wraps_witness:
  "\<exists>h. parseIpHeader [0x45, 0, 0, 0, 0, 0, 0, 0, 0, 0, 0, 0, 0, 0, 0, 0, 0, 0, 0, 0] (Ptr 0) 20 Unknown = Some (Some h)
     \<and> unat (ip_payload_len h) = 2 ^ 64 - 20"
proof -
  have rd: "readable [0x45, 0, 0, 0, 0, 0, 0, 0, 0, 0, 0, 0, 0, 0, 0, 0, 0, 0, 0, 0] (Ptr 0) (unat (20 :: size_t))" by simp
  let ?bs = "bytes_at [0x45, 0, 0, 0, 0, 0, 0, 0, 0, 0, 0, 0, 0, 0, 0, 0, 0, 0, 0, 0] (Ptr 0) (unat (20 :: size_t))"
  have "ip_of_bytes (Ptr 0) Unknown ?bs \<noteq> None"
    by (simp add: ip_of_bytes_def ip_header_bytes_def be16_def)
  then obtain h where h: "ip_of_bytes (Ptr 0) Unknown ?bs = Some h"
    by blast
  then have "ip_ihl h = 5" "ip_total_length h = 0"
    by (auto simp: ip_of_bytes_def Let_def be16_def split: if_splits)
  moreover have p: "parseIpHeader [0x45, 0, 0, 0, 0, 0, 0, 0, 0, 0, 0, 0, 0, 0, 0, 0, 0, 0, 0, 0] (Ptr 0) 20 Unknown = Some (Some h)"
    using parseIpHeader_bytes [OF rd, of Unknown] h by (simp del: bytes_at_Ptr)
  ultimately show ?thesis using ip_payload_len_wraps [OF rd p] p by auto
qed

end
