(* ===== verification/Transport_Parsers.thy ===== *)
theory Transport_Parsers
  imports Header_Reader
begin

unbundle bit_operations_syntax

text \<open>
  \<open>src/parsers/tcp_parser.cpp\<close>, \<open>src/parsers/udp_parser.cpp\<close> and \<open>src/parsers/icmp_parser.cpp\<close>
  with their headers: constants, header structures and parsers. All three are payload
  parsers: given \<open>len\<close> readable bytes they stay inside them, and so does the payload they
  delimit.
\<close>

definition TcpFlags_FIN :: u8 where "TcpFlags_FIN = 0x01"
definition TcpFlags_SYN :: u8 where "TcpFlags_SYN = 0x02"
definition TcpFlags_RST :: u8 where "TcpFlags_RST = 0x04"
definition TcpFlags_PSH :: u8 where "TcpFlags_PSH = 0x08"
definition TcpFlags_ACK :: u8 where "TcpFlags_ACK = 0x10"
definition TcpFlags_URG :: u8 where "TcpFlags_URG = 0x20"
definition TcpFlags_SYN_FIN :: u8 where "TcpFlags_SYN_FIN = TcpFlags_SYN OR TcpFlags_FIN"
definition TcpFlags_SYN_ACK :: u8 where "TcpFlags_SYN_ACK = TcpFlags_SYN OR TcpFlags_ACK"
definition TcpFlags_XMAS :: u8 where "TcpFlags_XMAS = TcpFlags_FIN OR TcpFlags_PSH OR TcpFlags_URG"
definition TcpFlags_NULL_SCAN :: u8 where "TcpFlags_NULL_SCAN = 0x00"

record TcpHeader =
  tcp_src_port :: u16
  tcp_dst_port :: u16
  tcp_seq_num :: u32
  tcp_data_offset :: u8
  tcp_flags :: u8
  tcp_window_size :: u16
  tcp_payload :: ptr
  tcp_payload_len :: size_t

definition parseTcpHeader :: "mem \<Rightarrow> ptr \<Rightarrow> size_t \<Rightarrow> TcpHeader option option" where
  "parseTcpHeader m data len =
     (if data = nullptr \<or> len < 20 then Some None else do {
        src_port \<leftarrow> readU16Be m (ptr_add data 0);
        dst_port \<leftarrow> readU16Be m (ptr_add data 2);
        seq_num \<leftarrow> readU32Be m (ptr_add data 4);
        b12 \<leftarrow> load m data 12;
        let data_offset = drop_bit 4 b12 AND 0x0F;
        let header_bytes = (ucast (ucast data_offset * 4 :: u32) :: size_t);
        if data_offset < 5 \<or> header_bytes > len then Some None else do {
        b13 \<leftarrow> load m data 13;
        let flags = b13 AND 0x3F;
        window_size \<leftarrow> readU16Be m (ptr_add data 14);
        let payload = ptr_add data (unat header_bytes);
        let payload_len = len - header_bytes;
        Some (Some \<lparr>tcp_src_port = src_port, tcp_dst_port = dst_port, tcp_seq_num = seq_num,
          tcp_data_offset = data_offset, tcp_flags = flags, tcp_window_size = window_size,
          tcp_payload = payload, tcp_payload_len = payload_len\<rparr>) }})"

definition UDP_PORT_DNS :: u16 where "UDP_PORT_DNS = 53"

record UdpHeader =
  udp_src_port :: u16
  udp_dst_port :: u16
  udp_length :: u16
  udp_is_dns :: bool
  udp_payload :: ptr
  udp_payload_len :: size_t

definition parseUdpHeader :: "mem \<Rightarrow> ptr \<Rightarrow> size_t \<Rightarrow> UdpHeader option option" where
  "parseUdpHeader m data len =
     (if data = nullptr \<or> len < 8 then Some None else do {
        src_port \<leftarrow> readU16Be m (ptr_add data 0);
        dst_port \<leftarrow> readU16Be m (ptr_add data 2);
        length \<leftarrow> readU16Be m (ptr_add data 4);
        if length < 8 \<or> (ucast length :: size_t) > len then Some None else do {
        let is_dns = (src_port = UDP_PORT_DNS \<or> dst_port = UDP_PORT_DNS);
        let payload = ptr_add data 8;
        let payload_len = (ucast length :: size_t) - 8;
        Some (Some \<lparr>udp_src_port = src_port, udp_dst_port = dst_port, udp_length = length,
          udp_is_dns = is_dns, udp_payload = payload, udp_payload_len = payload_len\<rparr>) }})"

definition IcmpType_ECHO_REPLY :: u8 where "IcmpType_ECHO_REPLY = 0"
definition IcmpType_DEST_UNREACHABLE :: u8 where "IcmpType_DEST_UNREACHABLE = 3"
definition IcmpType_ECHO_REQUEST :: u8 where "IcmpType_ECHO_REQUEST = 8"
definition IcmpType_TTL_EXCEEDED :: u8 where "IcmpType_TTL_EXCEEDED = 11"

definition ICMP_NORMAL_MTU :: u16 where "ICMP_NORMAL_MTU = 1500"

record IcmpHeader =
  icmp_type :: u8
  icmp_code :: u8
  icmp_packet_size :: u16
  icmp_is_oversized :: bool
  icmp_payload :: ptr
  icmp_payload_len :: size_t

definition parseIcmpHeader :: "mem \<Rightarrow> ptr \<Rightarrow> size_t \<Rightarrow> u16 \<Rightarrow> IcmpHeader option option" where
  "parseIcmpHeader m data len ip_total_length =
     (if data = nullptr \<or> len < 8 then Some None else do {
        type \<leftarrow> load m data 0;
        code \<leftarrow> load m data 1;
        let packet_size = ip_total_length;
        let is_oversized = (packet_size > ICMP_NORMAL_MTU);
        Some (Some \<lparr>icmp_type = type, icmp_code = code, icmp_packet_size = packet_size,
          icmp_is_oversized = is_oversized, icmp_payload = ptr_add data 8,
          icmp_payload_len = len - 8\<rparr>) })"


subsection \<open>TCP as a function of the bytes\<close>

definition tcp_header_bytes :: "u8 \<Rightarrow> nat" where
  "tcp_header_bytes b12 = 4 * unat (drop_bit 4 b12 AND 0x0F)"

definition tcp_of_bytes :: "ptr \<Rightarrow> size_t \<Rightarrow> u8 list \<Rightarrow> TcpHeader option" where
  "tcp_of_bytes p len bs =
     (let hb = tcp_header_bytes (bs ! 12)
      in if 20 \<le> hb \<and> hb \<le> unat len
      then Some \<lparr>tcp_src_port = be16 (bs ! 0) (bs ! 1), tcp_dst_port = be16 (bs ! 2) (bs ! 3),
        tcp_seq_num = be32 (bs ! 4) (bs ! 5) (bs ! 6) (bs ! 7),
        tcp_data_offset = drop_bit 4 (bs ! 12) AND 0x0F, tcp_flags = bs ! 13 AND 0x3F,
        tcp_window_size = be16 (bs ! 14) (bs ! 15), tcp_payload = ptr_add p hb,
        tcp_payload_len = len - of_nat hb\<rparr>
      else None)"

lemma tcp_header_bytes_less: "tcp_header_bytes b < 64"
  using low_nibble_less [of "drop_bit 4 b"] by (simp add: tcp_header_bytes_def)

lemma tcp_header_size:
  "(ucast (ucast (drop_bit 4 b AND 0x0F) * 4 :: u32) :: size_t) = of_nat (tcp_header_bytes b)"
proof -
  have "unat (ucast (drop_bit 4 b AND 0x0F) * 4 :: u32) = tcp_header_bytes b"
    using low_nibble_less [of "drop_bit 4 b"] by (simp add: tcp_header_bytes_def unat_word_ariths)
  then show ?thesis by (metis of_nat_unat)
qed

lemma unat_tcp_header_bytes [simp]: "unat (of_nat (tcp_header_bytes b) :: size_t) = tcp_header_bytes b"
  using tcp_header_bytes_less [of b] by (simp add: unat_of_nat take_bit_nat_eq_self_iff)

lemma data_offset_min: "drop_bit 4 b AND 0x0F < (5 :: u8) \<longleftrightarrow> tcp_header_bytes b < 20"
  by (simp add: word_less_nat_alt tcp_header_bytes_def)

text \<open>
  The parser looks at no byte beyond the sixteenth, whatever \<open>len\<close> says: readability of 16
  bytes is all it needs once \<open>len\<close> is at least 20.
\<close>

lemma parseTcpHeader_bytes:
  assumes "readable m p 16" and "20 \<le> unat len"
  shows "parseTcpHeader m p len = Some (tcp_of_bytes p len (bytes_at m p 16))"
proof -
  have "p \<noteq> nullptr" using assms(1) by (cases p) auto
  moreover have "\<not> len < 20" using assms(2) by (simp add: word_less_nat_alt)
  moreover have "(of_nat (tcp_header_bytes b) > len) = (unat len < tcp_header_bytes b)" for b
    by (simp add: word_less_nat_alt)
  ultimately show ?thesis
    by (simp add: parseTcpHeader_def tcp_of_bytes_def Let_def readBe_loads
        readBe_loads [where k = 0, simplified] load_readable [OF assms(1)]
        tcp_header_size data_offset_min not_less)
qed

lemma parseTcpHeader_short: "p = nullptr \<or> unat len < 20 \<Longrightarrow> parseTcpHeader m p len = Some None"
  by (auto simp: parseTcpHeader_def word_less_nat_alt)


subsection \<open>UDP and ICMP as functions of the bytes\<close>

definition udp_of_bytes :: "ptr \<Rightarrow> size_t \<Rightarrow> u8 list \<Rightarrow> UdpHeader option" where
  "udp_of_bytes p len bs =
     (let n = be16 (bs ! 4) (bs ! 5); s = be16 (bs ! 0) (bs ! 1); d = be16 (bs ! 2) (bs ! 3)
      in if 8 \<le> unat n \<and> unat n \<le> unat len
      then Some \<lparr>udp_src_port = s, udp_dst_port = d, udp_length = n,
        udp_is_dns = (s = UDP_PORT_DNS \<or> d = UDP_PORT_DNS), udp_payload = ptr_add p 8,
        udp_payload_len = ucast n - 8\<rparr>
      else None)"

lemma parseUdpHeader_bytes:
  assumes "readable m p 6" and "8 \<le> unat len"
  shows "parseUdpHeader m p len = Some (udp_of_bytes p len (bytes_at m p 6))"
proof -
  have "p \<noteq> nullptr" using assms(1) by (cases p) auto
  moreover have "\<not> len < 8" using assms(2) by (simp add: word_less_nat_alt)
  moreover have "(n < 8) = (unat n < 8)" "((ucast n :: size_t) > len) = (unat len < unat n)" for n :: u16
    by (simp_all add: word_less_nat_alt)
  ultimately show ?thesis
    by (simp add: parseUdpHeader_def udp_of_bytes_def Let_def readBe_loads
        readBe_loads [where k = 0, simplified] load_readable [OF assms(1)] not_less)
qed

lemma parseUdpHeader_short: "p = nullptr \<or> unat len < 8 \<Longrightarrow> parseUdpHeader m p len = Some None"
  by (auto simp: parseUdpHeader_def word_less_nat_alt)

lemma parseIcmpHeader_bytes:
  assumes "readable m p 2" and "8 \<le> unat len"
  shows "parseIcmpHeader m p len ip_total = Some (Some \<lparr>icmp_type = bytes_at m p 2 ! 0,
    icmp_code = bytes_at m p 2 ! 1, icmp_packet_size = ip_total, icmp_is_oversized = (unat ip_total > 1500),
    icmp_payload = ptr_add p 8, icmp_payload_len = len - 8\<rparr>)"
proof -
  have "p \<noteq> nullptr" using assms(1) by (cases p) auto
  moreover have "\<not> len < 8" using assms(2) by (simp add: word_less_nat_alt)
  ultimately show ?thesis
    by (simp add: parseIcmpHeader_def Let_def load_readable [OF assms(1)] ICMP_NORMAL_MTU_def word_less_nat_alt)
qed

lemma parseIcmpHeader_short: "p = nullptr \<or> unat len < 8 \<Longrightarrow> parseIcmpHeader m p len ip_total = Some None"
  by (auto simp: parseIcmpHeader_def word_less_nat_alt)


subsection \<open>The contracts\<close>

lemma tcp_payload_bounds:
  assumes "parseTcpHeader m p len = Some (Some h)"
  shows "\<exists>k. tcp_payload h = ptr_add p k \<and> k + unat (tcp_payload_len h) \<le> unat len"
proof -
  from assms obtain b where b: "\<not> len < of_nat (tcp_header_bytes b)"
    "tcp_payload h = ptr_add p (tcp_header_bytes b)" "tcp_payload_len h = len - of_nat (tcp_header_bytes b)"
    by (auto simp: parseTcpHeader_def Let_def tcp_header_size split: if_splits Option.bind_splits)
  then have "of_nat (tcp_header_bytes b) \<le> len" by simp
  with b show ?thesis
    by (intro exI [of _ "tcp_header_bytes b"]) (simp add: unat_sub word_le_nat_alt)
qed

interpretation tcp: payload_parser parseTcpHeader 20 tcp_payload tcp_payload_len
proof unfold_locales
  fix m m' p and len :: size_t
  assume rd: "readable m p (unat len)"
  then show "\<exists>r. parseTcpHeader m p len = Some r"
    by (cases "unat len < 20") (simp_all add: parseTcpHeader_short parseTcpHeader_bytes readable_mono)
  assume "readable m' p (unat len)" and "bytes_at m p (unat len) = bytes_at m' p (unat len)"
  with rd show "parseTcpHeader m p len = parseTcpHeader m' p len"
    by (cases "unat len < 20")
      (simp_all add: parseTcpHeader_short parseTcpHeader_bytes readable_mono bytes_at_prefix [of 16 "unat len"])
qed (simp_all add: parseTcpHeader_short tcp_payload_bounds)

lemma udp_payload_bounds:
  assumes "parseUdpHeader m p len = Some (Some h)"
  shows "\<exists>k. udp_payload h = ptr_add p k \<and> k + unat (udp_payload_len h) \<le> unat len"
proof -
  from assms obtain n :: u16 where n: "\<not> n < 8" "\<not> len < ucast n"
    "udp_payload h = ptr_add p 8" "udp_payload_len h = ucast n - 8"
    by (auto simp: parseUdpHeader_def Let_def split: if_splits Option.bind_splits)
  then have "8 \<le> unat n" "unat n \<le> unat len" by (simp_all add: word_less_nat_alt)
  with n show ?thesis
    by (intro exI [of _ 8]) (simp add: unat_sub word_le_nat_alt)
qed

interpretation udp: payload_parser parseUdpHeader 8 udp_payload udp_payload_len
proof unfold_locales
  fix m m' p and len :: size_t
  assume rd: "readable m p (unat len)"
  then show "\<exists>r. parseUdpHeader m p len = Some r"
    by (cases "unat len < 8") (simp_all add: parseUdpHeader_short parseUdpHeader_bytes readable_mono)
  assume "readable m' p (unat len)" and "bytes_at m p (unat len) = bytes_at m' p (unat len)"
  with rd show "parseUdpHeader m p len = parseUdpHeader m' p len"
    by (cases "unat len < 8")
      (simp_all add: parseUdpHeader_short parseUdpHeader_bytes readable_mono bytes_at_prefix [of 6 "unat len"])
qed (simp_all add: parseUdpHeader_short udp_payload_bounds)

lemma icmp_payload_bounds:
  assumes "parseIcmpHeader m p len tot = Some (Some h)"
  shows "\<exists>k. icmp_payload h = ptr_add p k \<and> k + unat (icmp_payload_len h) \<le> unat len"
proof -
  from assms have "\<not> len < 8" "icmp_payload h = ptr_add p 8" "icmp_payload_len h = len - 8"
    by (auto simp: parseIcmpHeader_def Let_def split: if_splits Option.bind_splits)
  then show ?thesis
    by (intro exI [of _ 8]) (simp add: unat_sub word_le_nat_alt word_less_nat_alt)
qed

interpretation icmp: payload_parser "\<lambda>m p len. parseIcmpHeader m p len tot" 8 icmp_payload icmp_payload_len
  for tot
proof unfold_locales
  fix m m' p and len :: size_t
  assume rd: "readable m p (unat len)"
  then show "\<exists>r. parseIcmpHeader m p len tot = Some r"
    by (cases "unat len < 8") (simp_all add: parseIcmpHeader_short parseIcmpHeader_bytes readable_mono)
  assume "readable m' p (unat len)" and "bytes_at m p (unat len) = bytes_at m' p (unat len)"
  with rd show "parseIcmpHeader m p len tot = parseIcmpHeader m' p len tot"
    by (cases "unat len < 8")
      (simp_all add: parseIcmpHeader_short parseIcmpHeader_bytes readable_mono bytes_at_prefix [of 2 "unat len"])
qed (simp_all add: parseIcmpHeader_short icmp_payload_bounds)


subsection \<open>Segments and datagrams on the wire\<close>

record tcp_segment =
  sg_src_port :: u16
  sg_dst_port :: u16
  sg_seq :: u32
  sg_ack :: u32
  sg_offset_byte :: u8  \<comment> \<open>data offset in the high nibble, reserved bits in the low one\<close>
  sg_flag_byte :: u8  \<comment> \<open>CWR and ECE in the two high bits, the six classic flags below\<close>
  sg_window :: u16
  sg_checksum :: u16
  sg_urgent :: u16
  sg_options :: "u8 list"
  sg_data :: "u8 list"

definition tcp_wire :: "tcp_segment \<Rightarrow> u8 list" where
  "tcp_wire g = bytes_be16 (sg_src_port g) @ bytes_be16 (sg_dst_port g) @ bytes_be32 (sg_seq g)
     @ bytes_be32 (sg_ack g) @ [sg_offset_byte g, sg_flag_byte g] @ bytes_be16 (sg_window g)
     @ bytes_be16 (sg_checksum g) @ bytes_be16 (sg_urgent g) @ sg_options g @ sg_data g"

definition tcp_segment_wf :: "tcp_segment \<Rightarrow> bool" where
  "tcp_segment_wf g \<longleftrightarrow> length (sg_options g) + 20 = tcp_header_bytes (sg_offset_byte g)"

definition udp_wire :: "u16 \<Rightarrow> u16 \<Rightarrow> u16 \<Rightarrow> u8 list \<Rightarrow> u8 list" where
  "udp_wire s d c payload = bytes_be16 s @ bytes_be16 d @ bytes_be16 (of_nat (8 + length payload))
     @ bytes_be16 c @ payload"

definition icmp_wire :: "u8 \<Rightarrow> u8 \<Rightarrow> u16 \<Rightarrow> u32 \<Rightarrow> u8 list \<Rightarrow> u8 list" where
  "icmp_wire type code checksum header payload = [type, code] @ bytes_be16 checksum @ bytes_be32 header @ payload"

lemma tcp_of_wire_prefix:
  assumes "tcp_segment_wf g" and "tcp_header_bytes (sg_offset_byte g) \<le> unat len"
  shows "tcp_of_bytes p len (take 16 (tcp_wire g)) = Some \<lparr>tcp_src_port = sg_src_port g,
    tcp_dst_port = sg_dst_port g, tcp_seq_num = sg_seq g,
    tcp_data_offset = drop_bit 4 (sg_offset_byte g) AND 0x0F, tcp_flags = sg_flag_byte g AND 0x3F,
    tcp_window_size = sg_window g, tcp_payload = ptr_add p (tcp_header_bytes (sg_offset_byte g)),
    tcp_payload_len = len - of_nat (tcp_header_bytes (sg_offset_byte g))\<rparr>"
proof -
  let ?bs = "take 16 (tcp_wire g)"
  have nth: "?bs ! 12 = sg_offset_byte g" "?bs ! 13 = sg_flag_byte g" "be16 (?bs ! 0) (?bs ! 1) = sg_src_port g"
    "be16 (?bs ! 2) (?bs ! 3) = sg_dst_port g" "be16 (?bs ! 14) (?bs ! 15) = sg_window g"
    "be32 (?bs ! 4) (?bs ! 5) (?bs ! 6) (?bs ! 7) = sg_seq g"
    by (simp_all add: tcp_wire_def bytes_be16_def bytes_be32_def)
  have "20 \<le> tcp_header_bytes (sg_offset_byte g) \<and> tcp_header_bytes (sg_offset_byte g) \<le> unat len"
    using assms by (simp add: tcp_segment_wf_def)
  then show ?thesis by (simp only: tcp_of_bytes_def Let_def nth if_True simp_thms)
qed

lemma tcp_of_wire:
  assumes "tcp_segment_wf g" and "unat len = tcp_header_bytes (sg_offset_byte g) + length (sg_data g)"
  shows "tcp_of_bytes p len (take 16 (tcp_wire g)) = Some \<lparr>tcp_src_port = sg_src_port g,
    tcp_dst_port = sg_dst_port g, tcp_seq_num = sg_seq g,
    tcp_data_offset = drop_bit 4 (sg_offset_byte g) AND 0x0F, tcp_flags = sg_flag_byte g AND 0x3F,
    tcp_window_size = sg_window g, tcp_payload = ptr_add p (tcp_header_bytes (sg_offset_byte g)),
    tcp_payload_len = of_nat (length (sg_data g))\<rparr>"
proof -
  have "len - of_nat (tcp_header_bytes (sg_offset_byte g)) = of_nat (length (sg_data g))"
    using size_eq_of_nat [OF assms(2)] by simp
  then show ?thesis using tcp_of_wire_prefix [OF assms(1), of len p] assms(2) by simp
qed


lemma tcp_wire_split: "\<exists>h. length h = 20 + length (sg_options g) \<and> tcp_wire g = h @ sg_data g"
  by (rule exI [of _ "bytes_be16 (sg_src_port g) @ bytes_be16 (sg_dst_port g) @ bytes_be32 (sg_seq g)
     @ bytes_be32 (sg_ack g) @ [sg_offset_byte g, sg_flag_byte g] @ bytes_be16 (sg_window g)
     @ bytes_be16 (sg_checksum g) @ bytes_be16 (sg_urgent g) @ sg_options g"])
    (simp add: tcp_wire_def bytes_be16_def bytes_be32_def)

lemma tcp_wire_data:
  "bytes_at (before @ tcp_wire g @ rest) (Ptr (length before + 20 + length (sg_options g))) (length (sg_data g)) = sg_data g"
  using tcp_wire_split [of g] by (auto simp flip: append_assoc simp: add.assoc)

lemma tcp_of_segment:
  assumes "tcp_segment_wf g" and "unat len = length (tcp_wire g)"
  shows "parseTcpHeader (before @ tcp_wire g @ rest) (Ptr (length before)) len
    = Some (Some \<lparr>tcp_src_port = sg_src_port g, tcp_dst_port = sg_dst_port g, tcp_seq_num = sg_seq g,
        tcp_data_offset = drop_bit 4 (sg_offset_byte g) AND 0x0F, tcp_flags = sg_flag_byte g AND 0x3F,
        tcp_window_size = sg_window g,
        tcp_payload = Ptr (length before + 20 + length (sg_options g)),
        tcp_payload_len = of_nat (length (sg_data g))\<rparr>)"
proof -
  let ?m = "before @ tcp_wire g @ rest"
  have len: "length (tcp_wire g) = 20 + length (sg_options g) + length (sg_data g)"
    by (simp add: tcp_wire_def bytes_be16_def bytes_be32_def)
  then have rd: "readable ?m (Ptr (length before)) 16" by simp
  have bs: "bytes_at ?m (Ptr (length before)) 16 = take 16 (tcp_wire g)" using len by simp
  have hb: "tcp_header_bytes (sg_offset_byte g) = 20 + length (sg_options g)"
    using assms(1) by (simp add: tcp_segment_wf_def)
  have "20 \<le> unat len" using assms(2) len by simp
  from parseTcpHeader_bytes [OF rd this] tcp_of_wire [OF assms(1), of len "Ptr (length before)"]
  show ?thesis using assms(2) len by (simp add: bs hb add.assoc del: bytes_at_Ptr)
qed

lemma udp_of_datagram:
  assumes "8 + length payload < 65536" and "unat len = 8 + length payload + length padding"
  shows "parseUdpHeader (before @ udp_wire s d c payload @ padding @ rest) (Ptr (length before)) len
    = Some (Some \<lparr>udp_src_port = s, udp_dst_port = d, udp_length = of_nat (8 + length payload),
        udp_is_dns = (s = 53 \<or> d = 53), udp_payload = Ptr (length before + 8),
        udp_payload_len = of_nat (length payload)\<rparr>)"
proof -
  let ?m = "before @ udp_wire s d c payload @ padding @ rest" and ?n = "of_nat (8 + length payload) :: u16"
  have rd: "readable ?m (Ptr (length before)) 6" by (simp add: udp_wire_def bytes_be16_def)
  have bs: "bytes_at ?m (Ptr (length before)) 6 = bytes_be16 s @ bytes_be16 d @ bytes_be16 ?n"
    by (simp add: udp_wire_def bytes_be16_def)
  have n: "unat ?n = 8 + length payload"
    using assms(1) by (simp only: unat_of_nat take_bit_nat_eq_self_iff) simp
  have "(ucast ?n :: size_t) = of_nat (unat ?n)" by (simp only: of_nat_unat)
  then have "(ucast ?n :: size_t) - 8 = of_nat (length payload)" by (simp only: n) simp
  moreover have "8 \<le> unat ?n \<and> unat ?n \<le> unat len" using n assms(2) by simp
  moreover have "8 \<le> unat len" using assms(2) by simp
  note parseUdpHeader_bytes [OF rd this, unfolded bs]
  moreover have "(bytes_be16 s @ bytes_be16 d @ bytes_be16 ?n) ! 4 = ucast (drop_bit 8 ?n)"
    "(bytes_be16 s @ bytes_be16 d @ bytes_be16 ?n) ! 5 = ucast ?n"
    "be16 ((bytes_be16 s @ bytes_be16 d @ bytes_be16 ?n) ! 0) ((bytes_be16 s @ bytes_be16 d @ bytes_be16 ?n) ! 1) = s"
    "be16 ((bytes_be16 s @ bytes_be16 d @ bytes_be16 ?n) ! 2) ((bytes_be16 s @ bytes_be16 d @ bytes_be16 ?n) ! 3) = d"
    by (simp_all add: bytes_be16_def)
  ultimately show ?thesis
    by (simp only: udp_of_bytes_def Let_def be16_bytes if_True simp_thms UDP_PORT_DNS_def ptr_add_simps)
qed

lemma icmp_of_message:
  assumes "unat len = 8 + length payload"
  shows "parseIcmpHeader (before @ icmp_wire type code checksum header payload @ rest) (Ptr (length before)) len tot
    = Some (Some \<lparr>icmp_type = type, icmp_code = code, icmp_packet_size = tot, icmp_is_oversized = (tot > ICMP_NORMAL_MTU),
        icmp_payload = Ptr (length before + 8), icmp_payload_len = of_nat (length payload)\<rparr>)"
proof -
  have "len - 8 = of_nat (length payload)" using size_eq_of_nat [OF assms] by simp
  moreover have "\<not> len < 8" using assms by (simp add: word_less_nat_alt)
  ultimately show ?thesis by (simp add: parseIcmpHeader_def icmp_wire_def bytes_be16_def bytes_be32_def load_def nth_append Let_def)
qed


subsection \<open>Properties\<close>

text \<open>Round trip of the TCP parser: a segment whose data offset agrees with its options is
  parsed into its ports, sequence number, window and data offset, the six classic flag bits
  without CWR, ECE and reserved bits, and a payload that is exactly its data.\<close>

theorem tcp_roundtrip:
  assumes "tcp_segment_wf g" and "unat len = length (tcp_wire g)"
  shows "parseTcpHeader (before @ tcp_wire g @ rest) (Ptr (length before)) len
    = Some (Some \<lparr>tcp_src_port = sg_src_port g, tcp_dst_port = sg_dst_port g, tcp_seq_num = sg_seq g,
        tcp_data_offset = drop_bit 4 (sg_offset_byte g) AND 0x0F, tcp_flags = sg_flag_byte g AND 0x3F,
        tcp_window_size = sg_window g,
        tcp_payload = Ptr (length before + 20 + length (sg_options g)),
        tcp_payload_len = of_nat (length (sg_data g))\<rparr>)"
  using assms by (rule tcp_of_segment)

theorem tcp_roundtrip_witness:
  "parseTcpHeader ([1] @ tcp_wire \<lparr>sg_src_port = 443, sg_dst_port = 50000, sg_seq = 7, sg_ack = 9,
       sg_offset_byte = 0x6F, sg_flag_byte = 0xD2, sg_window = 1024, sg_checksum = 0, sg_urgent = 0,
       sg_options = [1, 1, 1, 0], sg_data = [0xAA]\<rparr> @ []) (Ptr 1) 25
   = Some (Some \<lparr>tcp_src_port = 443, tcp_dst_port = 50000, tcp_seq_num = 7, tcp_data_offset = 6,
       tcp_flags = 0x12, tcp_window_size = 1024, tcp_payload = Ptr 25, tcp_payload_len = 1\<rparr>)"
  using tcp_roundtrip [of "\<lparr>sg_src_port = 443, sg_dst_port = 50000, sg_seq = 7, sg_ack = 9,
       sg_offset_byte = 0x6F, sg_flag_byte = 0xD2, sg_window = 1024, sg_checksum = 0, sg_urgent = 0,
       sg_options = [1, 1, 1, 0], sg_data = [0xAA]\<rparr>" 25 "[1]" "[]"]
  by (simp add: tcp_segment_wf_def tcp_header_bytes_def tcp_wire_def bytes_be16_def bytes_be32_def)

text \<open>Round trip of the UDP parser: a datagram with a length field of 8 plus its payload is
  parsed into its ports, and the payload delimited is exactly the datagram's, also when
  trailing bytes follow it; it is marked as DNS exactly when one of the ports is 53.\<close>

theorem udp_roundtrip:
  assumes "8 + length payload < 65536" and "unat len = 8 + length payload + length padding"
  shows "parseUdpHeader (before @ udp_wire s d c payload @ padding @ rest) (Ptr (length before)) len
    = Some (Some \<lparr>udp_src_port = s, udp_dst_port = d, udp_length = of_nat (8 + length payload),
        udp_is_dns = (s = 53 \<or> d = 53), udp_payload = Ptr (length before + 8),
        udp_payload_len = of_nat (length payload)\<rparr>)"
  using assms by (rule udp_of_datagram)

theorem udp_roundtrip_witness:
  "parseUdpHeader ([] @ udp_wire 54321 53 0 [1, 2, 3] @ [0] @ [9]) (Ptr 0) 12
    = Some (Some \<lparr>udp_src_port = 54321, udp_dst_port = 53, udp_length = 11,
        udp_is_dns = True, udp_payload = Ptr 8, udp_payload_len = 3\<rparr>)"
  using udp_roundtrip [of "[1, 2, 3]" 12 "[0]" "[]" 54321 53 0 "[9]"] by simp

text \<open>The TCP parser stays inside the bytes it is given: with \<open>len\<close> readable bytes it never
  reads outside the buffer, whatever follows these bytes cannot change its answer, and the
  payload of an accepted segment lies inside them.\<close>

theorem tcp_stays_inside:
  assumes "a + unat len \<le> length m"
  shows "\<exists>r. parseTcpHeader m (Ptr a) len = Some r
    \<and> parseTcpHeader (take (a + unat len) m @ rest) (Ptr a) len = Some r
    \<and> (case r of None \<Rightarrow> True
       | Some h \<Rightarrow> \<exists>k. tcp_payload h = Ptr (a + k) \<and> k + unat (tcp_payload_len h) \<le> unat len)"
proof -
  from assms have rd: "readable m (Ptr a) (unat len)" by simp
  then obtain r where r: "parseTcpHeader m (Ptr a) len = Some r" using tcp.no_fault by blast
  with tcp.stale_bytes_irrelevant [OF assms, of rest] tcp.payload_inside [of m "Ptr a" len]
  show ?thesis by (auto split: option.splits)
qed

theorem tcp_stays_inside_witness:
  "\<exists>r. parseTcpHeader [1, 2, 3] (Ptr 1) 2 = Some r \<and> parseTcpHeader [1, 2, 3, 77] (Ptr 1) 2 = Some r"
  using tcp_stays_inside [of 1 2 "[1, 2, 3]" "[77]"] by auto

text \<open>The ICMP parser marks a packet as oversized exactly when the IP total length exceeds
  1500, and accepts every message of at least 8 bytes.\<close>

theorem icmp_oversized_iff:
  assumes "readable m p 2" and "8 \<le> unat len"
  shows "\<exists>h. parseIcmpHeader m p len ip_total = Some (Some h) \<and> icmp_packet_size h = ip_total
    \<and> (icmp_is_oversized h \<longleftrightarrow> 1500 < unat ip_total) \<and> unat (icmp_payload_len h) = unat len - 8"
  using assms by (simp add: parseIcmpHeader_bytes unat_sub word_le_nat_alt)

theorem icmp_oversized_iff_witness:
  "\<exists>h. parseIcmpHeader [8, 0, 0, 0, 0, 0, 0, 0] (Ptr 0) 8 1501 = Some (Some h) \<and> icmp_is_oversized h"
  using icmp_oversized_iff [of "[8, 0, 0, 0, 0, 0, 0, 0]" "Ptr 0" 8 1501] by auto

end
