(* ===== verification/Dissector_Stage.thy ===== *)
theory Dissector_Stage
  imports Filter_Stage Arp_Parser Ip_Parser Transport_Parsers
begin

unbundle bit_operations_syntax

text \<open>
  \<open>include/pipeline/dissector_stage.h\<close> and \<open>src/pipeline/dissector_stage.cpp\<close>: dispatch on
  EtherType and IP protocol, with the direction of a packet decided from the local addresses.
  The structures \<open>IpTcpFrame\<close>, \<open>IpUdpFrame\<close>, \<open>IpIcmpFrame\<close>, \<open>ArpFrame\<close> and \<open>IpOtherFrame\<close> are the
  constructors of the variant \<open>DissectedFrame\<close>.
\<close>

type_synonym LocalIpSet = "u32 set"

datatype DissectedFrame =
    IpTcpFrame EthernetFrame IpHeader TcpHeader u64
  | IpUdpFrame EthernetFrame IpHeader UdpHeader u64
  | IpIcmpFrame EthernetFrame IpHeader IcmpHeader u64
  | ArpFrame EthernetFrame ArpPacket u64
  | IpOtherFrame EthernetFrame IpHeader u64

definition resolveDirection :: "u32 \<Rightarrow> u32 \<Rightarrow> LocalIpSet \<Rightarrow> Direction" where
  "resolveDirection src_ip dst_ip local_ips =
     (if dst_ip \<in> local_ips then Inbound else if src_ip \<in> local_ips then Outbound else Unknown)"

definition dissector_stage :: "mem \<Rightarrow> FilteredFrame \<Rightarrow> LocalIpSet \<Rightarrow> DissectedFrame option option" where
  "dissector_stage m filtered local_ips =
     (let eth = ff_eth filtered; ts = ff_capture_ts_ms filtered in
      if eth_ethertype eth = ETHERTYPE_ARP then do {
        arp \<leftarrow> parseArpPacket m (eth_payload eth) (eth_payload_size eth);
        (case arp of None \<Rightarrow> Some None | Some a \<Rightarrow> Some (Some (ArpFrame eth a ts))) }
      else if eth_payload_size eth < 20 then Some None
      else do {
        s0 \<leftarrow> load m (eth_payload eth) 12;
        s1 \<leftarrow> load m (eth_payload eth) 13;
        s2 \<leftarrow> load m (eth_payload eth) 14;
        s3 \<leftarrow> load m (eth_payload eth) 15;
        let peek_src = push_bit 24 (ucast s0) OR push_bit 16 (ucast s1) OR push_bit 8 (ucast s2) OR ucast s3;
        d0 \<leftarrow> load m (eth_payload eth) 16;
        d1 \<leftarrow> load m (eth_payload eth) 17;
        d2 \<leftarrow> load m (eth_payload eth) 18;
        d3 \<leftarrow> load m (eth_payload eth) 19;
        let peek_dst = push_bit 24 (ucast d0) OR push_bit 16 (ucast d1) OR push_bit 8 (ucast d2) OR ucast d3;
        let dir = resolveDirection peek_src peek_dst local_ips;
        ip \<leftarrow> parseIpHeader m (eth_payload eth) (eth_payload_size eth) dir;
        (case ip of None \<Rightarrow> Some None
         | Some ip \<Rightarrow>
             if ip_protocol ip = 6 then do {
               tcp \<leftarrow> parseTcpHeader m (ip_payload ip) (ip_payload_len ip);
               (case tcp of None \<Rightarrow> Some None | Some tcp \<Rightarrow> Some (Some (IpTcpFrame eth ip tcp ts))) }
             else if ip_protocol ip = 17 then do {
               udp \<leftarrow> parseUdpHeader m (ip_payload ip) (ip_payload_len ip);
               (case udp of None \<Rightarrow> Some None | Some udp \<Rightarrow> Some (Some (IpUdpFrame eth ip udp ts))) }
             else if ip_protocol ip = 1 then do {
               icmp \<leftarrow> parseIcmpHeader m (ip_payload ip) (ip_payload_len ip) (ip_total_length ip);
               (case icmp of None \<Rightarrow> Some None | Some icmp \<Rightarrow> Some (Some (IpIcmpFrame eth ip icmp ts))) }
             else Some (Some (IpOtherFrame eth ip ts))) })"


subsection \<open>The IPv4 branch in two steps\<close>

text \<open>The dispatch on \<open>ip->protocol\<close>.\<close>

definition dissect_transport :: "mem \<Rightarrow> EthernetFrame \<Rightarrow> IpHeader \<Rightarrow> u64 \<Rightarrow> DissectedFrame option option" where
  "dissect_transport m eth ip ts =
     (if ip_protocol ip = 6 then
        map_option (map_option (\<lambda>tcp. IpTcpFrame eth ip tcp ts)) (parseTcpHeader m (ip_payload ip) (ip_payload_len ip))
      else if ip_protocol ip = 17 then
        map_option (map_option (\<lambda>udp. IpUdpFrame eth ip udp ts)) (parseUdpHeader m (ip_payload ip) (ip_payload_len ip))
      else if ip_protocol ip = 1 then
        map_option (map_option (\<lambda>icmp. IpIcmpFrame eth ip icmp ts))
          (parseIcmpHeader m (ip_payload ip) (ip_payload_len ip) (ip_total_length ip))
      else Some (Some (IpOtherFrame eth ip ts)))"

definition peek_direction :: "u8 list \<Rightarrow> LocalIpSet \<Rightarrow> Direction" where
  "peek_direction bs local_ips =
     resolveDirection (be32 (bs ! 12) (bs ! 13) (bs ! 14) (bs ! 15)) (be32 (bs ! 16) (bs ! 17) (bs ! 18) (bs ! 19)) local_ips"

lemma bind_optional:
  "x \<bind> (\<lambda>y. case y of None \<Rightarrow> Some None | Some z \<Rightarrow> Some (Some (f z))) = map_option (map_option f) x"
  by (cases x) (auto split: option.splits)

lemma dissector_stage_arp:
  assumes "eth_ethertype (ff_eth ff) = ETHERTYPE_ARP"
  shows "dissector_stage m ff local_ips =
    map_option (map_option (\<lambda>a. ArpFrame (ff_eth ff) a (ff_capture_ts_ms ff)))
      (parseArpPacket m (eth_payload (ff_eth ff)) (eth_payload_size (ff_eth ff)))"
  using assms by (auto simp: dissector_stage_def Let_def split: Option.bind_splits option.splits)

lemma dissector_stage_short:
  "eth_ethertype (ff_eth ff) \<noteq> ETHERTYPE_ARP \<Longrightarrow> unat (eth_payload_size (ff_eth ff)) < 20 \<Longrightarrow>
     dissector_stage m ff local_ips = Some None"
  by (simp add: dissector_stage_def Let_def word_less_nat_alt)

lemma dissector_stage_ip:
  assumes "eth_ethertype (ff_eth ff) \<noteq> ETHERTYPE_ARP"
    and rd: "readable m (eth_payload (ff_eth ff)) (unat (eth_payload_size (ff_eth ff)))"
    and len: "20 \<le> unat (eth_payload_size (ff_eth ff))"
  shows "dissector_stage m ff local_ips =
    (let bs = bytes_at m (eth_payload (ff_eth ff)) (unat (eth_payload_size (ff_eth ff)))
     in case ip_of_bytes (eth_payload (ff_eth ff)) (peek_direction bs local_ips) bs of
       None \<Rightarrow> Some None
     | Some ip \<Rightarrow> dissect_transport m (ff_eth ff) ip (ff_capture_ts_ms ff))"
proof -
  have "\<not> eth_payload_size (ff_eth ff) < 20" using len by (simp add: word_less_nat_alt)
  then show ?thesis using assms(1) len
    by (simp add: dissector_stage_def Let_def load_readable [OF rd] parseIpHeader_bytes [OF rd len]
        peek_direction_def be32_def dissect_transport_def bind_optional split: option.split)
qed


subsection \<open>Safety\<close>

lemma tcp_no_fault_16: "readable m p 16 \<Longrightarrow> \<exists>r. parseTcpHeader m p len = Some r"
  by (cases "unat len < 20") (simp_all add: parseTcpHeader_short parseTcpHeader_bytes)

lemma udp_no_fault_6: "readable m p 6 \<Longrightarrow> \<exists>r. parseUdpHeader m p len = Some r"
  by (cases "unat len < 8") (simp_all add: parseUdpHeader_short parseUdpHeader_bytes)

lemma icmp_no_fault_2: "readable m p 2 \<Longrightarrow> \<exists>r. parseIcmpHeader m p len tot = Some r"
  by (cases "unat len < 8") (simp_all add: parseIcmpHeader_short parseIcmpHeader_bytes)

lemma dissect_transport_no_fault:
  assumes "readable m (ip_payload ip) 16"
  shows "\<exists>r. dissect_transport m eth ip ts = Some r"
  using tcp_no_fault_16 [OF assms] udp_no_fault_6 [OF readable_mono [OF assms]]
    icmp_no_fault_2 [OF readable_mono [OF assms]]
  by (force simp: dissect_transport_def)

lemma filtered_readable:
  "filtered_ok m ff \<Longrightarrow> readable m (eth_payload (ff_eth ff)) (unat (eth_payload_size (ff_eth ff)))"
  by (simp add: filtered_ok_def)

lemma ip_of_bytes_fields:
  assumes "ip_of_bytes p dir bs = Some ip"
  shows "ip_payload ip = ptr_add p (ip_header_bytes (bs ! 0))" and "ip_total_length ip = be16 (bs ! 2) (bs ! 3)"
    and "ip_payload_len ip = ucast (be16 (bs ! 2) (bs ! 3)) - of_nat (ip_header_bytes (bs ! 0))"
    and "ip_direction ip = dir" and "ip_header_bytes (bs ! 0) \<le> length bs"
    and "unat (be16 (bs ! 2) (bs ! 3)) \<le> length bs"
    and "ip_src_ip ip = be32 (bs ! 12) (bs ! 13) (bs ! 14) (bs ! 15)"
    and "ip_dst_ip ip = be32 (bs ! 16) (bs ! 17) (bs ! 18) (bs ! 19)"
  using assms by (auto simp: ip_of_bytes_def Let_def split: if_splits)

lemma dissector_no_fault:
  assumes ok: "filtered_ok m ff" and big: "94 \<le> length m"
  shows "\<exists>r. dissector_stage m ff local_ips = Some r"
proof (cases "eth_ethertype (ff_eth ff) = ETHERTYPE_ARP")
  case True
  then show ?thesis
    using arp.no_fault [OF filtered_readable [OF ok]] by (auto simp: dissector_stage_arp)
next
  case False
  show ?thesis
  proof (cases "unat (eth_payload_size (ff_eth ff)) < 20")
    case True
    with False show ?thesis by (simp add: dissector_stage_short)
  next
    case len: False
    let ?bs = "bytes_at m (eth_payload (ff_eth ff)) (unat (eth_payload_size (ff_eth ff)))"
    show ?thesis
    proof (cases "ip_of_bytes (eth_payload (ff_eth ff)) (peek_direction ?bs local_ips) ?bs")
      case None
      with len show ?thesis by (simp add: dissector_stage_ip [OF False filtered_readable [OF ok]] Let_def)
    next
      case (Some ip)
      have "readable m (ip_payload ip) 16"
        using ip_of_bytes_fields(1) [OF Some] ip_header_bytes_less [of "?bs ! 0"] ok big
        by (simp add: filtered_ok_def)
      from dissect_transport_no_fault [OF this] len Some show ?thesis
        by (simp add: dissector_stage_ip [OF False filtered_readable [OF ok]] Let_def)
    qed
  qed
qed


subsection \<open>What the result depends on\<close>

text \<open>The payload of the IP packet is inside the bytes that hold the packet.\<close>

definition ip_length_ok :: "u8 list \<Rightarrow> bool" where
  "ip_length_ok bs \<longleftrightarrow> ip_header_bytes (bs ! 0) \<le> unat (be16 (bs ! 2) (bs ! 3))"

lemma ip_payload_part:
  assumes "ip_of_bytes p dir bs = Some ip" and "ip_length_ok bs"
  shows "ip_header_bytes (bs ! 0) + unat (ip_payload_len ip) \<le> length bs"
proof -
  let ?hb = "ip_header_bytes (bs ! 0)"
  have "unat (ip_payload_len ip) = unat (be16 (bs ! 2) (bs ! 3)) - ?hb"
    using unat_size_sub [of ?hb "ucast (be16 (bs ! 2) (bs ! 3))"] ip_header_bytes_less [of "bs ! 0"] assms(2)
    by (simp add: ip_of_bytes_fields(3) [OF assms(1)] ip_length_ok_def)
  then show ?thesis using ip_of_bytes_fields(6) [OF assms(1)] ip_of_bytes_fields(5) [OF assms(1)] by simp
qed

lemma dissect_transport_local:
  assumes "readable m (ip_payload ip) (unat (ip_payload_len ip))"
    and "readable m' (ip_payload ip) (unat (ip_payload_len ip))"
    and "bytes_at m (ip_payload ip) (unat (ip_payload_len ip)) = bytes_at m' (ip_payload ip) (unat (ip_payload_len ip))"
  shows "dissect_transport m eth ip ts = dissect_transport m' eth ip ts"
  unfolding dissect_transport_def
  using tcp.local_bytes [OF assms] udp.local_bytes [OF assms] icmp.local_bytes [OF assms] by simp

lemma dissector_local:
  assumes ok: "filtered_ok m ff" and ok': "filtered_ok m' ff"
    and same: "bytes_at m (Ptr 14) (unat (eth_payload_size (ff_eth ff))) = bytes_at m' (Ptr 14) (unat (eth_payload_size (ff_eth ff)))"
    and len: "eth_ethertype (ff_eth ff) = ETHERTYPE_ARP
      \<or> ip_length_ok (bytes_at m (Ptr 14) (unat (eth_payload_size (ff_eth ff))))"
  shows "dissector_stage m ff local_ips = dissector_stage m' ff local_ips"
proof -
  let ?n = "unat (eth_payload_size (ff_eth ff))" and ?p = "eth_payload (ff_eth ff)"
  let ?bs = "bytes_at m ?p ?n"
  note rd = filtered_readable [OF ok] filtered_readable [OF ok']
  have p: "?p = Ptr 14" using ok by (simp add: filtered_ok_def)
  have eq: "?bs = bytes_at m' ?p ?n" using same by (simp only: p)
  consider "eth_ethertype (ff_eth ff) = ETHERTYPE_ARP" | "eth_ethertype (ff_eth ff) \<noteq> ETHERTYPE_ARP" "?n < 20"
    | "eth_ethertype (ff_eth ff) \<noteq> ETHERTYPE_ARP" "20 \<le> ?n" by linarith
  then show ?thesis
  proof cases
    case 1
    then show ?thesis using arp.local_bytes [OF rd eq] by (simp add: dissector_stage_arp)
  next
    case 2
    then show ?thesis by (simp add: dissector_stage_short)
  next
    case 3
    have "dissect_transport m (ff_eth ff) ip ts = dissect_transport m' (ff_eth ff) ip ts"
      if "ip_of_bytes ?p dir ?bs = Some ip" for ip ts dir
    proof (rule dissect_transport_local)
      have "ip_length_ok ?bs" using len 3 by (simp only: p simp_thms)
      from ip_payload_part [OF that this] have b: "ip_header_bytes (?bs ! 0) + unat (ip_payload_len ip) \<le> ?n"
        by (simp add: length_bytes_at [OF rd(1)] del: bytes_at_Ptr)
      note pay = ip_of_bytes_fields(1) [OF that]
      show "readable m (ip_payload ip) (unat (ip_payload_len ip))" "readable m' (ip_payload ip) (unat (ip_payload_len ip))"
        unfolding pay by (rule readable_ptr_add [OF rd(1) b], rule readable_ptr_add [OF rd(2) b])
      show "bytes_at m (ip_payload ip) (unat (ip_payload_len ip)) = bytes_at m' (ip_payload ip) (unat (ip_payload_len ip))"
        unfolding pay by (rule bytes_at_sub_eq [OF eq b])
    qed
    then show ?thesis
      using 3 by (simp add: dissector_stage_ip [OF 3(1)] rd Let_def eq split: option.split)
  qed
qed


subsection \<open>Properties\<close>

text \<open>C14: With a frame admitted by the filter stage in a frame buffer of at least 94 bytes (the
  engine's has 2040), the dissector never reads outside the buffer, whatever the frame contains.\<close>

theorem dissector_memory_safe:
  assumes "filtered_ok m ff" and "94 \<le> length m"
  shows "\<exists>r. dissector_stage m ff local_ips = Some r"
  using assms by (rule dissector_no_fault)

theorem dissector_memory_safe_witness:
  "filtered_ok (replicate 2040 0xFF) \<lparr>ff_eth = \<lparr>eth_dst_mac = replicate 6 0, eth_src_mac = replicate 6 0,
      eth_ethertype = ETHERTYPE_IPV4, eth_payload = Ptr 14, eth_payload_size = 2026, eth_valid = True\<rparr>,
      ff_capture_ts_ms = 0\<rparr>
   \<and> (\<exists>r. dissector_stage (replicate 2040 0xFF) \<lparr>ff_eth = \<lparr>eth_dst_mac = replicate 6 0, eth_src_mac = replicate 6 0,
      eth_ethertype = ETHERTYPE_IPV4, eth_payload = Ptr 14, eth_payload_size = 2026, eth_valid = True\<rparr>,
      ff_capture_ts_ms = 0\<rparr> {} = Some r)"
  (is "?ok \<and> _")
proof -
  have ok: ?ok by (simp add: filtered_ok_def)
  then show ?thesis using dissector_memory_safe [OF ok, of "{}"] by simp
qed

text \<open>C28: For ARP frames, and for IPv4 packets whose \<open>total_length\<close> is at least their header
  length, the dissected frame is a function of the captured frame alone: bytes that earlier
  frames left in the frame buffer cannot influence it.\<close>

theorem dissector_depends_on_frame_only:
  assumes "filtered_ok m ff" and "filtered_ok m' ff"
    and "bytes_at m (Ptr 14) (unat (eth_payload_size (ff_eth ff))) = bytes_at m' (Ptr 14) (unat (eth_payload_size (ff_eth ff)))"
    and "eth_ethertype (ff_eth ff) = ETHERTYPE_ARP
      \<or> ip_length_ok (bytes_at m (Ptr 14) (unat (eth_payload_size (ff_eth ff))))"
  shows "dissector_stage m ff local_ips = dissector_stage m' ff local_ips"
  using assms by (rule dissector_local)

theorem dissector_depends_on_frame_only_witness:
  "dissector_stage (replicate 2040 0) \<lparr>ff_eth = \<lparr>eth_dst_mac = replicate 6 0, eth_src_mac = replicate 6 0,
      eth_ethertype = ETHERTYPE_ARP, eth_payload = Ptr 14, eth_payload_size = 1, eth_valid = True\<rparr>,
      ff_capture_ts_ms = 0\<rparr> {}
   = dissector_stage (replicate 15 0 @ replicate 2025 7) \<lparr>ff_eth = \<lparr>eth_dst_mac = replicate 6 0, eth_src_mac = replicate 6 0,
      eth_ethertype = ETHERTYPE_ARP, eth_payload = Ptr 14, eth_payload_size = 1, eth_valid = True\<rparr>,
      ff_capture_ts_ms = 0\<rparr> {}"
  by (rule dissector_depends_on_frame_only)
    (simp_all add: filtered_ok_def drop_replicate take_Cons' replicate_app_Cons_same)

text \<open>C29: The same does not hold for an IPv4 packet whose \<open>total_length\<close> is smaller than its header:
  a captured frame that ends with its 20-byte IPv4 header, protocol TCP, is admitted and
  dissected into a TCP frame whose ports, sequence number and flags are whatever bytes happen
  to follow the frame in the frame buffer, such as a segment of an earlier, longer frame.\<close>

theorem dissector_reports_stale_segment:
  assumes eth: "length eth = 14" "be16 (eth ! 12) (eth ! 13) = ETHERTYPE_IPV4"
    and hdr: "length hdr = 20" "hdr ! 0 = 0x45" "hdr ! 9 = 6" "unat (be16 (hdr ! 2) (hdr ! 3)) < 20"
    and stale: "tcp_segment_wf g"
  shows "\<exists>ff ip tcp. filter_frame ts (eth @ hdr) = Some ff
    \<and> dissector_stage ((eth @ hdr) @ tcp_wire g @ rest) ff local_ips = Some (Some (IpTcpFrame (ff_eth ff) ip tcp ts))
    \<and> tcp_src_port tcp = sg_src_port g \<and> tcp_dst_port tcp = sg_dst_port g
    \<and> tcp_seq_num tcp = sg_seq g \<and> tcp_flags tcp = sg_flag_byte g AND 0x3F"
proof -
  define ff where "ff = \<lparr>ff_eth = eth_of_frame (eth @ hdr), ff_capture_ts_ms = ts\<rparr>"
  define m where "m = (eth @ hdr) @ tcp_wire g @ rest"
  have ff: "filter_frame ts (eth @ hdr) = Some ff"
    using eth hdr by (simp add: filter_frame_def nth_append ff_def)
  have n: "unat (eth_payload_size (ff_eth ff)) = 20" "eth_payload (ff_eth ff) = Ptr 14"
    "eth_ethertype (ff_eth ff) \<noteq> ETHERTYPE_ARP" "ff_capture_ts_ms ff = ts"
    using eth hdr by (simp_all add: ff_def eth_of_frame_def nth_append ETHERTYPE_IPV4_def ETHERTYPE_ARP_def)
  have bs: "bytes_at m (Ptr 14) 20 = hdr" using eth hdr by (simp add: m_def)
  have rd: "readable m (Ptr 14) 20" using eth hdr by (simp add: m_def)
  let ?dir = "peek_direction hdr local_ips"
  have hb: "ip_header_bytes (hdr ! 0) = 20" using hdr by (simp add: ip_header_bytes_def)
  obtain ip where ip: "ip_of_bytes (Ptr 14) ?dir hdr = Some ip"
    using hdr hb by (simp add: ip_of_bytes_def Let_def)
  have pay: "ip_payload ip = Ptr 34" "ip_protocol ip = 6" "20 \<le> unat (ip_payload_len ip)" "64 \<le> unat (ip_payload_len ip)"
    using ip_of_bytes_fields(1,3) [OF ip] hb hdr ip
      unat_size_sub [of 20 "ucast (be16 (hdr ! 2) (hdr ! 3))"]
    by (auto simp: ip_of_bytes_def Let_def split: if_splits)
  have rd16: "readable m (Ptr 34) 16" using eth hdr by (simp add: m_def tcp_wire_def bytes_be16_def bytes_be32_def)
  have bs16: "bytes_at m (Ptr 34) 16 = take 16 (tcp_wire g)"
    using eth hdr by (simp add: m_def tcp_wire_def bytes_be16_def bytes_be32_def)
  obtain tcp where tcp: "tcp_of_bytes (Ptr 34) (ip_payload_len ip) (take 16 (tcp_wire g)) = Some tcp"
    "tcp_src_port tcp = sg_src_port g" "tcp_dst_port tcp = sg_dst_port g"
    "tcp_seq_num tcp = sg_seq g" "tcp_flags tcp = sg_flag_byte g AND 0x3F"
    using tcp_of_wire_prefix [OF stale, of "ip_payload_len ip" "Ptr 34"] tcp_header_bytes_less [of "sg_offset_byte g"] pay(4)
    by auto
  have "dissector_stage m ff local_ips = Some (Some (IpTcpFrame (ff_eth ff) ip tcp ts))"
    using dissector_stage_ip [of ff m local_ips] n rd ip
    by (simp add: bs Let_def dissect_transport_def pay parseTcpHeader_bytes [OF rd16] bs16 tcp(1) del: bytes_at_Ptr)
  with ff tcp show ?thesis unfolding m_def by blast
qed

theorem dissector_reports_stale_segment_witness:
  "\<exists>ff ip tcp. filter_frame 3 ([1,2,3,4,5,6,7,8,9,10,11,12,8,0] @ [0x45,0,0,0,0,0,0,0,64,6,0,0,10,0,0,1,10,0,0,2]) = Some ff
    \<and> dissector_stage (([1,2,3,4,5,6,7,8,9,10,11,12,8,0] @ [0x45,0,0,0,0,0,0,0,64,6,0,0,10,0,0,1,10,0,0,2])
        @ tcp_wire \<lparr>sg_src_port = 443, sg_dst_port = 50000, sg_seq = 7, sg_ack = 9, sg_offset_byte = 0x50,
            sg_flag_byte = 0x12, sg_window = 1024, sg_checksum = 0, sg_urgent = 0, sg_options = [], sg_data = []\<rparr>
        @ []) ff {} = Some (Some (IpTcpFrame (ff_eth ff) ip tcp 3))
    \<and> tcp_src_port tcp = 443 \<and> tcp_dst_port tcp = 50000 \<and> tcp_seq_num tcp = 7 \<and> tcp_flags tcp = 0x12"
  (is "\<exists>ff ip tcp. filter_frame 3 (?eth @ ?hdr) = _ \<and> dissector_stage ((?eth @ ?hdr) @ tcp_wire ?g @ _) _ _ = _ \<and> _")
proof -
  have "be16 (?eth ! 12) (?eth ! 13) = ETHERTYPE_IPV4" "unat (be16 (?hdr ! 2) (?hdr ! 3)) < 20" "tcp_segment_wf ?g"
    by (simp_all add: be16_def ETHERTYPE_IPV4_def tcp_segment_wf_def tcp_header_bytes_def)
  then show ?thesis
    using dissector_reports_stale_segment [of ?eth ?hdr ?g 3 "[]" "{}"] by (simp only: list.size nth_Cons_numeral) simp
qed

subsection \<open>Direction and whole packets\<close>

definition frame_ip :: "DissectedFrame \<Rightarrow> IpHeader option" where
  "frame_ip fr = (case fr of IpTcpFrame _ ip _ _ \<Rightarrow> Some ip | IpUdpFrame _ ip _ _ \<Rightarrow> Some ip
     | IpIcmpFrame _ ip _ _ \<Rightarrow> Some ip | ArpFrame _ _ _ \<Rightarrow> None | IpOtherFrame _ ip _ \<Rightarrow> Some ip)"

lemma dissect_transport_ip: "dissect_transport m eth ip ts = Some (Some fr) \<Longrightarrow> frame_ip fr = Some ip"
  by (auto simp: dissect_transport_def frame_ip_def split: if_splits)

lemma dissector_direction:
  assumes ok: "filtered_ok m ff" and d: "dissector_stage m ff local_ips = Some (Some fr)" and ip: "frame_ip fr = Some ip"
  shows "ip_direction ip = resolveDirection (ip_src_ip ip) (ip_dst_ip ip) local_ips"
proof -
  note rd = filtered_readable [OF ok]
  have arp: "eth_ethertype (ff_eth ff) \<noteq> ETHERTYPE_ARP"
    using d ip by (auto simp: dissector_stage_arp frame_ip_def)
  moreover have "20 \<le> unat (eth_payload_size (ff_eth ff))"
    using dissector_stage_short [OF arp, of m local_ips] d by (cases "unat (eth_payload_size (ff_eth ff)) < 20") auto
  ultimately obtain ip' bs where "ip_of_bytes (eth_payload (ff_eth ff)) (peek_direction bs local_ips) bs = Some ip'"
    "dissect_transport m (ff_eth ff) ip' (ff_capture_ts_ms ff) = Some (Some fr)"
    using d by (auto simp: dissector_stage_ip [OF arp rd] Let_def split: option.splits)
  with ip dissect_transport_ip show ?thesis
    using ip_of_bytes_fields(4,7,8) by (fastforce simp: peek_direction_def)
qed

text \<open>Every dissected IPv4 frame carries the direction that follows from its own addresses:
  inbound when its destination is a local address, else outbound when its source is, else
  unknown, although the direction is computed from bytes peeked at before the header is parsed.\<close>

theorem dissector_direction_of_addresses:
  assumes "filtered_ok m ff" and "dissector_stage m ff local_ips = Some (Some fr)" and "frame_ip fr = Some ip"
  shows "ip_direction ip = (if ip_dst_ip ip \<in> local_ips then Inbound
    else if ip_src_ip ip \<in> local_ips then Outbound else Unknown)"
  using dissector_direction [OF assms] by (simp add: resolveDirection_def)

theorem dissector_direction_of_addresses_witness:
  "\<exists>fr ip. dissector_stage (replicate 12 0 @ [8,0] @ [0x45,0,0,20,0,0,0,0,64,89,0,0,10,0,0,1,10,0,0,2])
      \<lparr>ff_eth = \<lparr>eth_dst_mac = replicate 6 0, eth_src_mac = replicate 6 0,
        eth_ethertype = ETHERTYPE_IPV4, eth_payload = Ptr 14, eth_payload_size = 20, eth_valid = True\<rparr>,
        ff_capture_ts_ms = 0\<rparr> {0x0A000001} = Some (Some fr) \<and> frame_ip fr = Some ip \<and> ip_direction ip = Outbound"
  (is "\<exists>fr ip. dissector_stage ?m ?ff ?loc = _ \<and> _ \<and> _")
proof -
  define m ff where "m = ?m" and "ff = ?ff"
  let ?bs = "[0x45,0,0,20,0,0,0,0,64,89,0,0,10,0,0,1,10,0,0,2] :: u8 list"
  have bs: "bytes_at m (Ptr 14) 20 = ?bs" and ok: "filtered_ok m ff"
    by (simp_all add: m_def ff_def filtered_ok_def)
  have "ip_of_bytes (Ptr 14) dir ?bs \<noteq> None" for dir
    by (simp add: ip_of_bytes_def ip_header_bytes_def be16_def)
  then obtain ip where ip: "ip_of_bytes (Ptr 14) (peek_direction ?bs ?loc) ?bs = Some ip" by blast
  then have f: "ip_protocol ip = 89" "ip_src_ip ip = 0x0A000001" "ip_dst_ip ip = 0x0A000002"
    by (auto simp: ip_of_bytes_def Let_def be32_def split: if_splits)
  have "dissector_stage m ff ?loc = Some (Some (IpOtherFrame (ff_eth ff) ip 0))"
    using dissector_stage_ip [of ff m ?loc] ok ip f
    by (simp add: ff_def filtered_ok_def bs ETHERTYPE_IPV4_def ETHERTYPE_ARP_def dissect_transport_def del: bytes_at_Ptr)
  moreover have "frame_ip (IpOtherFrame (ff_eth ff) ip 0) = Some ip" by (simp add: frame_ip_def)
  ultimately show ?thesis
    using dissector_direction_of_addresses [OF ok, of ?loc] f unfolding m_def ff_def by fastforce
qed

text \<open>An IPv4 packet in an Ethernet frame, with the padding that short frames carry.\<close>

definition packet_frame :: "MACAddress \<Rightarrow> MACAddress \<Rightarrow> ip_packet \<Rightarrow> u8 list \<Rightarrow> u8 list" where
  "packet_frame dst src k padding = ethernet_wire dst src ETHERTYPE_IPV4 @ ip_wire_header k @ pk_data k @ padding"

lemma length_ip_wire_header: "ip_packet_wf k \<Longrightarrow> length (ip_wire_header k) = 4 * unat (pk_ihl k)"
  by (simp add: ip_packet_wf_def ip_wire_header_def bytes_be16_def bytes_be32_def)

lemma packet_frame_filtered:
  assumes "ip_packet_wf k" and "length dst = 6" and "length src = 6"
  shows "filter_frame ts (packet_frame dst src k padding) = Some \<lparr>ff_eth = \<lparr>eth_dst_mac = dst, eth_src_mac = src,
      eth_ethertype = ETHERTYPE_IPV4, eth_payload = Ptr 14, eth_payload_size = of_nat (ip_packet_len k + length padding),
      eth_valid = True\<rparr>, ff_capture_ts_ms = ts\<rparr>"
proof -
  let ?f = "packet_frame dst src k padding"
  have len: "length ?f = 14 + (ip_packet_len k + length padding)"
    using assms by (simp add: packet_frame_def ethernet_wire_def bytes_be16_def length_ip_wire_header ip_packet_len_def)
  have "?f ! 12 = ucast (drop_bit 8 ETHERTYPE_IPV4)" "?f ! 13 = ucast ETHERTYPE_IPV4"
    "take 6 ?f = dst" "take 6 (drop 6 ?f) = src"
    using assms by (simp_all add: packet_frame_def ethernet_wire_def bytes_be16_def nth_append)
  moreover have "1 \<le> ip_packet_len k" using assms(1) by (simp add: ip_packet_wf_def ip_packet_len_def)
  ultimately show ?thesis using len by (simp add: filter_frame_def eth_of_frame_def)
qed

lemma dissector_packet_frame:
  assumes wf: "ip_packet_wf k" and mac: "length dst = 6" "length src = 6"
    and small: "ip_packet_len k + length padding \<le> 2026"
    and ff: "filter_frame ts (packet_frame dst src k padding) = Some ff"
  shows "dissector_stage (packet_frame dst src k padding @ rest) ff local_ips =
    dissect_transport (packet_frame dst src k padding @ rest) (ff_eth ff)
      \<lparr>ip_ihl = pk_ihl k, ip_ttl = pk_ttl k, ip_protocol = pk_protocol k, ip_src_ip = pk_src k,
       ip_dst_ip = pk_dst k, ip_total_length = of_nat (ip_packet_len k),
       ip_checksum_ok = ip_checksum_valid (ip_wire_header k),
       ip_direction = resolveDirection (pk_src k) (pk_dst k) local_ips,
       ip_payload = Ptr (14 + 4 * unat (pk_ihl k)), ip_payload_len = of_nat (length (pk_data k))\<rparr> ts"
proof -
  define m where "m = packet_frame dst src k padding @ rest"
  let ?p = "ip_wire_header k @ pk_data k @ padding"
  note ffv = packet_frame_filtered [OF wf mac, of ts padding]
  have n: "unat (eth_payload_size (ff_eth ff)) = ip_packet_len k + length padding" "eth_payload (ff_eth ff) = Ptr 14"
    "eth_ethertype (ff_eth ff) \<noteq> ETHERTYPE_ARP" "ff_capture_ts_ms ff = ts"
    using ff ffv small by (auto simp: unat_of_nat take_bit_nat_eq_self ETHERTYPE_IPV4_def ETHERTYPE_ARP_def simp del: of_nat_add)
  have lp: "length ?p = ip_packet_len k + length padding" using wf by (simp add: length_ip_wire_header ip_packet_len_def)
  have bs: "bytes_at m (Ptr 14) (ip_packet_len k + length padding) = ?p"
    using mac lp by (simp add: m_def packet_frame_def ethernet_wire_def bytes_be16_def flip: lp)
  have rd: "readable m (Ptr 14) (ip_packet_len k + length padding)"
    using mac lp by (simp add: m_def packet_frame_def ethernet_wire_def bytes_be16_def flip: lp)
  have peek: "peek_direction ?p local_ips = resolveDirection (pk_src k) (pk_dst k) local_ips"
    by (simp add: peek_direction_def ip_wire_header_def bytes_be16_def bytes_be32_def)
  have "20 \<le> ip_packet_len k + length padding" using wf by (simp add: ip_packet_wf_def ip_packet_len_def)
  then have "dissector_stage m ff local_ips = (case ip_of_bytes (Ptr 14) (peek_direction ?p local_ips) ?p of
      None \<Rightarrow> Some None | Some ip \<Rightarrow> dissect_transport m (ff_eth ff) ip ts)"
    using dissector_stage_ip [OF n(3), of m local_ips] rd by (simp only: n Let_def bs)
  then show ?thesis unfolding m_def by (simp only: peek ip_of_wire [OF wf] option.case ptr_add_simps)
qed

text \<open>The headers that dissecting such a frame yields.\<close>

definition packet_ip_header :: "ip_packet \<Rightarrow> LocalIpSet \<Rightarrow> IpHeader" where
  "packet_ip_header k local_ips = \<lparr>ip_ihl = pk_ihl k, ip_ttl = pk_ttl k, ip_protocol = pk_protocol k, ip_src_ip = pk_src k,
     ip_dst_ip = pk_dst k, ip_total_length = of_nat (ip_packet_len k), ip_checksum_ok = ip_checksum_valid (ip_wire_header k),
     ip_direction = resolveDirection (pk_src k) (pk_dst k) local_ips,
     ip_payload = Ptr (14 + 4 * unat (pk_ihl k)), ip_payload_len = of_nat (length (pk_data k))\<rparr>"

definition segment_tcp_header :: "nat \<Rightarrow> tcp_segment \<Rightarrow> TcpHeader" where
  "segment_tcp_header q g = \<lparr>tcp_src_port = sg_src_port g, tcp_dst_port = sg_dst_port g, tcp_seq_num = sg_seq g,
     tcp_data_offset = drop_bit 4 (sg_offset_byte g) AND 0x0F, tcp_flags = sg_flag_byte g AND 0x3F,
     tcp_window_size = sg_window g, tcp_payload = Ptr (q + 20 + length (sg_options g)),
     tcp_payload_len = of_nat (length (sg_data g))\<rparr>"

lemma tcp_packet_dissected:
  assumes wf: "ip_packet_wf k" and "pk_protocol k = 6" and "tcp_segment_wf g" and "pk_data k = tcp_wire g"
    and "length dst = 6" and "length src = 6" and "ip_packet_len k + length padding \<le> 2026"
    and ff: "filter_frame ts (packet_frame dst src k padding) = Some ff"
  shows "dissector_stage (packet_frame dst src k padding @ rest) ff local_ips =
    Some (Some (IpTcpFrame (ff_eth ff) (packet_ip_header k local_ips) (segment_tcp_header (14 + 4 * unat (pk_ihl k)) g) ts))"
proof -
  define m where "m = packet_frame dst src k padding @ rest"
  let ?q = "14 + 4 * unat (pk_ihl k)" and ?len = "of_nat (length (pk_data k)) :: size_t"
  have split: "m = (ethernet_wire dst src ETHERTYPE_IPV4 @ ip_wire_header k) @ tcp_wire g @ (padding @ rest)"
    and q: "?q = length (ethernet_wire dst src ETHERTYPE_IPV4 @ ip_wire_header k)"
    using assms(4-6) by (simp_all add: m_def packet_frame_def ethernet_wire_def bytes_be16_def length_ip_wire_header [OF wf])
  have len: "unat ?len = length (tcp_wire g)"
    using assms(4,7) by (simp add: unat_of_nat take_bit_nat_eq_self ip_packet_len_def)
  have "parseTcpHeader m (Ptr ?q) ?len = Some (Some (segment_tcp_header ?q g))"
    unfolding split q segment_tcp_header_def using tcp_of_segment [OF assms(3) len] .
  then show ?thesis
    using dissector_packet_frame [OF wf assms(5,6,7) ff, of rest local_ips] assms(2)
    unfolding m_def packet_ip_header_def by (simp add: dissect_transport_def)
qed

text \<open>The TCP path end to end: a TCP segment in an IPv4 packet in an Ethernet frame passes the
  filter and is dissected, whatever follows it in the frame buffer, into a TCP frame with the
  frame's MAC addresses, the packet's addresses, TTL and length, the direction of these addresses,
  the segment's ports, sequence number, window and flags, and exactly the segment's data as payload.\<close>

theorem dissect_tcp_packet:
  assumes "ip_packet_wf k" and "pk_protocol k = 6" and "tcp_segment_wf g" and "pk_data k = tcp_wire g"
    and "length dst = 6" and "length src = 6" and "ip_packet_len k + length padding \<le> 2026"
  shows "\<exists>ff ip tcp. filter_frame ts (packet_frame dst src k padding) = Some ff
    \<and> dissector_stage (packet_frame dst src k padding @ rest) ff local_ips = Some (Some (IpTcpFrame (ff_eth ff) ip tcp ts))
    \<and> eth_dst_mac (ff_eth ff) = dst \<and> eth_src_mac (ff_eth ff) = src
    \<and> ip_src_ip ip = pk_src k \<and> ip_dst_ip ip = pk_dst k \<and> ip_ttl ip = pk_ttl k
    \<and> unat (ip_total_length ip) = ip_packet_len k
    \<and> ip_direction ip = resolveDirection (pk_src k) (pk_dst k) local_ips
    \<and> tcp_src_port tcp = sg_src_port g \<and> tcp_dst_port tcp = sg_dst_port g \<and> tcp_seq_num tcp = sg_seq g
    \<and> tcp_flags tcp = sg_flag_byte g AND 0x3F \<and> tcp_window_size tcp = sg_window g
    \<and> bytes_at (packet_frame dst src k padding @ rest) (tcp_payload tcp) (unat (tcp_payload_len tcp)) = sg_data g"
proof -
  let ?m = "packet_frame dst src k padding @ rest" and ?q = "14 + 4 * unat (pk_ihl k)"
  have "length (sg_data g) \<le> length (pk_data k)" using assms(4) by (simp add: tcp_wire_def)
  then have d: "unat (of_nat (length (sg_data g)) :: size_t) = length (sg_data g)"
    using assms(7) by (simp add: unat_of_nat take_bit_nat_eq_self ip_packet_len_def)
  have tot: "unat (of_nat (ip_packet_len k) :: u16) = ip_packet_len k"
    using assms(7) by (simp add: unat_of_nat take_bit_nat_eq_self)
  have "?m = (ethernet_wire dst src ETHERTYPE_IPV4 @ ip_wire_header k) @ tcp_wire g @ (padding @ rest)"
    and "?q = length (ethernet_wire dst src ETHERTYPE_IPV4 @ ip_wire_header k)"
    using assms(4-6) by (simp_all add: packet_frame_def ethernet_wire_def bytes_be16_def length_ip_wire_header [OF assms(1)])
  then have "bytes_at ?m (Ptr (?q + 20 + length (sg_options g))) (length (sg_data g)) = sg_data g" by (simp only: tcp_wire_data)
  then show ?thesis
    using tcp_packet_dissected [OF assms packet_frame_filtered [OF assms(1,5,6)], where ts = ts and rest = rest and local_ips = local_ips]
      packet_frame_filtered [OF assms(1,5,6), of ts padding]
    by (simp add: packet_ip_header_def segment_tcp_header_def d tot del: bytes_at_Ptr)
qed

theorem dissect_tcp_packet_witness:
  "let g = \<lparr>sg_src_port = 443, sg_dst_port = 50000, sg_seq = 7, sg_ack = 9, sg_offset_byte = 0x50,
         sg_flag_byte = 0x12, sg_window = 1024, sg_checksum = 0, sg_urgent = 0, sg_options = [], sg_data = [0xAB]\<rparr>;
       k = \<lparr>pk_ihl = 5, pk_tos = 0, pk_id = 1, pk_frag = 0, pk_ttl = 64, pk_protocol = 6, pk_checksum = 0,
         pk_src = 0x0A000001, pk_dst = 0x0A000002, pk_options = [], pk_data = tcp_wire g\<rparr>;
       f = packet_frame (replicate 6 1) (replicate 6 2) k [0, 0]
   in \<exists>ff ip tcp. filter_frame 9 f = Some ff
     \<and> dissector_stage (f @ [1, 2, 3]) ff {0x0A000002} = Some (Some (IpTcpFrame (ff_eth ff) ip tcp 9))
     \<and> ip_direction ip = Inbound \<and> tcp_dst_port tcp = 50000 \<and> tcp_flags tcp = 0x12"
proof -
  let ?g = "\<lparr>sg_src_port = 443, sg_dst_port = 50000, sg_seq = 7, sg_ack = 9, sg_offset_byte = 0x50,
         sg_flag_byte = 0x12, sg_window = 1024, sg_checksum = 0, sg_urgent = 0, sg_options = [], sg_data = [0xAB]\<rparr>"
  let ?k = "\<lparr>pk_ihl = 5, pk_tos = 0, pk_id = 1, pk_frag = 0, pk_ttl = 64, pk_protocol = 6, pk_checksum = 0,
         pk_src = 0x0A000001, pk_dst = 0x0A000002, pk_options = [], pk_data = tcp_wire ?g\<rparr>"
  have "ip_packet_wf ?k" "tcp_segment_wf ?g" "ip_packet_len ?k + length [0 :: u8, 0] \<le> 2026"
    by (simp_all add: ip_packet_wf_def ip_packet_len_def tcp_segment_wf_def tcp_header_bytes_def tcp_wire_def
        bytes_be16_def bytes_be32_def)
  from dissect_tcp_packet [OF this(1) _ this(2), of "replicate 6 1" "replicate 6 2" "[0, 0]" 9 "[1, 2, 3]" "{0x0A000002}"] this(3)
  obtain ff ip tcp where "filter_frame 9 (packet_frame (replicate 6 1) (replicate 6 2) ?k [0, 0]) = Some ff"
    "dissector_stage (packet_frame (replicate 6 1) (replicate 6 2) ?k [0, 0] @ [1, 2, 3]) ff {0x0A000002}
      = Some (Some (IpTcpFrame (ff_eth ff) ip tcp 9))"
    "ip_direction ip = resolveDirection 0x0A000001 0x0A000002 {0x0A000002}" "tcp_dst_port tcp = 50000" "tcp_flags tcp = 0x12 AND 0x3F"
    by auto
  then show ?thesis unfolding Let_def by (intro exI [of _ ff] exI [of _ ip] exI [of _ tcp]) (simp add: resolveDirection_def)
qed

end
