(* ===== verification/Stats_Stage.thy ===== *)
theory Stats_Stage
  imports Dissector_Stage Text_Format
begin

unbundle bit_operations_syntax

text \<open>
  \<open>include/pipeline/stats_stage.h\<close> and \<open>src/pipeline/stats_stage.cpp\<close>: flattening a dissected
  frame into the \<open>EnrichedFrame\<close> that the flow tracker and the publisher use, and the keys that
  name a flow. The keys are shown to be unambiguous: a flow key determines both endpoints, and
  no flow key of IPv4 traffic is a flow key of ARP traffic.
\<close>

record EnrichedFrame =
  ef_timestamp :: u64
  ef_src_ip :: u32
  ef_dst_ip :: u32
  ef_protocol :: u8
  ef_packet_size :: u16
  ef_direction :: Direction
  ef_src_port :: u16
  ef_dst_port :: u16
  ef_flags :: u8
  ef_seq_num :: u32
  ef_arp_sender_ip :: u32
  ef_arp_sender_mac :: MACAddress
  ef_arp_target_ip :: u32
  ef_arp_opcode :: u16
  ef_icmp_type :: u8
  ef_icmp_code :: u8
  ef_ttl :: u8
  ef_src_mac :: MACAddress
  ef_dst_mac :: MACAddress
  ef_checksum_valid :: bool
  ef_is_retransmit :: bool
  ef_flow_key :: string

text \<open>\<open>EnrichedFrame e;\<close> with the default member initialisers.\<close>

definition new_EnrichedFrame :: EnrichedFrame where
  "new_EnrichedFrame = \<lparr>ef_timestamp = 0, ef_src_ip = 0, ef_dst_ip = 0, ef_protocol = 0, ef_packet_size = 0,
     ef_direction = Unknown, ef_src_port = 0, ef_dst_port = 0, ef_flags = 0, ef_seq_num = 0,
     ef_arp_sender_ip = 0, ef_arp_sender_mac = replicate 6 0, ef_arp_target_ip = 0, ef_arp_opcode = 0,
     ef_icmp_type = 0, ef_icmp_code = 0, ef_ttl = 0, ef_src_mac = replicate 6 0, ef_dst_mac = replicate 6 0,
     ef_checksum_valid = True, ef_is_retransmit = False, ef_flow_key = []\<rparr>"

definition ipToString :: "u32 \<Rightarrow> string" where
  "ipToString ip_host = inet_ntop (htonl_bytes ip_host)"

definition makeFlowKey :: "u32 \<Rightarrow> u16 \<Rightarrow> u32 \<Rightarrow> u16 \<Rightarrow> string" where
  "makeFlowKey src_ip src_port dst_ip dst_port =
     ipToString src_ip @ '':'' @ dec_string (unat src_port) @ ''->''
     @ ipToString dst_ip @ '':'' @ dec_string (unat dst_port)"

definition makeArpFlowKey :: "u32 \<Rightarrow> string" where
  "makeArpFlowKey sender_ip = ''ARP:'' @ ipToString sender_ip"

definition stats_stage :: "DissectedFrame \<Rightarrow> EnrichedFrame option" where
  "stats_stage dissected =
     (case dissected of
        IpTcpFrame eth ip tcp ts \<Rightarrow> Some (new_EnrichedFrame
          \<lparr>ef_timestamp := ts, ef_src_ip := ip_src_ip ip, ef_dst_ip := ip_dst_ip ip, ef_protocol := ip_protocol ip,
           ef_packet_size := ip_total_length ip, ef_direction := ip_direction ip, ef_ttl := ip_ttl ip,
           ef_src_mac := eth_src_mac eth, ef_dst_mac := eth_dst_mac eth, ef_checksum_valid := ip_checksum_ok ip,
           ef_src_port := tcp_src_port tcp, ef_dst_port := tcp_dst_port tcp, ef_flags := tcp_flags tcp,
           ef_seq_num := tcp_seq_num tcp,
           ef_flow_key := makeFlowKey (ip_src_ip ip) (tcp_src_port tcp) (ip_dst_ip ip) (tcp_dst_port tcp)\<rparr>)
      | IpUdpFrame eth ip udp ts \<Rightarrow> Some (new_EnrichedFrame
          \<lparr>ef_timestamp := ts, ef_src_ip := ip_src_ip ip, ef_dst_ip := ip_dst_ip ip, ef_protocol := ip_protocol ip,
           ef_packet_size := ip_total_length ip, ef_direction := ip_direction ip, ef_ttl := ip_ttl ip,
           ef_src_mac := eth_src_mac eth, ef_dst_mac := eth_dst_mac eth, ef_checksum_valid := ip_checksum_ok ip,
           ef_src_port := udp_src_port udp, ef_dst_port := udp_dst_port udp,
           ef_flow_key := makeFlowKey (ip_src_ip ip) (udp_src_port udp) (ip_dst_ip ip) (udp_dst_port udp)\<rparr>)
      | IpIcmpFrame eth ip icmp ts \<Rightarrow> Some (new_EnrichedFrame
          \<lparr>ef_timestamp := ts, ef_src_ip := ip_src_ip ip, ef_dst_ip := ip_dst_ip ip, ef_protocol := ip_protocol ip,
           ef_packet_size := icmp_packet_size icmp, ef_direction := ip_direction ip, ef_ttl := ip_ttl ip,
           ef_src_mac := eth_src_mac eth, ef_dst_mac := eth_dst_mac eth, ef_checksum_valid := ip_checksum_ok ip,
           ef_icmp_type := icmp_type icmp, ef_icmp_code := icmp_code icmp,
           ef_flow_key := makeFlowKey (ip_src_ip ip) 0 (ip_dst_ip ip) 0\<rparr>)
      | ArpFrame eth arp ts \<Rightarrow> Some (new_EnrichedFrame
          \<lparr>ef_timestamp := ts, ef_src_ip := arp_sender_ip arp, ef_dst_ip := arp_target_ip arp,
           ef_src_mac := eth_src_mac eth, ef_dst_mac := eth_dst_mac eth,
           ef_arp_sender_ip := arp_sender_ip arp, ef_arp_sender_mac := arp_sender_mac arp,
           ef_arp_target_ip := arp_target_ip arp, ef_arp_opcode := arp_oper arp,
           ef_flow_key := makeArpFlowKey (arp_sender_ip arp)\<rparr>)
      | IpOtherFrame eth ip ts \<Rightarrow> Some (new_EnrichedFrame
          \<lparr>ef_timestamp := ts, ef_src_ip := ip_src_ip ip, ef_dst_ip := ip_dst_ip ip, ef_protocol := ip_protocol ip,
           ef_packet_size := ip_total_length ip, ef_direction := ip_direction ip, ef_ttl := ip_ttl ip,
           ef_src_mac := eth_src_mac eth, ef_dst_mac := eth_dst_mac eth, ef_checksum_valid := ip_checksum_ok ip,
           ef_flow_key := makeFlowKey (ip_src_ip ip) 0 (ip_dst_ip ip) 0\<rparr>))"


subsection \<open>Addresses and keys can be read back\<close>

lemma not_digit_sep [simp]: "\<not> is_digit CHR ''.''" "\<not> is_digit CHR '':''" "\<not> is_digit CHR ''-''"
  by (simp_all add: is_digit_def)

lemma not_digit_A [simp]: "\<not> is_digit CHR ''A''"
  by (simp add: is_digit_def)

lemma be32_htonl_bytes:
  "be32 (htonl_bytes a ! 0) (htonl_bytes a ! 1) (htonl_bytes a ! 2) (htonl_bytes a ! 3) = a"
  by (simp add: htonl_bytes_def bytes_be32_def)

lemma ipToString_split:
  assumes "\<not> is_digit s" and "\<not> is_digit t"
  shows "ipToString a @ s # us = ipToString b @ t # vs \<longleftrightarrow> a = b \<and> s = t \<and> us = vs"
proof -
  have "a = b" if "\<forall>i \<in> {0, 1, 2, 3}. unat (htonl_bytes a ! i) = unat (htonl_bytes b ! i)"
    using that be32_htonl_bytes [of a] be32_htonl_bytes [of b] by (metis insertCI unsigned_word_eqI)
  moreover have "ipToString a @ s # us = ipToString b @ t # vs \<longleftrightarrow>
      (\<forall>i \<in> {0, 1, 2, 3}. unat (htonl_bytes a ! i) = unat (htonl_bytes b ! i)) \<and> s = t \<and> us = vs"
    using assms by (simp add: ipToString_def inet_ntop_def dec_string_split)
  ultimately show ?thesis by auto
qed

lemma ipToString_inject [simp]: "ipToString a = ipToString b \<longleftrightarrow> a = b"
  using ipToString_split [of "CHR '':''" "CHR '':''" a "[]" b "[]"] by auto

lemma makeFlowKey_inject:
  "makeFlowKey s sp d dp = makeFlowKey s' sp' d' dp' \<longleftrightarrow> s = s' \<and> sp = sp' \<and> d = d' \<and> dp = dp'"
  by (auto simp: makeFlowKey_def ipToString_split dec_string_split intro: unsigned_word_eqI)

lemma hd_dec_string: "is_digit (hd (dec_string n))"
  by (rule dec_string_digits [of _ n]) simp

lemma makeFlowKey_not_arp: "makeFlowKey s sp d dp \<noteq> makeArpFlowKey a"
proof -
  have "hd (makeFlowKey s sp d dp) = hd (dec_string (unat (htonl_bytes s ! 0)))"
    by (simp add: makeFlowKey_def ipToString_def inet_ntop_def)
  then have "is_digit (hd (makeFlowKey s sp d dp))" by (simp add: hd_dec_string)
  moreover have "\<not> is_digit (hd (makeArpFlowKey a))" by (simp add: makeArpFlowKey_def)
  ultimately show ?thesis by metis
qed

lemma makeFlowKey_nonempty [simp]: "makeFlowKey s sp d dp \<noteq> []"
  by (simp add: makeFlowKey_def)

lemma makeArpFlowKey_nonempty [simp]: "makeArpFlowKey a \<noteq> []"
  by (simp add: makeArpFlowKey_def)

lemma length_dec_byte: "length (dec_string (unat (b :: u8))) \<le> 3"
  using unat_u8_less [of b] by (intro length_dec_string_3) simp

text \<open>The 16 characters of \<open>char buf[INET_ADDRSTRLEN]\<close> are enough for an address and its terminator.\<close>

lemma ipToString_fits: "length (ipToString ip) + 1 \<le> 16"
  using length_dec_byte [of "htonl_bytes ip ! 0"] length_dec_byte [of "htonl_bytes ip ! 1"]
    length_dec_byte [of "htonl_bytes ip ! 2"] length_dec_byte [of "htonl_bytes ip ! 3"]
  by (simp add: ipToString_def inet_ntop_def)

lemma stats_stage_key:
  assumes "stats_stage fr = Some e"
  shows "ef_flow_key e \<noteq> [] \<and> \<not> ef_is_retransmit e"
  using assms by (auto simp: stats_stage_def new_EnrichedFrame_def split: DissectedFrame.splits)


subsection \<open>What a key says about a frame\<close>

text \<open>The endpoints of a frame: source and destination of an IPv4 packet, with port 0 where the
  protocol has no ports, and the sender of an ARP packet.\<close>

definition flow_endpoints :: "DissectedFrame \<Rightarrow> (u32 \<times> u16 \<times> u32 \<times> u16) + u32" where
  "flow_endpoints fr = (case fr of
      IpTcpFrame _ ip tcp _ \<Rightarrow> Inl (ip_src_ip ip, tcp_src_port tcp, ip_dst_ip ip, tcp_dst_port tcp)
    | IpUdpFrame _ ip udp _ \<Rightarrow> Inl (ip_src_ip ip, udp_src_port udp, ip_dst_ip ip, udp_dst_port udp)
    | IpIcmpFrame _ ip _ _ \<Rightarrow> Inl (ip_src_ip ip, 0, ip_dst_ip ip, 0)
    | ArpFrame _ arp _ \<Rightarrow> Inr (arp_sender_ip arp)
    | IpOtherFrame _ ip _ \<Rightarrow> Inl (ip_src_ip ip, 0, ip_dst_ip ip, 0))"

definition key_of_endpoints :: "(u32 \<times> u16 \<times> u32 \<times> u16) + u32 \<Rightarrow> string" where
  "key_of_endpoints ep = (case ep of Inl (s, sp, d, dp) \<Rightarrow> makeFlowKey s sp d dp | Inr a \<Rightarrow> makeArpFlowKey a)"

lemma key_of_endpoints_inject: "key_of_endpoints a = key_of_endpoints b \<longleftrightarrow> a = b"
  using makeFlowKey_not_arp makeFlowKey_not_arp [symmetric]
  by (auto simp: key_of_endpoints_def makeFlowKey_inject makeArpFlowKey_def split: sum.splits)

lemma stats_stage_flow_key: "stats_stage fr = Some e \<Longrightarrow> ef_flow_key e = key_of_endpoints (flow_endpoints fr)"
  by (auto simp: stats_stage_def flow_endpoints_def key_of_endpoints_def split: DissectedFrame.splits)

lemma stats_stage_key_nonempty: "stats_stage fr = Some e \<Longrightarrow> ef_flow_key e \<noteq> []"
  by (simp add: stats_stage_flow_key key_of_endpoints_def split: sum.split)

lemma stats_stage_total: "\<exists>e. stats_stage fr = Some e"
  by (cases fr) (simp_all add: stats_stage_def)

text \<open>The constructor of a dissected frame agrees with the protocol of its IP header.\<close>

definition dissected_ok :: "DissectedFrame \<Rightarrow> bool" where
  "dissected_ok fr \<longleftrightarrow> (case fr of IpTcpFrame _ ip _ _ \<Rightarrow> ip_protocol ip = 6 | IpUdpFrame _ ip _ _ \<Rightarrow> ip_protocol ip = 17
     | IpIcmpFrame _ ip _ _ \<Rightarrow> ip_protocol ip = 1 | ArpFrame _ _ _ \<Rightarrow> True
     | IpOtherFrame _ ip _ \<Rightarrow> ip_protocol ip \<notin> {1, 6, 17})"

lemma dissector_stage_ok: "dissector_stage m ff local_ips = Some (Some fr) \<Longrightarrow> dissected_ok fr"
  by (auto simp: dissector_stage_def dissected_ok_def Let_def split: if_splits option.splits Option.bind_splits)

lemma stats_stage_tcp_only:
  assumes "dissected_ok fr" and "stats_stage fr = Some e"
  shows "(\<exists>eth ip tcp ts. fr = IpTcpFrame eth ip tcp ts) \<longleftrightarrow> ef_protocol e = 6"
    and "ef_protocol e \<noteq> 6 \<Longrightarrow> ef_flags e = 0 \<and> ef_seq_num e = 0"
  using assms by (auto simp: stats_stage_def dissected_ok_def new_EnrichedFrame_def split: DissectedFrame.splits)

text \<open>MAC addresses have six bytes in a dissected frame, and every part comes from the frame given.\<close>

definition dissected_from :: "FilteredFrame \<Rightarrow> DissectedFrame \<Rightarrow> bool" where
  "dissected_from ff fr \<longleftrightarrow> (case fr of IpTcpFrame eth _ _ ts \<Rightarrow> eth = ff_eth ff \<and> ts = ff_capture_ts_ms ff
     | IpUdpFrame eth _ _ ts \<Rightarrow> eth = ff_eth ff \<and> ts = ff_capture_ts_ms ff
     | IpIcmpFrame eth _ _ ts \<Rightarrow> eth = ff_eth ff \<and> ts = ff_capture_ts_ms ff
     | ArpFrame eth arp ts \<Rightarrow> eth = ff_eth ff \<and> ts = ff_capture_ts_ms ff \<and> length (arp_sender_mac arp) = 6
     | IpOtherFrame eth _ ts \<Rightarrow> eth = ff_eth ff \<and> ts = ff_capture_ts_ms ff)"

lemma parseArpPacket_mac: "parseArpPacket m p len = Some (Some arp) \<Longrightarrow> length (arp_sender_mac arp) = 6"
  by (auto simp: parseArpPacket_def split: if_splits Option.bind_splits dest: load_bytes_length)

lemma dissector_stage_from: "dissector_stage m ff local_ips = Some (Some fr) \<Longrightarrow> dissected_from ff fr"
  by (auto simp: dissector_stage_def dissected_from_def Let_def parseArpPacket_mac split: if_splits option.splits Option.bind_splits)

text \<open>An enriched frame is well-formed, for ARP traffic or for IPv4 traffic: a field that belongs to a
  protocol has the default of \<open>new_EnrichedFrame\<close> on every frame that does not carry that protocol.\<close>

definition enriched_ok :: "bool \<Rightarrow> EnrichedFrame \<Rightarrow> bool" where
  "enriched_ok is_arp e \<longleftrightarrow> length (ef_src_mac e) = 6 \<and> length (ef_dst_mac e) = 6 \<and> length (ef_arp_sender_mac e) = 6
     \<and> ef_flow_key e \<noteq> [] \<and> \<not> ef_is_retransmit e
     \<and> (ef_protocol e \<noteq> 6 \<longrightarrow> ef_flags e = 0 \<and> ef_seq_num e = 0)
     \<and> (ef_protocol e \<notin> {6, 17} \<longrightarrow> ef_src_port e = 0 \<and> ef_dst_port e = 0)
     \<and> (ef_protocol e \<noteq> 1 \<longrightarrow> ef_icmp_type e = 0 \<and> ef_icmp_code e = 0)
     \<and> (\<not> is_arp \<longrightarrow> ef_arp_sender_ip e = 0 \<and> ef_arp_sender_mac e = replicate 6 0 \<and> ef_arp_target_ip e = 0 \<and> ef_arp_opcode e = 0)
     \<and> (is_arp \<longrightarrow> ef_protocol e = 0 \<and> ef_packet_size e = 0 \<and> ef_ttl e = 0 \<and> ef_direction e = Unknown \<and> ef_checksum_valid e
          \<and> ef_src_ip e = ef_arp_sender_ip e \<and> ef_dst_ip e = ef_arp_target_ip e)"

definition is_arp_frame :: "DissectedFrame \<Rightarrow> bool" where
  "is_arp_frame fr \<longleftrightarrow> (case fr of ArpFrame _ _ _ \<Rightarrow> True | _ \<Rightarrow> False)"

lemma dissector_stage_is_arp:
  "dissector_stage m ff local_ips = Some (Some fr) \<Longrightarrow> is_arp_frame fr \<longleftrightarrow> eth_ethertype (ff_eth ff) = ETHERTYPE_ARP"
  by (auto simp: dissector_stage_def is_arp_frame_def Let_def split: if_splits option.splits Option.bind_splits)

lemma stats_stage_enriched_ok:
  assumes "dissected_ok fr" and "dissected_from ff fr" and "length (eth_src_mac (ff_eth ff)) = 6" and "length (eth_dst_mac (ff_eth ff)) = 6"
    and "stats_stage fr = Some e"
  shows "enriched_ok (is_arp_frame fr) e \<and> ef_timestamp e = ff_capture_ts_ms ff
    \<and> ef_src_mac e = eth_src_mac (ff_eth ff) \<and> ef_dst_mac e = eth_dst_mac (ff_eth ff)"
  using assms stats_stage_key_nonempty [OF assms(5)]
  by (cases fr) (auto simp: stats_stage_def dissected_ok_def dissected_from_def enriched_ok_def is_arp_frame_def new_EnrichedFrame_def)


subsection \<open>Properties\<close>

text \<open>C27: Every dissected frame is enriched, and two frames get the same flow key exactly when they
  have the same endpoints: source and destination address and port for IPv4 (port 0 for ICMP
  and other protocols), the sender for ARP. So keys never merge different endpoints or ARP with
  IPv4; and the protocol is no part of the key, so TCP and UDP traffic between the same
  addresses and ports is one flow.\<close>

theorem flow_key_identifies_endpoints:
  "\<exists>e e'. stats_stage fr = Some e \<and> stats_stage fr' = Some e' \<and> ef_flow_key e \<noteq> []
    \<and> (ef_flow_key e = ef_flow_key e' \<longleftrightarrow> flow_endpoints fr = flow_endpoints fr')"
  using stats_stage_total [of fr] stats_stage_total [of fr'] stats_stage_flow_key stats_stage_key
  by (metis key_of_endpoints_inject)

text \<open>C26: Every enriched frame is well-formed: its MAC addresses are the six bytes each of the Ethernet
  header, it has the capture time of the frame, its protocol number is 6 exactly when the frame was
  dissected as a TCP segment, and each field that belongs to a protocol has its default on frames
  of all other protocols: flags and sequence number without TCP, ports without TCP and UDP, type and
  code without ICMP, the four ARP fields on frames whose EtherType is not ARP, and on ARP frames the
  protocol number, packet size, TTL, direction and checksum verdict of the IPv4 header.\<close>

theorem enriched_frame_type:
  assumes "filtered_ok m ff" and "dissector_stage m ff local_ips = Some (Some fr)" and "stats_stage fr = Some e"
  shows "enriched_ok (eth_ethertype (ff_eth ff) = ETHERTYPE_ARP) e \<and> ef_timestamp e = ff_capture_ts_ms ff
    \<and> ef_src_mac e = eth_src_mac (ff_eth ff) \<and> ef_dst_mac e = eth_dst_mac (ff_eth ff)
    \<and> (ef_protocol e = 6 \<longleftrightarrow> (\<exists>eth ip tcp ts. fr = IpTcpFrame eth ip tcp ts))"
  using stats_stage_enriched_ok [OF dissector_stage_ok [OF assms(2)] dissector_stage_from [OF assms(2)] _ _ assms(3)]
    stats_stage_tcp_only(1) [OF dissector_stage_ok [OF assms(2)] assms(3)] assms(1)
  by (simp add: filtered_ok_def dissector_stage_is_arp [OF assms(2)])

text \<open>An ARP request and what the filter stage makes of it.\<close>

definition arp_request :: "u8 list" where
  "arp_request = replicate 12 0 @ [8,6] @ [0,1,8,0,6,4,0,1,1,2,3,4,5,6,10,0,0,1,0,0,0,0,0,0,10,0,0,2]"

definition arp_request_filtered :: FilteredFrame where
  "arp_request_filtered = \<lparr>ff_eth = \<lparr>eth_dst_mac = replicate 6 0, eth_src_mac = replicate 6 0,
     eth_ethertype = ETHERTYPE_ARP, eth_payload = Ptr 14, eth_payload_size = 28, eth_valid = True\<rparr>, ff_capture_ts_ms = 77\<rparr>"

lemma arp_request_filtered_ok:
  "filtered_ok arp_request arp_request_filtered" "eth_ethertype (ff_eth arp_request_filtered) = ETHERTYPE_ARP"
  by (simp_all add: filtered_ok_def arp_request_def arp_request_filtered_def)

lemma arp_request_dissected:
  obtains fr e where "dissector_stage arp_request arp_request_filtered {} = Some (Some fr)" "stats_stage fr = Some e"
proof -
  have "\<exists>fr. dissector_stage arp_request arp_request_filtered {} = Some (Some fr)"
    by (simp add: arp_request_def arp_request_filtered_def dissector_stage_arp parseArpPacket_def readBe_loads
        readBe_loads [where k = 0, simplified] load_Ptr load_bytes_Ptr nth_append be16_def be32_def ARP_HTYPE_ETHERNET_def ARP_PTYPE_IPV4_def)
  then show thesis using stats_stage_total that by blast
qed

theorem enriched_frame_type_witness:
  "\<exists>fr e. dissector_stage arp_request arp_request_filtered {} = Some (Some fr) \<and> stats_stage fr = Some e \<and> enriched_ok True e
     \<and> ef_timestamp e = 77 \<and> ef_ttl e = 0"
proof -
  obtain fr e where fr: "dissector_stage arp_request arp_request_filtered {} = Some (Some fr)" "stats_stage fr = Some e"
    by (rule arp_request_dissected)
  from enriched_frame_type [OF arp_request_filtered_ok(1) fr] have "enriched_ok True e" "ef_timestamp e = 77"
    by (simp_all add: arp_request_filtered_def)
  then show ?thesis using fr by (auto simp: enriched_ok_def)
qed

end
