(* ===== verification/Flow_Tracker.thy ===== *)
theory Flow_Tracker
  imports Stats_Stage
begin

unbundle bit_operations_syntax

text \<open>
  \<open>include/pipeline/flow_tracker.h\<close> and \<open>src/pipeline/flow_tracker.cpp\<close>: the table of flows and
  the statistics kept for each. The interface of the table is the locale \<open>keyed_store\<close>: an update
  with a frame changes the record of that frame's key by one step and no other record, so after
  any sequence of updates each record is the fold of the steps of its own frames. On top of it,
  the record of a flow is shown to be a closed-form summary (\<open>flow_summary\<close>) of the frames of
  the flow. The mutex of the table serialises the calls; every call below is one critical section.
\<close>

record FlowRecord =
  fl_flow_key :: string
  fl_first_seen_ms :: u64
  fl_last_seen_ms :: u64
  fl_total_bytes :: u64
  fl_inbound_bytes :: u64
  fl_outbound_bytes :: u64
  fl_syn_count :: u32
  fl_syn_ack_count :: u32
  fl_rst_count :: u32
  fl_retransmit_count :: u32
  fl_retransmit_set :: "u32 set"

definition new_FlowRecord :: FlowRecord where
  "new_FlowRecord = \<lparr>fl_flow_key = [], fl_first_seen_ms = 0, fl_last_seen_ms = 0, fl_total_bytes = 0,
     fl_inbound_bytes = 0, fl_outbound_bytes = 0, fl_syn_count = 0, fl_syn_ack_count = 0, fl_rst_count = 0,
     fl_retransmit_count = 0, fl_retransmit_set = {}\<rparr>"

type_synonym FlowTable = "string \<rightharpoonup> FlowRecord"

text \<open>The statements of \<open>FlowTable::update\<close> on the record \<open>rec\<close>: the new record and \<open>out_is_retransmit\<close>.\<close>

definition update_record :: "EnrichedFrame \<Rightarrow> FlowRecord \<Rightarrow> FlowRecord \<times> bool" where
  "update_record frame rec0 =
     (let rec1 = (if fl_flow_key rec0 = []
            then rec0\<lparr>fl_flow_key := ef_flow_key frame, fl_first_seen_ms := ef_timestamp frame\<rparr> else rec0);
          rec2 = rec1\<lparr>fl_last_seen_ms := ef_timestamp frame,
            fl_total_bytes := fl_total_bytes rec1 + ucast (ef_packet_size frame)\<rparr>;
          rec3 = (if ef_direction frame = Inbound
              then rec2\<lparr>fl_inbound_bytes := fl_inbound_bytes rec2 + ucast (ef_packet_size frame)\<rparr>
            else if ef_direction frame = Outbound
              then rec2\<lparr>fl_outbound_bytes := fl_outbound_bytes rec2 + ucast (ef_packet_size frame)\<rparr>
            else rec2)
      in if ef_protocol frame = 6 then
           let rec4 = (if ef_flags frame AND TcpFlags_SYN \<noteq> 0 then
                   if ef_flags frame AND TcpFlags_ACK \<noteq> 0
                   then rec3\<lparr>fl_syn_ack_count := fl_syn_ack_count rec3 + 1\<rparr>
                   else rec3\<lparr>fl_syn_count := fl_syn_count rec3 + 1\<rparr>
                 else rec3);
               rec5 = (if ef_flags frame AND TcpFlags_RST \<noteq> 0
                 then rec4\<lparr>fl_rst_count := fl_rst_count rec4 + 1\<rparr> else rec4)
           in if ef_seq_num frame \<noteq> 0 then
                if ef_seq_num frame \<in> fl_retransmit_set rec5
                then (rec5\<lparr>fl_retransmit_count := fl_retransmit_count rec5 + 1\<rparr>, True)
                else (rec5\<lparr>fl_retransmit_set := insert (ef_seq_num frame) (fl_retransmit_set rec5)\<rparr>, False)
              else (rec5, False)
         else (rec3, False))"

definition FlowTable_update :: "EnrichedFrame \<Rightarrow> FlowTable \<Rightarrow> FlowTable \<times> bool" where
  "FlowTable_update frame table =
     (let rec0 = (case table (ef_flow_key frame) of None \<Rightarrow> new_FlowRecord | Some r \<Rightarrow> r);
          (r, out_is_retransmit) = update_record frame rec0
      in (table(ef_flow_key frame \<mapsto> r), out_is_retransmit))"

definition FlowTable_get :: "FlowTable \<Rightarrow> string \<Rightarrow> FlowRecord" where
  "FlowTable_get table flow_key = (case table flow_key of None \<Rightarrow> new_FlowRecord | Some r \<Rightarrow> r)"

definition flow_tracker :: "EnrichedFrame \<Rightarrow> FlowTable \<Rightarrow> FlowRecord \<times> FlowTable \<times> bool" where
  "flow_tracker frame table =
     (let (table', out_is_retransmit) = FlowTable_update frame table
      in (FlowTable_get table' (ef_flow_key frame), table', out_is_retransmit))"


subsection \<open>The interface of the table\<close>

locale keyed_store =
  fixes lookup :: "'t \<Rightarrow> 'k \<Rightarrow> 'r" and upd :: "'f \<Rightarrow> 't \<Rightarrow> 't" and key :: "'f \<Rightarrow> 'k" and step :: "'f \<Rightarrow> 'r \<Rightarrow> 'r"
  assumes lookup_same: "lookup (upd f t) (key f) = step f (lookup t (key f))"
    and lookup_other: "k \<noteq> key f \<Longrightarrow> lookup (upd f t) k = lookup t k"
begin

lemma lookup_fold: "lookup (fold upd fs t) k = fold step (filter (\<lambda>f. key f = k) fs) (lookup t k)"
proof (induction fs arbitrary: t)
  case Nil
  then show ?case by simp
next
  case (Cons f fs)
  then show ?case by (cases "key f = k") (auto simp: lookup_same lookup_other)
qed

text \<open>Updates with frames of different flows commute, as far as lookups can tell.\<close>

lemma lookup_commute:
  "key f \<noteq> key g \<Longrightarrow> lookup (upd f (upd g t)) k = lookup (upd g (upd f t)) k"
  by (cases "k = key f"; cases "k = key g") (auto simp: lookup_same lookup_other)

end

definition table_step :: "EnrichedFrame \<Rightarrow> FlowTable \<Rightarrow> FlowTable" where
  "table_step f t = fst (snd (flow_tracker f t))"

lemma table_step_update: "table_step f t = fst (FlowTable_update f t)"
  by (simp add: table_step_def flow_tracker_def split: prod.split)

interpretation flows: keyed_store FlowTable_get table_step ef_flow_key "\<lambda>f r. fst (update_record f r)"
  by unfold_locales
    (auto simp: table_step_update FlowTable_update_def FlowTable_get_def split: option.splits prod.split)

lemma flow_tracker_result:
  "flow_tracker f t = (fst (update_record f (FlowTable_get t (ef_flow_key f))), table_step f t,
     snd (update_record f (FlowTable_get t (ef_flow_key f))))"
  by (auto simp: flow_tracker_def table_step_def FlowTable_update_def FlowTable_get_def split: option.splits prod.split)


subsection \<open>The summary of a flow\<close>

text \<open>Selections on the frames of one flow.\<close>

definition dir_bytes :: "Direction \<Rightarrow> EnrichedFrame list \<Rightarrow> u64" where
  "dir_bytes d fs = sum_list (map (\<lambda>f. ucast (ef_packet_size f)) (filter (\<lambda>f. ef_direction f = d) fs))"

definition all_bytes :: "EnrichedFrame list \<Rightarrow> u64" where
  "all_bytes fs = sum_list (map (\<lambda>f. ucast (ef_packet_size f)) fs)"

definition is_syn :: "EnrichedFrame \<Rightarrow> bool" where
  "is_syn f \<longleftrightarrow> ef_protocol f = 6 \<and> ef_flags f AND TcpFlags_SYN \<noteq> 0 \<and> ef_flags f AND TcpFlags_ACK = 0"

definition is_syn_ack :: "EnrichedFrame \<Rightarrow> bool" where
  "is_syn_ack f \<longleftrightarrow> ef_protocol f = 6 \<and> ef_flags f AND TcpFlags_SYN \<noteq> 0 \<and> ef_flags f AND TcpFlags_ACK \<noteq> 0"

definition is_rst :: "EnrichedFrame \<Rightarrow> bool" where
  "is_rst f \<longleftrightarrow> ef_protocol f = 6 \<and> ef_flags f AND TcpFlags_RST \<noteq> 0"

text \<open>The sequence numbers a flow has shown, in order; 0 is never recorded.\<close>

definition seqs :: "EnrichedFrame list \<Rightarrow> u32 list" where
  "seqs fs = map ef_seq_num (filter (\<lambda>f. ef_protocol f = 6 \<and> ef_seq_num f \<noteq> 0) fs)"

definition count_if :: "('a \<Rightarrow> bool) \<Rightarrow> 'a list \<Rightarrow> u32" where
  "count_if P xs = of_nat (length (filter P xs))"

text \<open>The statistics of a flow as a function of its non-empty list of frames, oldest first.\<close>

definition flow_summary :: "EnrichedFrame list \<Rightarrow> FlowRecord" where
  "flow_summary fs = \<lparr>fl_flow_key = ef_flow_key (hd fs), fl_first_seen_ms = ef_timestamp (hd fs),
     fl_last_seen_ms = ef_timestamp (last fs), fl_total_bytes = all_bytes fs,
     fl_inbound_bytes = dir_bytes Inbound fs, fl_outbound_bytes = dir_bytes Outbound fs,
     fl_syn_count = count_if is_syn fs, fl_syn_ack_count = count_if is_syn_ack fs, fl_rst_count = count_if is_rst fs,
     fl_retransmit_count = of_nat (length (seqs fs) - card (set (seqs fs))),
     fl_retransmit_set = set (seqs fs)\<rparr>"

lemmas flow_summary_defs = all_bytes_def dir_bytes_def is_syn_def is_syn_ack_def is_rst_def count_if_def

lemma seqs_snoc: "seqs (fs @ [f]) = seqs fs @ (if ef_protocol f = 6 \<and> ef_seq_num f \<noteq> 0 then [ef_seq_num f] else [])"
  by (simp add: seqs_def)

lemma update_record_flag:
  "snd (update_record f r) \<longleftrightarrow> ef_protocol f = 6 \<and> ef_seq_num f \<noteq> 0 \<and> ef_seq_num f \<in> fl_retransmit_set r"
  by (simp add: update_record_def Let_def)

lemma update_record_fields:
  "fl_flow_key (fst (update_record f r)) = (if fl_flow_key r = [] then ef_flow_key f else fl_flow_key r)"
  "fl_first_seen_ms (fst (update_record f r)) = (if fl_flow_key r = [] then ef_timestamp f else fl_first_seen_ms r)"
  "fl_last_seen_ms (fst (update_record f r)) = ef_timestamp f"
  "fl_total_bytes (fst (update_record f r)) = fl_total_bytes r + all_bytes [f]"
  "fl_inbound_bytes (fst (update_record f r)) = fl_inbound_bytes r + dir_bytes Inbound [f]"
  "fl_outbound_bytes (fst (update_record f r)) = fl_outbound_bytes r + dir_bytes Outbound [f]"
  "fl_syn_count (fst (update_record f r)) = fl_syn_count r + count_if is_syn [f]"
  "fl_syn_ack_count (fst (update_record f r)) = fl_syn_ack_count r + count_if is_syn_ack [f]"
  "fl_rst_count (fst (update_record f r)) = fl_rst_count r + count_if is_rst [f]"
  "fl_retransmit_count (fst (update_record f r)) =
     fl_retransmit_count r + (if snd (update_record f r) then 1 else 0)"
  "fl_retransmit_set (fst (update_record f r)) = fl_retransmit_set r \<union> set (seqs [f])"
  unfolding update_record_def Let_def
  by (simp_all add: if_distrib [of fst] if_distrib [of snd] if_distrib [of fl_flow_key] if_distrib [of fl_first_seen_ms]
      if_distrib [of fl_last_seen_ms] if_distrib [of fl_total_bytes] if_distrib [of fl_inbound_bytes]
      if_distrib [of fl_outbound_bytes] if_distrib [of fl_syn_count] if_distrib [of fl_syn_ack_count]
      if_distrib [of fl_rst_count] if_distrib [of fl_retransmit_count] if_distrib [of fl_retransmit_set]
      flow_summary_defs seqs_def insert_absorb cong: if_cong split del: if_split)
    (simp_all add: insert_absorb)

lemma summary_step:
  "all_bytes (fs @ [f]) = all_bytes fs + all_bytes [f]" "dir_bytes d (fs @ [f]) = dir_bytes d fs + dir_bytes d [f]"
  "count_if P (fs @ [f]) = count_if P fs + count_if P [f]"
  by (simp_all add: flow_summary_defs)

lemma retransmits_snoc:
  "length (seqs (fs @ [f])) - card (set (seqs (fs @ [f]))) =
     length (seqs fs) - card (set (seqs fs))
     + (if ef_protocol f = 6 \<and> ef_seq_num f \<noteq> 0 \<and> ef_seq_num f \<in> set (seqs fs) then 1 else 0)"
  using card_length [of "seqs fs"]
  by (cases "ef_protocol f = 6 \<and> ef_seq_num f \<noteq> 0")
    (simp_all only: seqs_snoc if_True if_False, auto simp: insert_absorb Suc_diff_le)

lemma update_record_first:
  "ef_flow_key f \<noteq> [] \<Longrightarrow> fst (update_record f new_FlowRecord) = flow_summary [f]"
  by (rule FlowRecord.equality)
    (simp_all add: update_record_fields update_record_flag new_FlowRecord_def flow_summary_def, simp add: seqs_def)

lemma update_record_next:
  assumes "fs \<noteq> []" and "ef_flow_key (hd fs) \<noteq> []"
  shows "fst (update_record f (flow_summary fs)) = flow_summary (fs @ [f])"
  using assms
  by (intro FlowRecord.equality)
    (simp_all add: update_record_fields update_record_flag flow_summary_def summary_step retransmits_snoc, simp add: seqs_def)

lemma fold_update_record:
  assumes "fs \<noteq> []" and "\<forall>f \<in> set fs. ef_flow_key f \<noteq> []"
  shows "fold (\<lambda>f r. fst (update_record f r)) fs new_FlowRecord = flow_summary fs"
  using assms
proof (induction fs rule: rev_induct)
  case Nil
  then show ?case by simp
next
  case (snoc f fs)
  then show ?case
    by (cases "fs = []") (auto simp: update_record_first update_record_next)
qed

lemma flow_run_get:
  assumes "\<forall>f \<in> set fs. ef_flow_key f \<noteq> []"
  shows "FlowTable_get (fold table_step fs Map.empty) k =
    (if \<exists>f \<in> set fs. ef_flow_key f = k then flow_summary (filter (\<lambda>f. ef_flow_key f = k) fs) else new_FlowRecord)"
proof -
  let ?own = "filter (\<lambda>f. ef_flow_key f = k) fs"
  have run: "FlowTable_get (fold table_step fs Map.empty) k = fold (\<lambda>f r. fst (update_record f r)) ?own new_FlowRecord"
    using flows.lookup_fold [of fs Map.empty k] by (simp add: FlowTable_get_def)
  show ?thesis
  proof (cases "?own = []")
    case True
    with run show ?thesis by (auto simp: filter_empty_conv)
  next
    case False
    then have "fold (\<lambda>f r. fst (update_record f r)) ?own new_FlowRecord = flow_summary ?own"
      using assms by (intro fold_update_record) auto
    with run False show ?thesis by (auto simp: filter_empty_conv)
  qed
qed


lemma unat_sum_sizes:
  "length fs < 2 ^ 48 \<Longrightarrow>
     unat (\<Sum>f\<leftarrow>fs. ucast (ef_packet_size f) :: u64) = (\<Sum>f\<leftarrow>fs. unat (ef_packet_size f))"
proof (induction fs)
  case Nil
  then show ?case by simp
next
  case (Cons f fs)
  have "(\<Sum>f\<leftarrow>fs. unat (ef_packet_size f)) \<le> length fs * 65535"
  proof (induction fs)
    case (Cons f fs)
    then show ?case using unat_u16_less [of "ef_packet_size f"] by simp
  qed simp
  then have "unat (ef_packet_size f) + (\<Sum>f\<leftarrow>fs. unat (ef_packet_size f)) < 2 ^ 64"
    using unat_u16_less [of "ef_packet_size f"] Cons.prems by simp
  with Cons show ?case by (simp add: unat_word_ariths)
qed


lemma summary_bytes:
  assumes "length fs < 2 ^ 48"
  shows "unat (all_bytes fs) = (\<Sum>f\<leftarrow>fs. unat (ef_packet_size f))"
    and "unat (dir_bytes Inbound fs) + unat (dir_bytes Outbound fs)
      = (\<Sum>f\<leftarrow>filter (\<lambda>f. ef_direction f \<noteq> Unknown) fs. unat (ef_packet_size f))"
proof -
  let ?s = "\<lambda>P. \<Sum>f\<leftarrow>filter P fs. unat (ef_packet_size f)"
  show "unat (all_bytes fs) = (\<Sum>f\<leftarrow>fs. unat (ef_packet_size f))" unfolding all_bytes_def by (rule unat_sum_sizes [OF assms])
  have dir: "unat (dir_bytes d fs) = ?s (\<lambda>f. ef_direction f = d)" for d
    using assms length_filter_le [of "\<lambda>f. ef_direction f = d" fs] unfolding dir_bytes_def by (intro unat_sum_sizes) linarith
  have "?s (\<lambda>f. ef_direction f = Inbound) + ?s (\<lambda>f. ef_direction f = Outbound) = ?s (\<lambda>f. ef_direction f \<noteq> Unknown)"
    by (induction fs) (auto intro: Direction.exhaust)
  then show "unat (dir_bytes Inbound fs) + unat (dir_bytes Outbound fs) = ?s (\<lambda>f. ef_direction f \<noteq> Unknown)" by (simp add: dir)
qed


subsection \<open>Properties\<close>

text \<open>C9: The flow table implements its specification: after any sequence of tracked frames, the
  record returned for the newest frame is the summary of exactly the frames with that frame's
  key, in order: byte totals per direction (modulo \<open>2 ^ 64\<close>), SYN, SYN-ACK and RST counts (modulo
  \<open>2 ^ 32\<close>), first and last capture time, and the number of repeated TCP sequence numbers. The
  frame is reported as a retransmit exactly when it is a TCP frame whose non-zero sequence
  number an earlier frame of the same flow already had.\<close>

theorem flow_tracker_refines_summary:
  assumes "\<forall>f \<in> set (fs @ [g]). ef_flow_key f \<noteq> []"
  shows "\<exists>t. flow_tracker g (fold table_step fs Map.empty) =
    (flow_summary (filter (\<lambda>f. ef_flow_key f = ef_flow_key g) fs @ [g]), t,
     ef_protocol g = 6 \<and> ef_seq_num g \<noteq> 0
     \<and> (\<exists>f \<in> set fs. ef_flow_key f = ef_flow_key g \<and> ef_protocol f = 6 \<and> ef_seq_num f = ef_seq_num g))"
proof -
  let ?t = "fold table_step fs Map.empty" and ?k = "ef_flow_key g"
  let ?own = "filter (\<lambda>f. ef_flow_key f = ?k) fs"
  have "fst (update_record g (FlowTable_get ?t ?k)) = FlowTable_get (fold table_step (fs @ [g]) Map.empty) ?k"
    by (simp add: flows.lookup_same)
  also have "\<dots> = flow_summary (?own @ [g])" using flow_run_get [OF assms, of ?k] by simp
  finally have rec: "fst (update_record g (FlowTable_get ?t ?k)) = flow_summary (?own @ [g])" .
  have "FlowTable_get ?t ?k = (if ?own = [] then new_FlowRecord else flow_summary ?own)"
    using flow_run_get [of fs ?k] assms by (auto simp: filter_empty_conv)
  then have "fl_retransmit_set (FlowTable_get ?t ?k) = set (seqs ?own)"
    by (cases "?own = []") (simp_all add: flow_summary_def new_FlowRecord_def seqs_def)
  then show ?thesis using rec by (auto simp: flow_tracker_result update_record_flag seqs_def image_iff)
qed

text \<open>Tracking a frame never touches another flow: the record stored under any other key is
  unchanged, so frames of different flows can be tracked in either order.\<close>

theorem flow_tracker_isolates_flows:
  assumes "ef_flow_key f \<noteq> ef_flow_key g"
  shows "FlowTable_get (fst (snd (flow_tracker f t))) (ef_flow_key g) = FlowTable_get t (ef_flow_key g)
    \<and> FlowTable_get (fst (snd (flow_tracker f (fst (snd (flow_tracker g t)))))) k
      = FlowTable_get (fst (snd (flow_tracker g (fst (snd (flow_tracker f t)))))) k"
  using flows.lookup_other [of "ef_flow_key g" f t] flows.lookup_commute [OF assms, of t k] assms
  by (simp add: table_step_def)

theorem flow_tracker_isolates_flows_witness:
  "FlowTable_get (fst (snd (flow_tracker (new_EnrichedFrame\<lparr>ef_flow_key := ''a'', ef_packet_size := 60\<rparr>) Map.empty))) ''b''
    = new_FlowRecord"
  using flow_tracker_isolates_flows [of "new_EnrichedFrame\<lparr>ef_flow_key := ''a'', ef_packet_size := 60\<rparr>"
      "new_EnrichedFrame\<lparr>ef_flow_key := ''b''\<rparr>" Map.empty]
  by (simp add: FlowTable_get_def)

theorem flow_tracker_refines_summary_witness:
  "\<exists>t. flow_tracker (new_EnrichedFrame\<lparr>ef_flow_key := ''a'', ef_protocol := 6, ef_seq_num := 9, ef_packet_size := 40\<rparr>)
      (fold table_step [new_EnrichedFrame\<lparr>ef_flow_key := ''a'', ef_protocol := 6, ef_seq_num := 9, ef_packet_size := 60\<rparr>,
         new_EnrichedFrame\<lparr>ef_flow_key := ''b'', ef_protocol := 6, ef_seq_num := 9, ef_packet_size := 70\<rparr>] Map.empty)
    = (new_FlowRecord\<lparr>fl_flow_key := ''a'', fl_total_bytes := 100, fl_retransmit_count := 1, fl_retransmit_set := {9}\<rparr>, t, True)"
proof -
  let ?g = "new_EnrichedFrame\<lparr>ef_flow_key := ''a'', ef_protocol := 6, ef_seq_num := 9, ef_packet_size := 40\<rparr>"
  let ?f = "new_EnrichedFrame\<lparr>ef_flow_key := ''a'', ef_protocol := 6, ef_seq_num := 9, ef_packet_size := 60\<rparr>"
  let ?o = "new_EnrichedFrame\<lparr>ef_flow_key := ''b'', ef_protocol := 6, ef_seq_num := 9, ef_packet_size := 70\<rparr>"
  have "flow_summary [?f, ?g] = new_FlowRecord\<lparr>fl_flow_key := ''a'', fl_total_bytes := 100,
      fl_retransmit_count := 1, fl_retransmit_set := {9}\<rparr>"
    by (simp add: flow_summary_def flow_summary_defs new_EnrichedFrame_def new_FlowRecord_def seqs_def)
  then show ?thesis using flow_tracker_refines_summary [of "[?f, ?o]" ?g] by simp
qed

text \<open>C30: The byte counters are exact: while a flow has fewer than \<open>2 ^ 48\<close> frames none of its
  counters wraps around, the total is the sum of the packet sizes of its frames, and inbound and
  outbound bytes together are the sizes of its frames with a known direction.\<close>

theorem flow_byte_counters_exact:
  assumes "\<forall>f \<in> set fs. ef_flow_key f \<noteq> []" and "length fs < 2 ^ 48"
    and "r = FlowTable_get (fold (\<lambda>f t. fst (FlowTable_update f t)) fs Map.empty) k"
  shows "unat (fl_total_bytes r) = (\<Sum>f\<leftarrow>filter (\<lambda>f. ef_flow_key f = k) fs. unat (ef_packet_size f))
    \<and> unat (fl_inbound_bytes r) + unat (fl_outbound_bytes r)
      = (\<Sum>f\<leftarrow>filter (\<lambda>f. ef_flow_key f = k \<and> ef_direction f \<noteq> Unknown) fs. unat (ef_packet_size f))"
proof -
  let ?own = "filter (\<lambda>f. ef_flow_key f = k) fs"
  have "table_step = (\<lambda>f t. fst (FlowTable_update f t))" by (simp add: fun_eq_iff table_step_update)
  then have r: "r = (if ?own = [] then new_FlowRecord else flow_summary ?own)"
    using flow_run_get [OF assms(1), of k] assms(3) by (auto simp: filter_empty_conv)
  have "length ?own < 2 ^ 48" using assms(2) length_filter_le [of "\<lambda>f. ef_flow_key f = k" fs] by linarith
  note b = summary_bytes [OF this]
  have both: "filter (\<lambda>f. ef_flow_key f = k \<and> ef_direction f \<noteq> Unknown) fs = filter (\<lambda>f. ef_direction f \<noteq> Unknown) ?own"
    by (simp add: conj_commute)
  show ?thesis
    by (cases "?own = []") (simp_all add: r both b new_FlowRecord_def flow_summary_def del: filter_filter)
qed

theorem flow_byte_counters_exact_witness:
  "unat (fl_total_bytes (FlowTable_get (fold (\<lambda>f t. fst (FlowTable_update f t))
      [new_EnrichedFrame\<lparr>ef_flow_key := ''a'', ef_packet_size := 65535, ef_direction := Inbound\<rparr>,
       new_EnrichedFrame\<lparr>ef_flow_key := ''a'', ef_packet_size := 65535\<rparr>,
       new_EnrichedFrame\<lparr>ef_flow_key := ''b'', ef_packet_size := 7\<rparr>] Map.empty) ''a'')) = 131070"
  using flow_byte_counters_exact [OF _ _ refl, of "[new_EnrichedFrame\<lparr>ef_flow_key := ''a'', ef_packet_size := 65535, ef_direction := Inbound\<rparr>,
       new_EnrichedFrame\<lparr>ef_flow_key := ''a'', ef_packet_size := 65535\<rparr>,
       new_EnrichedFrame\<lparr>ef_flow_key := ''b'', ef_packet_size := 7\<rparr>]" "''a''"] by simp

end
