(* ===== verification/Publisher_Json.thy ===== *)
theory Publisher_Json
  imports Flow_Tracker
begin

unbundle bit_operations_syntax

text \<open>
  The text side of \<open>src/publishers/rabbitmq_publisher.cpp\<close>: the helpers that print addresses,
  directions and protocols, and \<open>RabbitMqPublisher::buildJson\<close>. The specification side is a parser
  for flat JSON objects (RFC 8259 without nesting, escapes and fractions); the text that
  \<open>buildJson\<close> concatenates by hand is shown to be accepted by it and to carry the right values.
\<close>

definition ipToStr :: "u32 \<Rightarrow> string" where
  "ipToStr ip_host = inet_ntop (htonl_bytes ip_host)"

definition macToStr :: "MACAddress \<Rightarrow> string" where
  "macToStr mac = concat (map (\<lambda>i. (if i > 0 then '':'' else []) @ hex2 (mac ! i)) [0..<6])"

definition directionStr :: "Direction \<Rightarrow> string" where
  \<open>directionStr d = (case d of Inbound \<Rightarrow> ''"inbound"'' | Outbound \<Rightarrow> ''"outbound"'' | Unknown \<Rightarrow> ''null'')\<close>

definition protocolToStr :: "u8 \<Rightarrow> string" where
  "protocolToStr proto =
     (if proto = 6 then ''TCP'' else if proto = 17 then ''UDP'' else if proto = 1 then ''ICMP''
      else if proto = 0 then ''ARP'' else ''OTHER'')"

definition buildJson :: "EnrichedFrame \<Rightarrow> FlowRecord \<Rightarrow> bool \<Rightarrow> string" where
  \<open>buildJson f flow is_retransmit =
     ''{''
     @ ''"flow_key":''       @ ''"'' @ ef_flow_key f @ ''",''
     @ ''"timestamp":''      @ dec_string (unat (ef_timestamp f)) @ '',''
     @ ''"src_ip":''         @ ''"'' @ ipToStr (ef_src_ip f) @ ''",''
     @ ''"dst_ip":''         @ ''"'' @ ipToStr (ef_dst_ip f) @ ''",''
     @ ''"protocol":''       @ ''"'' @ protocolToStr (ef_protocol f) @ ''",''
     @ ''"packet_size":''    @ dec_string (unat (ef_packet_size f)) @ '',''
     @ ''"direction":''      @ directionStr (ef_direction f) @ '',''
     @ ''"ttl":''            @ dec_string (unat (ef_ttl f)) @ '',''
     @ ''"src_mac":''        @ ''"'' @ macToStr (ef_src_mac f) @ ''",''
     @ ''"dst_mac":''        @ ''"'' @ macToStr (ef_dst_mac f) @ ''",''
     @ ''"checksum_valid":'' @ (if ef_checksum_valid f then ''true'' else ''false'') @ '',''
     @ ''"src_port":''       @ dec_string (unat (ef_src_port f)) @ '',''
     @ ''"dst_port":''       @ dec_string (unat (ef_dst_port f)) @ '',''
     @ ''"flags":''          @ dec_string (unat (ef_flags f)) @ '',''
     @ ''"seq_num":''        @ dec_string (unat (ef_seq_num f)) @ '',''
     @ ''"is_retransmit":''  @ (if is_retransmit then ''true'' else ''false'') @ '',''
     @ ''"icmp_type":''      @ dec_string (unat (ef_icmp_type f)) @ '',''
     @ ''"icmp_code":''      @ dec_string (unat (ef_icmp_code f)) @ '',''
     @ ''"arp_opcode":''     @ dec_string (unat (ef_arp_opcode f)) @ '',''
     @ ''"arp_sender_ip":''  @ ''"'' @ ipToStr (ef_arp_sender_ip f) @ ''",''
     @ ''"arp_sender_mac":'' @ ''"'' @ macToStr (ef_arp_sender_mac f) @ ''",''
     @ ''"arp_target_ip":''  @ ''"'' @ ipToStr (ef_arp_target_ip f) @ ''",''
     @ ''"first_seen":''     @ dec_string (unat (fl_first_seen_ms flow)) @ '',''
     @ ''"last_seen":''      @ dec_string (unat (fl_last_seen_ms flow)) @ '',''
     @ ''"total_bytes":''    @ dec_string (unat (fl_total_bytes flow)) @ '',''
     @ ''"inbound_bytes":''  @ dec_string (unat (fl_inbound_bytes flow)) @ '',''
     @ ''"outbound_bytes":'' @ dec_string (unat (fl_outbound_bytes flow)) @ '',''
     @ ''"syn_count":''      @ dec_string (unat (fl_syn_count flow)) @ '',''
     @ ''"syn_ack_count":''  @ dec_string (unat (fl_syn_ack_count flow)) @ '',''
     @ ''"rst_count":''      @ dec_string (unat (fl_rst_count flow))
     @ ''}''\<close>


subsection \<open>Flat JSON objects\<close>

datatype jval = JStr string | JNum nat | JBool bool | JNull

fun scan_string :: "string \<Rightarrow> (string \<times> string) option" where
  "scan_string [] = None"
| "scan_string (c # s) =
     (if c = CHR 0x22 then Some ([], s)
      else if c = CHR 0x5C \<or> of_char c < (32 :: nat) then None
      else map_option (\<lambda>(x, r). (c # x, r)) (scan_string s))"

definition scan_number :: "string \<Rightarrow> (nat \<times> string) option" where
  "scan_number s =
     (let ds = takeWhile is_digit s in
      if ds = [] \<or> (hd ds = CHR ''0'' \<and> tl ds \<noteq> []) then None
      else Some (radix_value 10 ds, dropWhile is_digit s))"

definition scan_word :: "string \<Rightarrow> jval \<Rightarrow> string \<Rightarrow> (jval \<times> string) option" where
  "scan_word w v s = (if take (length w) s = w then Some (v, drop (length w) s) else None)"

definition scan_value :: "string \<Rightarrow> (jval \<times> string) option" where
  "scan_value s = (case s of [] \<Rightarrow> None
     | c # r \<Rightarrow> if c = CHR 0x22 then map_option (\<lambda>(x, r'). (JStr x, r')) (scan_string r)
         else if c = CHR ''t'' then scan_word ''true'' (JBool True) s
         else if c = CHR ''f'' then scan_word ''false'' (JBool False) s
         else if c = CHR ''n'' then scan_word ''null'' JNull s
         else map_option (\<lambda>(x, r'). (JNum x, r')) (scan_number s))"

definition scan_member :: "string \<Rightarrow> ((string \<times> jval) \<times> string) option" where
  "scan_member s = (case s of
      c # r \<Rightarrow> if c = CHR 0x22 then
          (case scan_string r of
             Some (k, d # r') \<Rightarrow> if d = CHR '':'' then map_option (\<lambda>(v, r''). ((k, v), r'')) (scan_value r') else None
           | _ \<Rightarrow> None)
        else None
    | [] \<Rightarrow> None)"

text \<open>The members up to the closing brace; every member takes a character of the text, so a bound
  of its length on their number is no restriction.\<close>

fun scan_members :: "nat \<Rightarrow> string \<Rightarrow> ((string \<times> jval) list \<times> string) option" where
  "scan_members 0 s = None"
| "scan_members (Suc n) s =
     (case scan_member s of
        Some (kv, c # r) \<Rightarrow>
          if c = CHR ''}'' then Some ([kv], r)
          else if c = CHR '','' then map_option (\<lambda>(kvs, r'). (kv # kvs, r')) (scan_members n r)
          else None
      | _ \<Rightarrow> None)"

definition parse_object :: "string \<Rightarrow> (string \<times> jval) list option" where
  "parse_object s = (case s of
      c # r \<Rightarrow> if c = CHR ''{'' then
          (case scan_members (length s) r of Some (kvs, []) \<Rightarrow> Some kvs | _ \<Rightarrow> None)
        else None
    | [] \<Rightarrow> None)"


subsection \<open>Printing and reading back\<close>

fun render_value :: "jval \<Rightarrow> string" where
  "render_value (JStr s) = [CHR 0x22] @ s @ [CHR 0x22]"
| "render_value (JNum n) = dec_string n"
| "render_value (JBool b) = (if b then ''true'' else ''false'')"
| "render_value JNull = ''null''"

fun render_members :: "(string \<times> jval) list \<Rightarrow> string" where
  "render_members [] = ''}''"
| "render_members [(k, v)] = render_value (JStr k) @ '':'' @ render_value v @ ''}''"
| "render_members ((k, v) # kvs) = render_value (JStr k) @ '':'' @ render_value v @ '','' @ render_members kvs"

definition str_ok :: "string \<Rightarrow> bool" where
  "str_ok s \<longleftrightarrow> (\<forall>c \<in> set s. c \<noteq> CHR 0x22 \<and> c \<noteq> CHR 0x5C \<and> (32 :: nat) \<le> of_char c)"

fun value_ok :: "jval \<Rightarrow> bool" where
  "value_ok (JStr s) = str_ok s"
| "value_ok _ = True"

lemma scan_string_render: "str_ok s \<Longrightarrow> scan_string (s @ CHR 0x22 # r) = Some (s, r)"
  by (induction s) (auto simp: str_ok_def not_less)

lemma dec_string_lead: "hd (dec_string n) = CHR ''0'' \<Longrightarrow> tl (dec_string n) = []"
proof -
  have "hd (radix_string b n) = digit_char 0 \<longrightarrow> n = 0" if "2 \<le> b" "b \<le> 16" for b
    using that
  proof (induction b n rule: radix_string.induct)
    case (1 b n)
    show ?case
    proof (cases "n < b")
      case True
      then have "digit_value (digit_char n) = n" using 1(3) by simp
      then have "digit_char n = digit_char 0 \<longrightarrow> n = 0" using digit_value_char [of 0] by auto
      then show ?thesis using True by (subst radix_string.simps) simp
    next
      case False
      with 1 have "hd (radix_string b (n div b)) = digit_char 0 \<longrightarrow> n div b = 0" by simp
      moreover have "n div b \<noteq> 0" using False 1(2) by (simp add: div_eq_0_iff)
      ultimately show ?thesis using False 1(2) by (subst radix_string.simps) simp
    qed
  qed
  from this [of 10] show "hd (dec_string n) = CHR ''0'' \<Longrightarrow> tl (dec_string n) = []"
    by (auto simp: dec_string_def digit_char_0 radix_string.simps)
qed

lemma scan_number_render: "\<not> is_digit c \<Longrightarrow> scan_number (dec_string n @ c # r) = Some (n, c # r)"
proof -
  assume c: "\<not> is_digit c"
  have "takeWhile is_digit (dec_string n @ c # r) = dec_string n" "dropWhile is_digit (dec_string n @ c # r) = c # r"
    using c dec_string_digits [of _ n] by (auto simp: takeWhile_append2 dropWhile_append2)
  then show ?thesis
    using dec_string_lead [of n] by (auto simp: scan_number_def Let_def dec_string_def radix_value_string)
qed

lemma digit_not_letter: "is_digit c \<Longrightarrow> c \<notin> {CHR 0x22, CHR ''t'', CHR ''f'', CHR ''n''}"
  by (auto simp: is_digit_def)

lemma scan_value_render:
  assumes "value_ok v" and "\<not> is_digit c"
  shows "scan_value (render_value v @ c # r) = Some (v, c # r)"
proof (cases v)
  case (JNum n)
  obtain d ds where d: "dec_string n = d # ds" by (cases "dec_string n") auto
  then have "d \<notin> {CHR 0x22, CHR ''t'', CHR ''f'', CHR ''n''}"
    using hd_dec_string [of n] digit_not_letter [of d] by simp
  then show ?thesis
    using scan_number_render [OF assms(2), of n r] JNum d by (simp add: scan_value_def)
next
  case (JStr s)
  then show ?thesis using assms scan_string_render [of s "c # r"] by (simp add: scan_value_def)
qed (auto simp: scan_value_def scan_word_def)

lemma scan_member_render:
  assumes "str_ok k" and "value_ok v" and "\<not> is_digit c"
  shows "scan_member (render_value (JStr k) @ CHR '':'' # render_value v @ c # r) = Some ((k, v), c # r)"
  using scan_string_render [OF assms(1), of "CHR '':'' # render_value v @ c # r"] scan_value_render [OF assms(2,3), of r]
  by (simp add: scan_member_def)

lemma scan_members_render:
  assumes "kvs \<noteq> []" and "\<forall>(k, v) \<in> set kvs. str_ok k \<and> value_ok v" and "length kvs \<le> n"
  shows "scan_members n (render_members kvs @ r) = Some (kvs, r)"
  using assms
proof (induction kvs arbitrary: n rule: render_members.induct)
  case 1
  then show ?case by simp
next
  case (2 k v)
  then obtain n' where n: "n = Suc n'" by (cases n) auto
  show ?case using scan_member_render [of k v "CHR ''}''" r] 2(2) by (simp add: n is_digit_def)
next
  case (3 k v kv kvs)
  then obtain n' where n: "n = Suc n'" by (cases n) auto
  show ?case
    using scan_member_render [of k v "CHR '',''" "render_members (kv # kvs) @ r"] 3(1) [of n'] 3(3,4)
    by (simp add: n is_digit_def)
qed


subsection \<open>The published object\<close>

definition direction_value :: "Direction \<Rightarrow> jval" where
  "direction_value d = (case d of Inbound \<Rightarrow> JStr ''inbound'' | Outbound \<Rightarrow> JStr ''outbound'' | Unknown \<Rightarrow> JNull)"

definition json_members :: "EnrichedFrame \<Rightarrow> FlowRecord \<Rightarrow> bool \<Rightarrow> (string \<times> jval) list" where
  "json_members f flow rt =
    [(''flow_key'', JStr (ef_flow_key f)), (''timestamp'', JNum (unat (ef_timestamp f))),
     (''src_ip'', JStr (ipToString (ef_src_ip f))), (''dst_ip'', JStr (ipToString (ef_dst_ip f))),
     (''protocol'', JStr (protocolToStr (ef_protocol f))), (''packet_size'', JNum (unat (ef_packet_size f))),
     (''direction'', direction_value (ef_direction f)), (''ttl'', JNum (unat (ef_ttl f))),
     (''src_mac'', JStr (macToString (ef_src_mac f))), (''dst_mac'', JStr (macToString (ef_dst_mac f))),
     (''checksum_valid'', JBool (ef_checksum_valid f)),
     (''src_port'', JNum (unat (ef_src_port f))), (''dst_port'', JNum (unat (ef_dst_port f))),
     (''flags'', JNum (unat (ef_flags f))), (''seq_num'', JNum (unat (ef_seq_num f))), (''is_retransmit'', JBool rt),
     (''icmp_type'', JNum (unat (ef_icmp_type f))), (''icmp_code'', JNum (unat (ef_icmp_code f))),
     (''arp_opcode'', JNum (unat (ef_arp_opcode f))), (''arp_sender_ip'', JStr (ipToString (ef_arp_sender_ip f))),
     (''arp_sender_mac'', JStr (macToString (ef_arp_sender_mac f))), (''arp_target_ip'', JStr (ipToString (ef_arp_target_ip f))),
     (''first_seen'', JNum (unat (fl_first_seen_ms flow))), (''last_seen'', JNum (unat (fl_last_seen_ms flow))),
     (''total_bytes'', JNum (unat (fl_total_bytes flow))), (''inbound_bytes'', JNum (unat (fl_inbound_bytes flow))),
     (''outbound_bytes'', JNum (unat (fl_outbound_bytes flow))), (''syn_count'', JNum (unat (fl_syn_count flow))),
     (''syn_ack_count'', JNum (unat (fl_syn_ack_count flow))), (''rst_count'', JNum (unat (fl_rst_count flow)))]"

lemma ipToStr_eq: "ipToStr = ipToString"
  by (simp add: fun_eq_iff ipToStr_def ipToString_def)

lemma macToStr_eq: "macToStr = macToString"
  by (simp add: fun_eq_iff macToStr_def macToString_def)

lemma directionStr_render: "directionStr d = render_value (direction_value d)"
  by (cases d) (simp_all add: directionStr_def direction_value_def)

lemma buildJson_render: "buildJson f flow rt = ''{'' @ render_members (json_members f flow rt)"
  by (simp only: buildJson_def json_members_def render_members.simps render_value.simps directionStr_render
      ipToStr_eq macToStr_eq append.simps append_assoc)

lemma str_ok_simps [simp]:
  "str_ok []" "str_ok (c # s) \<longleftrightarrow> c \<noteq> CHR 0x22 \<and> c \<noteq> CHR 0x5C \<and> (32 :: nat) \<le> of_char c \<and> str_ok s"
  "str_ok (s @ t) \<longleftrightarrow> str_ok s \<and> str_ok t"
  by (auto simp: str_ok_def)

lemma str_ok_dec [simp]: "str_ok (dec_string n)"
proof -
  have "is_digit c \<Longrightarrow> c \<noteq> CHR 0x22 \<and> c \<noteq> CHR 0x5C \<and> (32 :: nat) \<le> of_char c" for c
    by (auto simp: is_digit_def)
  then show ?thesis using dec_string_digits [of _ n] unfolding str_ok_def by blast
qed

lemma str_ok_ip [simp]: "str_ok (ipToString ip)"
  by (simp add: ipToString_def inet_ntop_def)

lemma str_ok_hex2 [simp]: "str_ok (hex2 b)"
proof -
  have "str_ok [digit_char d]" if "d < 16" for d
    using that by (auto simp: digit_char_def char_of_eq_iff take_bit_nat_eq_self)
  then show ?thesis using unat_u8_less [of b] by (simp add: hex2_digits)
qed

lemma str_ok_mac [simp]: "str_ok (macToString mac)"
  by (simp add: macToString_def upt_rec)

lemma str_ok_protocol [simp]: "str_ok (protocolToStr p)"
  by (simp add: protocolToStr_def)

lemma str_ok_key: "stats_stage fr = Some e \<Longrightarrow> str_ok (ef_flow_key e)"
  by (auto simp: stats_stage_flow_key key_of_endpoints_def makeFlowKey_def makeArpFlowKey_def split: sum.split)

lemma json_members_ok:
  "str_ok (ef_flow_key f) \<Longrightarrow> \<forall>(k, v) \<in> set (json_members f flow rt). str_ok k \<and> value_ok v"
  by (cases "ef_direction f") (simp_all add: json_members_def direction_value_def)

lemma length_render_members: "kvs \<noteq> [] \<Longrightarrow> length kvs \<le> length (render_members kvs)"
  by (induction kvs rule: render_members.induct) auto

lemma buildJson_parses:
  assumes "str_ok (ef_flow_key f)"
  shows "parse_object (buildJson f flow rt) = Some (json_members f flow rt)"
proof -
  have ne: "json_members f flow rt \<noteq> []" by (simp add: json_members_def)
  have "length (json_members f flow rt) \<le> length (buildJson f flow rt)"
    using length_render_members [OF ne] by (simp add: buildJson_render)
  from scan_members_render [OF ne json_members_ok [OF assms] this, of "[]"] show ?thesis
    by (simp add: parse_object_def buildJson_render)
qed


subsection \<open>Properties\<close>

text \<open>C23: What \<open>buildJson\<close> writes for an enriched frame is one well-formed JSON object with 30 distinct
  members, and reading it back gives exactly the frame's and the flow's values: numbers in full
  width, addresses in dotted and colon notation, direction as a string or null.\<close>

theorem buildJson_roundtrip:
  assumes "stats_stage fr = Some f"
  shows "parse_object (buildJson f flow rt) = Some (json_members f flow rt)
    \<and> length (json_members f flow rt) = 30 \<and> distinct (map fst (json_members f flow rt))"
  using buildJson_parses [OF str_ok_key [OF assms]] by (simp add: json_members_def)

theorem buildJson_roundtrip_witness:
  "\<exists>f. stats_stage (ArpFrame empty_frame \<lparr>arp_oper = 1, arp_sender_mac = replicate 6 0, arp_sender_ip = 7,
      arp_target_mac = replicate 6 0, arp_target_ip = 8, arp_is_reply = False\<rparr> 12345) = Some f
    \<and> parse_object (buildJson f new_FlowRecord True) = Some (json_members f new_FlowRecord True)
    \<and> (''timestamp'', JNum 12345) \<in> set (json_members f new_FlowRecord True)"
proof -
  let ?fr = "ArpFrame empty_frame \<lparr>arp_oper = 1, arp_sender_mac = replicate 6 0, arp_sender_ip = 7,
      arp_target_mac = replicate 6 0, arp_target_ip = 8, arp_is_reply = False\<rparr> 12345"
  obtain f where f: "stats_stage ?fr = Some f" "ef_timestamp f = 12345" by (auto simp: stats_stage_def)
  from buildJson_roundtrip [OF f(1), of new_FlowRecord True] f show ?thesis by (auto simp: json_members_def)
qed

text \<open>C37: IPv4 packets with protocol number 0 are labelled as ARP: such a packet is admitted,
  dissected as an IPv4 frame and enriched, and the protocol name published for it is \<open>ARP\<close>,
  because \<open>protocolToStr\<close> uses 0 as the mark of ARP frames.\<close>

theorem protocol_zero_labelled_arp:
  assumes "ip_packet_wf k" and "pk_protocol k = 0" and "length dst = 6" and "length src = 6"
    and "ip_packet_len k + length padding \<le> 2026"
  shows "\<exists>ff ip e. filter_frame ts (packet_frame dst src k padding) = Some ff
    \<and> dissector_stage (packet_frame dst src k padding @ rest) ff local_ips = Some (Some (IpOtherFrame (ff_eth ff) ip ts))
    \<and> stats_stage (IpOtherFrame (ff_eth ff) ip ts) = Some e \<and> protocolToStr (ef_protocol e) = ''ARP''"
  using packet_frame_filtered [OF assms(1,3,4), of ts padding]
    dissector_packet_frame [OF assms(1,3,4,5) packet_frame_filtered [OF assms(1,3,4)], where ts = ts and rest = rest and local_ips = local_ips]
    assms(2)
  by (simp add: dissect_transport_def stats_stage_def protocolToStr_def)

theorem protocol_zero_labelled_arp_witness:
  "let k = \<lparr>pk_ihl = 5, pk_tos = 0, pk_id = 1, pk_frag = 0, pk_ttl = 64, pk_protocol = 0, pk_checksum = 0,
         pk_src = 0x0A000001, pk_dst = 0x0A000002, pk_options = [], pk_data = [1, 2]\<rparr>;
       f = packet_frame (replicate 6 1) (replicate 6 2) k [0]
   in \<exists>ff ip e. filter_frame 9 f = Some ff
     \<and> dissector_stage (f @ []) ff {} = Some (Some (IpOtherFrame (ff_eth ff) ip 9))
     \<and> stats_stage (IpOtherFrame (ff_eth ff) ip 9) = Some e \<and> protocolToStr (ef_protocol e) = ''ARP''"
  unfolding Let_def
  by (rule protocol_zero_labelled_arp) (simp_all add: ip_packet_wf_def ip_packet_len_def)

end
