(* ===== verification/Logger.thy ===== *)
theory Logger
  imports Text_Format
begin

text \<open>
  \<open>include/utils/logger.h\<close> and \<open>src/utils/logger.cpp\<close>: the process-wide logger. Its state is the
  level and the text written to standard output so far; its mutex makes every line one write.
  The clock is an argument of each call, in milliseconds since the epoch, and so is \<open>local_time\<close>,
  which stands for \<open>std::put_time (std::localtime (&t), "%Y-%m-%d %H:%M:%S")\<close>: the C library
  and the time zone data base of the host decide it.
\<close>

datatype LogLevel = INFO | WARN | ERROR

fun level_value :: "LogLevel \<Rightarrow> nat" where
  "level_value INFO = 0"
| "level_value WARN = 1"
| "level_value ERROR = 2"

lemma level_value_inject [simp]: "level_value a = level_value b \<longleftrightarrow> a = b"
  by (cases a; cases b) simp_all

instantiation LogLevel :: linorder
begin

definition less_eq_LogLevel :: "LogLevel \<Rightarrow> LogLevel \<Rightarrow> bool" where
  "less_eq_LogLevel a b \<longleftrightarrow> level_value a \<le> level_value b"

definition less_LogLevel :: "LogLevel \<Rightarrow> LogLevel \<Rightarrow> bool" where
  "less_LogLevel a b \<longleftrightarrow> level_value a < level_value b"

instance
  by standard (auto simp: less_eq_LogLevel_def less_LogLevel_def)

end

record Logger =
  lg_level :: LogLevel
  lg_out :: string

definition new_Logger :: Logger where
  "new_Logger = \<lparr>lg_level = INFO, lg_out = []\<rparr>"

definition setLevel :: "LogLevel \<Rightarrow> Logger \<Rightarrow> Logger" where
  "setLevel level lg = lg\<lparr>lg_level := level\<rparr>"

text \<open>The character U+2014 that the messages of the program contain, in UTF-8.\<close>

definition em_dash :: string where
  "em_dash = [CHR 0xE2, CHR 0x80, CHR 0x94]"

definition log_line :: "(nat \<Rightarrow> string) \<Rightarrow> nat \<Rightarrow> LogLevel \<Rightarrow> string \<Rightarrow> string" where
  "log_line local_time now level message =
     (let ms = now mod 1000; t = now div 1000 in
      ''['' @ local_time t @ ''.'' @ setw 3 CHR ''0'' (dec_string ms) @ ''] ''
      @ (case level of INFO \<Rightarrow> ''[INFO]  '' | WARN \<Rightarrow> ''[WARN]  '' | ERROR \<Rightarrow> ''[ERROR] '')
      @ message @ [CHR 0x0A])"

definition Logger_log :: "(nat \<Rightarrow> string) \<Rightarrow> nat \<Rightarrow> LogLevel \<Rightarrow> string \<Rightarrow> Logger \<Rightarrow> Logger" where
  "Logger_log local_time now level message lg =
     (if level < lg_level lg then lg
      else lg\<lparr>lg_out := lg_out lg @ log_line local_time now level message\<rparr>)"

definition Logger_info :: "(nat \<Rightarrow> string) \<Rightarrow> nat \<Rightarrow> string \<Rightarrow> Logger \<Rightarrow> Logger" where
  "Logger_info local_time now msg = Logger_log local_time now INFO msg"

definition Logger_warn :: "(nat \<Rightarrow> string) \<Rightarrow> nat \<Rightarrow> string \<Rightarrow> Logger \<Rightarrow> Logger" where
  "Logger_warn local_time now msg = Logger_log local_time now WARN msg"

definition Logger_error :: "(nat \<Rightarrow> string) \<Rightarrow> nat \<Rightarrow> string \<Rightarrow> Logger \<Rightarrow> Logger" where
  "Logger_error local_time now msg = Logger_log local_time now ERROR msg"

text \<open>The free functions call the method of the one instance.\<close>

definition log_info :: "(nat \<Rightarrow> string) \<Rightarrow> nat \<Rightarrow> string \<Rightarrow> Logger \<Rightarrow> Logger" where
  "log_info local_time now msg inst = Logger_info local_time now msg inst"

definition log_warn :: "(nat \<Rightarrow> string) \<Rightarrow> nat \<Rightarrow> string \<Rightarrow> Logger \<Rightarrow> Logger" where
  "log_warn local_time now msg inst = Logger_warn local_time now msg inst"

definition log_error :: "(nat \<Rightarrow> string) \<Rightarrow> nat \<Rightarrow> string \<Rightarrow> Logger \<Rightarrow> Logger" where
  "log_error local_time now msg inst = Logger_error local_time now msg inst"

lemma Logger_log_level [simp]: "lg_level (Logger_log lt now l msg lg) = lg_level lg"
  by (simp add: Logger_log_def)

lemma Logger_log_run:
  "lg_out (fold (\<lambda>(now, l, msg). Logger_log lt now l msg) calls lg) =
     lg_out lg @ concat (map (\<lambda>(now, l, msg). log_line lt now l msg) (filter (\<lambda>(now, l, msg). lg_level lg \<le> l) calls))"
proof (induction calls arbitrary: lg)
  case Nil
  then show ?case by simp
next
  case (Cons c calls)
  show ?case
  proof (cases c)
    case (fields now l msg)
    then show ?thesis
      using Cons.IH [of "Logger_log lt now l msg lg"]
      by (cases "l < lg_level lg") (auto simp: Logger_log_def not_less not_le)
  qed
qed

text \<open>The milliseconds field always has three digits.\<close>

lemma length_ms_field: "length (setw 3 CHR ''0'' (dec_string (now mod 1000))) = 3"
  using length_dec_string_3 [of "now mod 1000"] by (simp add: setw_def)

text \<open>The logger writes, for any sequence of calls, exactly one line per message whose level is
  at least the configured one, in the order of the calls, and nothing else; messages below the
  level leave no trace, and after \<open>setLevel (ERROR)\<close> only errors are written.\<close>

theorem logger_output:
  "lg_out (fold (\<lambda>(now, l, msg). Logger_log lt now l msg) calls (setLevel level new_Logger)) =
     concat (map (\<lambda>(now, l, msg). log_line lt now l msg) (filter (\<lambda>(now, l, msg). level \<le> l) calls))"
  using Logger_log_run [of lt calls "setLevel level new_Logger"] by (simp add: setLevel_def new_Logger_def)

end
