(* ===== verification/Rabbitmq_Publisher.thy ===== *)
theory Rabbitmq_Publisher
  imports Publisher_Json Logger
begin

unbundle bit_operations_syntax

text \<open>
  \<open>include/publisher/rabbitmq_publisher.h\<close> and the connection side of
  \<open>src/publishers/rabbitmq_publisher.cpp\<close>: configuration, connecting with retries, publishing with
  publisher confirms, disconnecting. The AMQP client library, the broker and the stop flag are an
  environment: every call the publisher makes is appended to a history, and the environment
  answers a call by an arbitrary function of the history that ends with it. A connection handle is
  the position in the history at which it was created, so that handles are never reused and it can
  be said which connections are alive. Log lines and sleeps are calls of the history too.
\<close>

subsection \<open>Configuration\<close>

record PublisherConfig =
  cfg_host :: string
  cfg_port :: int
  cfg_username :: string
  cfg_password :: string
  cfg_exchange :: string
  cfg_routing_key :: string
  cfg_channel :: int

definition default_PublisherConfig :: PublisherConfig where
  "default_PublisherConfig = \<lparr>cfg_host = ''localhost'', cfg_port = 5672, cfg_username = ''guest'',
     cfg_password = ''guest'', cfg_exchange = ''raw_packets'', cfg_routing_key = ''packet.raw'', cfg_channel = 1\<rparr>"

text \<open>\<open>std::atoi\<close>: white space, a sign, digits up to the first other character; no digits give 0, a
  value that is no 32-bit \<open>int\<close> is undefined.\<close>

definition isspace :: "char \<Rightarrow> bool" where
  "isspace c \<longleftrightarrow> of_char c \<in> {9, 10, 11, 12, 13, 32 :: nat}"

definition atoi :: "string \<Rightarrow> int option" where
  "atoi s =
     (let s1 = dropWhile isspace s;
          neg = (s1 \<noteq> [] \<and> hd s1 = CHR ''-'');
          s2 = (if s1 \<noteq> [] \<and> (hd s1 = CHR ''-'' \<or> hd s1 = CHR ''+'') then tl s1 else s1);
          v = int (radix_value 10 (takeWhile is_digit s2));
          n = (if neg then - v else v)
      in if - (2 ^ 31) \<le> n \<and> n < 2 ^ 31 then Some n else None)"

definition publisherConfigFromEnv :: "(string \<Rightarrow> string option) \<Rightarrow> PublisherConfig option" where
  "publisherConfigFromEnv getenv =
     (let cfg0 = default_PublisherConfig;
          cfg1 = (case getenv ''RABBITMQ_HOST'' of Some v \<Rightarrow> cfg0\<lparr>cfg_host := v\<rparr> | None \<Rightarrow> cfg0);
          cfg2 = (case getenv ''RABBITMQ_PORT'' of
              Some v \<Rightarrow> map_option (\<lambda>n. cfg1\<lparr>cfg_port := n\<rparr>) (atoi v) | None \<Rightarrow> Some cfg1)
      in case cfg2 of None \<Rightarrow> None
       | Some cfg2 \<Rightarrow>
         let cfg3 = (case getenv ''RABBITMQ_USER'' of Some v \<Rightarrow> cfg2\<lparr>cfg_username := v\<rparr> | None \<Rightarrow> cfg2);
             cfg4 = (case getenv ''RABBITMQ_PASS'' of Some v \<Rightarrow> cfg3\<lparr>cfg_password := v\<rparr> | None \<Rightarrow> cfg3);
             cfg5 = (case getenv ''RABBITMQ_EXCHANGE'' of Some v \<Rightarrow> cfg4\<lparr>cfg_exchange := v\<rparr> | None \<Rightarrow> cfg4);
             cfg6 = (case getenv ''RABBITMQ_ROUTING_KEY'' of Some v \<Rightarrow> cfg5\<lparr>cfg_routing_key := v\<rparr> | None \<Rightarrow> cfg5)
         in Some cfg6)"


subsection \<open>The environment and the state\<close>

datatype amqp_call =
    New_Connection nat
  | Tcp_Socket_New nat
  | Socket_Open nat string int
  | Set_Nodelay nat
  | Login nat string nat nat nat string string  \<comment> \<open>vhost, channel and frame maximum, heartbeat, then name and password (SASL PLAIN)\<close>
  | Channel_Open nat int
  | Confirm_Select nat int
  | Channel_Close nat int
  | Connection_Close nat
  | Destroy_Connection nat
  | Basic_Publish nat int string string string
  | Wait_Frame nat
  | Stop_Flag_Load
  | Sleep_For nat
  | Log_Message LogLevel string

record amqp_frame =
  fr_frame_type :: u8
  fr_method_id :: u32

text \<open>The status codes and method numbers of \<open>amqp.h\<close> and the answers to the calls; \<open>env_new_connection\<close> and
  \<open>env_socket_new\<close> are whether the pointer returned is non-null.\<close>

record amqp_env =
  AMQP_STATUS_OK :: int
  AMQP_STATUS_TIMEOUT :: int
  AMQP_FRAME_METHOD :: u8
  AMQP_BASIC_ACK_METHOD :: u32
  AMQP_BASIC_NACK_METHOD :: u32
  env_new_connection :: "amqp_call list \<Rightarrow> bool"
  env_socket_new :: "amqp_call list \<Rightarrow> bool"
  env_status :: "amqp_call list \<Rightarrow> int"
  env_reply_normal :: "amqp_call list \<Rightarrow> bool"
  env_frame :: "amqp_call list \<Rightarrow> amqp_frame"
  env_stop_flag :: "amqp_call list \<Rightarrow> bool"

text \<open>The data members; \<open>pub_sock\<close> is whether \<open>sock_\<close> is non-null, \<open>pub_calls\<close> the history, newest first.\<close>

record RabbitMqPublisher =
  pub_config :: PublisherConfig
  pub_conn :: "nat option"
  pub_sock :: bool
  pub_connected :: bool
  pub_calls :: "amqp_call list"

definition emit :: "amqp_call \<Rightarrow> RabbitMqPublisher \<Rightarrow> RabbitMqPublisher" where
  "emit c p = p\<lparr>pub_calls := c # pub_calls p\<rparr>"


subsection \<open>Connecting\<close>

definition MAX_ATTEMPTS :: nat where "MAX_ATTEMPTS = 3"
definition RETRY_DELAY_S :: nat where "RETRY_DELAY_S = 2"

text \<open>The end of a failed attempt: \<open>amqp_destroy_connection\<close>, null pointers, and a pause unless it was the last.\<close>

definition abandon_attempt :: "nat \<Rightarrow> nat \<Rightarrow> RabbitMqPublisher \<Rightarrow> RabbitMqPublisher" where
  "abandon_attempt attempt c p =
     (let p1 = (emit (Destroy_Connection c) p)\<lparr>pub_conn := None, pub_sock := False\<rparr>
      in if attempt < MAX_ATTEMPTS then emit (Sleep_For RETRY_DELAY_S) p1 else p1)"

text \<open>The body of the loop over \<open>attempt\<close> when \<open>amqp_new_connection\<close> returns a connection: \<open>Some b\<close> for \<open>return b\<close>,
  \<open>None\<close> for \<open>continue\<close>. A null pointer, which the code does not test for, is the subject of \<open>connect_attempt_d\<close> below.\<close>

definition connect_attempt :: "amqp_env \<Rightarrow> nat \<Rightarrow> RabbitMqPublisher \<Rightarrow> bool option \<times> RabbitMqPublisher" where
  "connect_attempt env attempt p0 =
     (let cfg = pub_config p0;
          c = length (pub_calls p0);
          p1 = (emit (New_Connection c) p0)\<lparr>pub_conn := Some c\<rparr>;
          p2 = emit (Tcp_Socket_New c) p1;
          p3 = p2\<lparr>pub_sock := env_socket_new env (pub_calls p2)\<rparr>
      in if \<not> pub_sock p3 then
           (Some False, (emit (Destroy_Connection c)
             (emit (Log_Message ERROR ''rabbitmq_publisher: amqp_tcp_socket_new failed'') p3))\<lparr>pub_conn := None\<rparr>)
         else let p4 = emit (Socket_Open c (cfg_host cfg) (cfg_port cfg)) p3 in
         if env_status env (pub_calls p4) \<noteq> AMQP_STATUS_OK env then
           (None, abandon_attempt attempt c (emit (Log_Message WARN (''rabbitmq_publisher: connect attempt ''
              @ dec_string attempt @ ''/'' @ dec_string MAX_ATTEMPTS @ '' failed to '' @ cfg_host cfg @ '':''
              @ int_string (cfg_port cfg) @ '' '' @ em_dash @ '' retrying in '' @ dec_string RETRY_DELAY_S @ ''s'')) p4))
         else let p5 = emit (Set_Nodelay c) p4;
                  p6 = (if env_status env (pub_calls p5) \<noteq> 0
                    then emit (Log_Message WARN ''rabbitmq_publisher: setsockopt TCP_NODELAY failed (non-fatal)'') p5 else p5);
                  p7 = emit (Login c ''/'' 0 131072 60 (cfg_username cfg) (cfg_password cfg)) p6 in
         if \<not> env_reply_normal env (pub_calls p7) then
           (None, abandon_attempt attempt c (emit (Log_Message WARN
              (''rabbitmq_publisher: login failed on attempt '' @ dec_string attempt)) p7))
         else let p8 = emit (Channel_Open c (cfg_channel cfg)) p7 in
         if \<not> env_reply_normal env (pub_calls p8) then
           (None, abandon_attempt attempt c (emit (Connection_Close c) (emit (Log_Message WARN
              (''rabbitmq_publisher: channel open failed on attempt '' @ dec_string attempt)) p8)))
         else let p9 = emit (Confirm_Select c (cfg_channel cfg)) p8 in
         if \<not> env_reply_normal env (pub_calls p9) then
           (None, abandon_attempt attempt c (emit (Connection_Close c) (emit (Channel_Close c (cfg_channel cfg))
              (emit (Log_Message WARN (''rabbitmq_publisher: confirm.select failed on attempt '' @ dec_string attempt)) p9))))
         else (Some True, emit (Log_Message INFO (''rabbitmq_publisher: connected to '' @ cfg_host cfg @ '':''
              @ int_string (cfg_port cfg) @ '' exchange='' @ cfg_exchange cfg @ '' (attempt '' @ dec_string attempt @ '')'')) p9))"

function connect_loop :: "amqp_env \<Rightarrow> nat \<Rightarrow> RabbitMqPublisher \<Rightarrow> bool \<times> RabbitMqPublisher" where
  "connect_loop env attempt p =
     (if attempt \<le> MAX_ATTEMPTS then
        (case connect_attempt env attempt p of
           (Some b, p') \<Rightarrow> (b, p')
         | (None, p') \<Rightarrow> connect_loop env (Suc attempt) p')
      else (False, emit (Log_Message ERROR (''rabbitmq_publisher: all '' @ dec_string MAX_ATTEMPTS
              @ '' connection attempts failed'')) p))"
  by pat_completeness auto
termination by (relation "measure (\<lambda>(env, attempt, p). Suc MAX_ATTEMPTS - attempt)") (auto simp: MAX_ATTEMPTS_def)

declare connect_loop.simps [simp del]

definition disconnect :: "RabbitMqPublisher \<Rightarrow> RabbitMqPublisher" where
  "disconnect p = (case pub_conn p of None \<Rightarrow> p
     | Some c \<Rightarrow> (emit (Destroy_Connection c) (emit (Connection_Close c)
         (emit (Channel_Close c (cfg_channel (pub_config p))) p)))\<lparr>pub_conn := None, pub_sock := False\<rparr>)"

definition publisher_connect :: "amqp_env \<Rightarrow> RabbitMqPublisher \<Rightarrow> bool \<times> RabbitMqPublisher" where
  "publisher_connect env p = connect_loop env 1 (if pub_conn p \<noteq> None then disconnect p else p)"

definition new_RabbitMqPublisher :: "amqp_env \<Rightarrow> PublisherConfig \<Rightarrow> RabbitMqPublisher" where
  "new_RabbitMqPublisher env config =
     (let (b, p) = publisher_connect env \<lparr>pub_config = config, pub_conn = None, pub_sock = False, pub_connected = False, pub_calls = []\<rparr>
      in p\<lparr>pub_connected := b\<rparr>)"

definition isConnected :: "RabbitMqPublisher \<Rightarrow> bool" where
  "isConnected p = pub_connected p"

definition destroy_RabbitMqPublisher :: "RabbitMqPublisher \<Rightarrow> RabbitMqPublisher" where
  "destroy_RabbitMqPublisher p = disconnect p"


subsection \<open>Publishing\<close>

definition MAX_CONFIRM_WAIT_MS :: nat where "MAX_CONFIRM_WAIT_MS = 5000"
definition POLL_INTERVAL_MS :: nat where "POLL_INTERVAL_MS = 50"

text \<open>How the loop that waits for the confirm is left.\<close>

datatype confirm_exit = Confirmed | Not_Confirmed | Stop_Requested | Wait_Error | Nacked

function confirm_wait :: "amqp_env \<Rightarrow> nat \<Rightarrow> nat \<Rightarrow> RabbitMqPublisher \<Rightarrow> confirm_exit \<times> RabbitMqPublisher" where
  "confirm_wait env c waited_ms p =
     (if waited_ms < MAX_CONFIRM_WAIT_MS then
        let p1 = emit (Wait_Frame c) p; wait_rc = env_status env (pub_calls p1); fr = env_frame env (pub_calls p1) in
        if wait_rc = AMQP_STATUS_TIMEOUT env then
          let p2 = emit Stop_Flag_Load p1 in
          if env_stop_flag env (pub_calls p2) then (Stop_Requested, p2)
          else confirm_wait env c (waited_ms + POLL_INTERVAL_MS) p2
        else if wait_rc \<noteq> AMQP_STATUS_OK env then
          (Wait_Error, emit (Log_Message ERROR (''rabbitmq_publisher: confirm wait error rc='' @ int_string wait_rc)) p1)
        else if fr_frame_type fr = AMQP_FRAME_METHOD env \<and> fr_method_id fr = AMQP_BASIC_ACK_METHOD env then (Confirmed, p1)
        else if fr_frame_type fr = AMQP_FRAME_METHOD env \<and> fr_method_id fr = AMQP_BASIC_NACK_METHOD env then
          (Nacked, emit (Log_Message ERROR ''rabbitmq_publisher: Basic.Nack received'') p1)
        else confirm_wait env c (waited_ms + POLL_INTERVAL_MS) p1
      else (Not_Confirmed, p))"
  by pat_completeness auto
termination by (relation "measure (\<lambda>(env, c, waited_ms, p). MAX_CONFIRM_WAIT_MS - waited_ms)") (auto simp: POLL_INTERVAL_MS_def)

declare confirm_wait.simps [simp del]

text \<open>From \<open>buildJson\<close> to the end of \<open>publish\<close>; a call of the library with a null connection is undefined.\<close>

definition publish_message :: "amqp_env \<Rightarrow> string \<Rightarrow> RabbitMqPublisher \<Rightarrow> (bool \<times> RabbitMqPublisher) option" where
  "publish_message env json p =
     (case pub_conn p of None \<Rightarrow> None
      | Some c \<Rightarrow>
        let cfg = pub_config p;
            p1 = emit (Basic_Publish c (cfg_channel cfg) (cfg_exchange cfg) (cfg_routing_key cfg) json) p;
            rc = env_status env (pub_calls p1)
        in if rc \<noteq> AMQP_STATUS_OK env then
             Some (False, (emit (Log_Message ERROR (''rabbitmq_publisher: publish failed (rc='' @ int_string rc @ '')'')) p1)
               \<lparr>pub_connected := False\<rparr>)
           else (case confirm_wait env c 0 p1 of
               (Confirmed, p2) \<Rightarrow> Some (True, p2)
             | (Stop_Requested, p2) \<Rightarrow> Some (False, p2)
             | (Nacked, p2) \<Rightarrow> Some (False, p2)
             | (Wait_Error, p2) \<Rightarrow> Some (False, p2\<lparr>pub_connected := False\<rparr>)
             | (Not_Confirmed, p2) \<Rightarrow> Some (False, (emit (Log_Message ERROR (''rabbitmq_publisher: confirm timeout after ''
                   @ dec_string MAX_CONFIRM_WAIT_MS @ ''ms'')) p2)\<lparr>pub_connected := False\<rparr>)))"

text \<open>What \<open>publish\<close> logs when it gives a frame up because it could not connect.\<close>

definition drop_message :: string where
  "drop_message = ''rabbitmq_publisher: reconnect failed '' @ em_dash @ '' frame dropped''"

definition publish :: "amqp_env \<Rightarrow> EnrichedFrame \<Rightarrow> FlowRecord \<Rightarrow> bool \<Rightarrow> RabbitMqPublisher
    \<Rightarrow> (bool \<times> RabbitMqPublisher) option" where
  "publish env frame flow is_retransmit p =
     (if ef_protocol frame \<noteq> 1 \<and> ef_protocol frame \<noteq> 6 \<and> ef_protocol frame \<noteq> 17 \<and> ef_protocol frame \<noteq> 0
      then Some (True, p)
      else if \<not> pub_connected p then
        (case publisher_connect env (emit (Log_Message WARN ''rabbitmq_publisher: attempting reconnect...'') p) of
           (b, p1) \<Rightarrow>
             if \<not> b then Some (False, (emit (Log_Message ERROR drop_message) p1)\<lparr>pub_connected := b\<rparr>)
             else publish_message env (buildJson frame flow is_retransmit) (p1\<lparr>pub_connected := b\<rparr>))
      else publish_message env (buildJson frame flow is_retransmit) p)"


subsection \<open>Null connections\<close>

text \<open>The same operations with the result of \<open>amqp_new_connection\<close> taken into account: \<open>connect\<close> passes the
  pointer to \<open>amqp_tcp_socket_new\<close> without a test, and with a null pointer that is undefined (\<open>None\<close>).\<close>

definition connect_attempt_d :: "amqp_env \<Rightarrow> nat \<Rightarrow> RabbitMqPublisher \<Rightarrow> (bool option \<times> RabbitMqPublisher) option" where
  "connect_attempt_d env attempt p0 =
     (if env_new_connection env (New_Connection (length (pub_calls p0)) # pub_calls p0)
      then Some (connect_attempt env attempt p0) else None)"

function connect_loop_d :: "amqp_env \<Rightarrow> nat \<Rightarrow> RabbitMqPublisher \<Rightarrow> (bool \<times> RabbitMqPublisher) option" where
  "connect_loop_d env attempt p =
     (if attempt \<le> MAX_ATTEMPTS then
        (case connect_attempt_d env attempt p of
           None \<Rightarrow> None
         | Some (Some b, p') \<Rightarrow> Some (b, p')
         | Some (None, p') \<Rightarrow> connect_loop_d env (Suc attempt) p')
      else Some (False, emit (Log_Message ERROR (''rabbitmq_publisher: all '' @ dec_string MAX_ATTEMPTS
              @ '' connection attempts failed'')) p))"
  by pat_completeness auto
termination by (relation "measure (\<lambda>(env, attempt, p). Suc MAX_ATTEMPTS - attempt)") (auto simp: MAX_ATTEMPTS_def)

declare connect_loop_d.simps [simp del]

definition publisher_connect_d :: "amqp_env \<Rightarrow> RabbitMqPublisher \<Rightarrow> (bool \<times> RabbitMqPublisher) option" where
  "publisher_connect_d env p = connect_loop_d env 1 (if pub_conn p \<noteq> None then disconnect p else p)"

definition new_RabbitMqPublisher_d :: "amqp_env \<Rightarrow> PublisherConfig \<Rightarrow> RabbitMqPublisher option" where
  "new_RabbitMqPublisher_d env config =
     map_option (\<lambda>(b, p). p\<lparr>pub_connected := b\<rparr>) (publisher_connect_d env
       \<lparr>pub_config = config, pub_conn = None, pub_sock = False, pub_connected = False, pub_calls = []\<rparr>)"

definition publish_d :: "amqp_env \<Rightarrow> EnrichedFrame \<Rightarrow> FlowRecord \<Rightarrow> bool \<Rightarrow> RabbitMqPublisher
    \<Rightarrow> (bool \<times> RabbitMqPublisher) option" where
  "publish_d env frame flow is_retransmit p =
     (if ef_protocol frame \<noteq> 1 \<and> ef_protocol frame \<noteq> 6 \<and> ef_protocol frame \<noteq> 17 \<and> ef_protocol frame \<noteq> 0
      then Some (True, p)
      else if \<not> pub_connected p then
        (case publisher_connect_d env (emit (Log_Message WARN ''rabbitmq_publisher: attempting reconnect...'') p) of
           None \<Rightarrow> None
         | Some (b, p1) \<Rightarrow>
             if \<not> b then Some (False, (emit (Log_Message ERROR drop_message) p1)\<lparr>pub_connected := b\<rparr>)
             else publish_message env (buildJson frame flow is_retransmit) (p1\<lparr>pub_connected := b\<rparr>))
      else publish_message env (buildJson frame flow is_retransmit) p)"

text \<open>The library has run out of memory at some call.\<close>

definition null_connection :: "amqp_env \<Rightarrow> bool" where
  "null_connection env \<longleftrightarrow> (\<exists>c h. \<not> env_new_connection env (New_Connection c # h))"

text \<open>As long as connections are created, the operations are those above.\<close>

lemma connect_attempt_d_cases:
  "connect_attempt_d env n p = Some (connect_attempt env n p) \<or> connect_attempt_d env n p = None \<and> null_connection env"
  by (auto simp: connect_attempt_d_def null_connection_def)

lemma connect_loop_d_cases:
  "connect_loop_d env n p = Some (connect_loop env n p) \<or> connect_loop_d env n p = None \<and> null_connection env"
proof (induction env n p rule: connect_loop.induct)
  case (1 env n p)
  obtain r p' where r: "connect_attempt env n p = (r, p')" by fastforce
  show ?case using 1 [of r p'] connect_attempt_d_cases [of env n p]
    unfolding connect_loop_d.simps [of env n p] connect_loop.simps [of env n p] by (cases r) (auto simp: r)
qed

lemma publisher_connect_d_cases:
  "publisher_connect_d env p = Some (publisher_connect env p) \<or> publisher_connect_d env p = None \<and> null_connection env"
  unfolding publisher_connect_d_def publisher_connect_def by (rule connect_loop_d_cases)

lemma new_publisher_d_cases:
  "new_RabbitMqPublisher_d env cfg = Some (new_RabbitMqPublisher env cfg) \<or> new_RabbitMqPublisher_d env cfg = None \<and> null_connection env"
  using publisher_connect_d_cases [of env "\<lparr>pub_config = cfg, pub_conn = None, pub_sock = False, pub_connected = False, pub_calls = []\<rparr>"]
  by (auto simp: new_RabbitMqPublisher_d_def new_RabbitMqPublisher_def split: prod.split)

lemma publish_d_cases:
  "publish_d env f fl rt p = publish env f fl rt p \<or> publish_d env f fl rt p = None \<and> null_connection env"
  using publisher_connect_d_cases [of env "emit (Log_Message WARN ''rabbitmq_publisher: attempting reconnect...'') p"]
  by (auto simp: publish_d_def publish_def)


subsection \<open>Connections in a history\<close>

text \<open>The connections that are created and not yet destroyed, and the connection a call uses.\<close>

fun live :: "amqp_call list \<Rightarrow> nat set" where
  "live [] = {}"
| "live (x # h) = (case x of New_Connection c \<Rightarrow> insert c (live h) | Destroy_Connection c \<Rightarrow> live h - {c} | _ \<Rightarrow> live h)"

fun used_conn :: "amqp_call \<Rightarrow> nat option" where
  "used_conn (Tcp_Socket_New c) = Some c"
| "used_conn (Socket_Open c _ _) = Some c"
| "used_conn (Set_Nodelay c) = Some c"
| "used_conn (Login c _ _ _ _ _ _) = Some c"
| "used_conn (Channel_Open c _) = Some c"
| "used_conn (Confirm_Select c _) = Some c"
| "used_conn (Channel_Close c _) = Some c"
| "used_conn (Connection_Close c) = Some c"
| "used_conn (Destroy_Connection c) = Some c"
| "used_conn (Basic_Publish c _ _ _ _) = Some c"
| "used_conn (Wait_Frame c) = Some c"
| "used_conn _ = None"

text \<open>A history is proper when new connections are new and every call uses a live connection; in
  particular no connection is destroyed twice.\<close>

fun calls_ok :: "amqp_call list \<Rightarrow> bool" where
  "calls_ok [] = True"
| "calls_ok (x # h) \<longleftrightarrow> calls_ok h \<and> (\<forall>c. x = New_Connection c \<longrightarrow> c = length h) \<and> set_option (used_conn x) \<subseteq> live h"

definition conn_inv :: "RabbitMqPublisher \<Rightarrow> bool" where
  "conn_inv p \<longleftrightarrow> calls_ok (pub_calls p) \<and> live (pub_calls p) = set_option (pub_conn p)"

definition pub_inv :: "RabbitMqPublisher \<Rightarrow> bool" where
  "pub_inv p \<longleftrightarrow> conn_inv p \<and> (pub_connected p \<longrightarrow> pub_conn p \<noteq> None)"

lemma emit_fields [simp]:
  "pub_config (emit x p) = pub_config p" "pub_conn (emit x p) = pub_conn p" "pub_sock (emit x p) = pub_sock p"
  "pub_connected (emit x p) = pub_connected p" "pub_calls (emit x p) = x # pub_calls p"
  by (simp_all add: emit_def)

lemma disconnect_inv:
  assumes "conn_inv p"
  shows "conn_inv (disconnect p)" and "pub_conn (disconnect p) = None" and "pub_connected (disconnect p) = pub_connected p"
  using assms by (cases "pub_conn p"; simp add: disconnect_def conn_inv_def)+

definition attempt_post :: "RabbitMqPublisher \<Rightarrow> bool option \<times> RabbitMqPublisher \<Rightarrow> bool" where
  "attempt_post p r \<longleftrightarrow> conn_inv (snd r) \<and> (pub_conn (snd r) \<noteq> None \<longleftrightarrow> fst r = Some True)
     \<and> pub_connected (snd r) = pub_connected p \<and> pub_config (snd r) = pub_config p"

lemma post_LetI: "(\<And>x. x = a \<Longrightarrow> attempt_post p (f x)) \<Longrightarrow> attempt_post p (Let a f)"
  by simp

lemma post_ifI: "(b \<Longrightarrow> attempt_post p x) \<Longrightarrow> (\<not> b \<Longrightarrow> attempt_post p y) \<Longrightarrow> attempt_post p (if b then x else y)"
  by simp

lemma abandon_post:
  assumes "calls_ok (pub_calls p)" and "live (pub_calls p) = {c}" and "pub_connected p = pub_connected q"
    and "pub_config p = pub_config q"
  shows "attempt_post q (None, abandon_attempt attempt c p)"
  using assms by (simp add: attempt_post_def abandon_attempt_def conn_inv_def Let_def)

lemma connect_attempt_post:
  assumes "conn_inv p" and "pub_conn p = None"
  shows "attempt_post p (connect_attempt env attempt p)"
proof -
  have h: "calls_ok (pub_calls p)" "live (pub_calls p) = {}" using assms by (simp_all add: conn_inv_def)
  show ?thesis
    unfolding connect_attempt_def
    by (intro post_LetI post_ifI) (simp_all add: h abandon_post attempt_post_def [of _ "(Some _, _)"] conn_inv_def)
qed

lemma connect_loop_post:
  assumes "conn_inv p" and "pub_conn p = None"
  shows "attempt_post p (map_prod Some id (connect_loop env attempt p))"
  using assms
proof (induction env attempt p rule: connect_loop.induct)
  case (1 env attempt p)
  obtain r p' where rp: "connect_attempt env attempt p = (r, p')" by fastforce
  have post: "attempt_post p (r, p')" using connect_attempt_post [OF 1(2,3), of env attempt] rp by simp
  show ?case
  proof (cases "attempt \<le> MAX_ATTEMPTS \<and> r = None")
    case True
    then have "attempt_post p' (map_prod Some id (connect_loop env (Suc attempt) p'))"
      using 1(1) [of r p'] rp post by (simp add: attempt_post_def)
    then show ?thesis using True post by (subst connect_loop.simps) (simp add: rp attempt_post_def)
  next
    case False
    then show ?thesis using post 1(2,3)
      by (subst connect_loop.simps) (auto simp: rp attempt_post_def conn_inv_def split: option.split)
  qed
qed

lemma publisher_connect_post:
  assumes "conn_inv p"
  shows "attempt_post p (map_prod Some id (publisher_connect env p))"
  using connect_loop_post [of "if pub_conn p \<noteq> None then disconnect p else p" env 1] disconnect_inv [OF assms] assms
  by (auto simp: publisher_connect_def attempt_post_def disconnect_def split: if_splits option.splits)

lemma confirm_wait_post:
  assumes "conn_inv p" and "pub_conn p = Some c"
  shows "conn_inv (snd (confirm_wait env c w p)) \<and> pub_conn (snd (confirm_wait env c w p)) = Some c
    \<and> pub_connected (snd (confirm_wait env c w p)) = pub_connected p"
  using assms
proof (induction env c w p rule: confirm_wait.induct)
  case (1 env c w p)
  show ?case
    using 1 by (subst (1 2 3) confirm_wait.simps) (simp add: Let_def conn_inv_def)
qed

lemma publish_message_post:
  assumes "pub_inv p" and "pub_conn p \<noteq> None"
  shows "\<exists>b p'. publish_message env json p = Some (b, p') \<and> pub_inv p'"
proof -
  obtain c where c: "pub_conn p = Some c" using assms(2) by blast
  let ?p1 = "emit (Basic_Publish c (cfg_channel (pub_config p)) (cfg_exchange (pub_config p)) (cfg_routing_key (pub_config p)) json) p"
  have p1: "conn_inv ?p1" "pub_conn ?p1 = Some c" using assms(1) c by (simp_all add: pub_inv_def conn_inv_def)
  obtain x p2 where x: "confirm_wait env c 0 ?p1 = (x, p2)" by fastforce
  have p2: "conn_inv p2" "pub_conn p2 = Some c" using confirm_wait_post [OF p1, of env 0] x by simp_all
  show ?thesis
    using p1 p2 by (cases x) (auto simp: publish_message_def c Let_def x pub_inv_def conn_inv_def)
qed

lemma publish_post:
  assumes "pub_inv p"
  shows "\<exists>b p'. publish env f fl rt p = Some (b, p') \<and> pub_inv p'"
proof -
  let ?q = "emit (Log_Message WARN ''rabbitmq_publisher: attempting reconnect...'') p"
  obtain b p1 where c: "publisher_connect env ?q = (b, p1)" by fastforce
  have q: "conn_inv ?q" using assms by (simp add: pub_inv_def conn_inv_def)
  have p1: "conn_inv p1" "pub_conn p1 \<noteq> None \<longleftrightarrow> b"
    using publisher_connect_post [OF q, of env] c by (simp_all add: attempt_post_def)
  have msg: "b \<Longrightarrow> \<exists>b' p'. publish_message env (buildJson f fl rt) (p1\<lparr>pub_connected := b\<rparr>) = Some (b', p') \<and> pub_inv p'"
    using publish_message_post [of "p1\<lparr>pub_connected := b\<rparr>" env "buildJson f fl rt"] p1 by (auto simp: pub_inv_def conn_inv_def)
  show ?thesis
    using msg p1 assms publish_message_post [OF assms, of env "buildJson f fl rt"]
    by (auto simp: publish_def c pub_inv_def conn_inv_def)
qed

lemma new_publisher_inv: "pub_inv (new_RabbitMqPublisher env cfg)"
proof -
  let ?p0 = "\<lparr>pub_config = cfg, pub_conn = None, pub_sock = False, pub_connected = False, pub_calls = []\<rparr>"
  have "conn_inv ?p0" by (simp add: conn_inv_def)
  from publisher_connect_post [OF this, of env] show ?thesis
    by (auto simp: new_RabbitMqPublisher_def attempt_post_def pub_inv_def conn_inv_def split: prod.split)
qed

interpretation publisher: safe_machine "\<lambda>(f, fl, rt). publish env f fl rt" pub_inv for env
  by unfold_locales (use publish_post in fastforce)

interpretation publisher_d: checked_machine "\<lambda>(f, fl, rt). publish_d env f fl rt" pub_inv "null_connection env" for env
proof unfold_locales
  fix p :: RabbitMqPublisher and i :: "EnrichedFrame \<times> FlowRecord \<times> bool"
  assume inv: "pub_inv p"
  obtain f fl rt where i: "i = (f, fl, rt)" by (cases i)
  show "case (\<lambda>(f, fl, rt). publish_d env f fl rt) i p of None \<Rightarrow> null_connection env | Some (out, p') \<Rightarrow> pub_inv p'"
    using publish_d_cases [of env f fl rt p] publish_post [OF inv, of env f fl rt] by (auto simp: i)
qed


subsection \<open>What a successful publish has seen, and what a publish costs\<close>

definition ack_answer :: "amqp_env \<Rightarrow> amqp_call list \<Rightarrow> bool" where
  "ack_answer env h \<longleftrightarrow> env_status env h = AMQP_STATUS_OK env
     \<and> fr_frame_type (env_frame env h) = AMQP_FRAME_METHOD env \<and> fr_method_id (env_frame env h) = AMQP_BASIC_ACK_METHOD env"

lemma confirm_wait_confirmed:
  "confirm_wait env c w p = (Confirmed, p') \<Longrightarrow>
     \<exists>pre. pub_calls p' = Wait_Frame c # pre @ pub_calls p \<and> set pre \<subseteq> {Wait_Frame c, Stop_Flag_Load} \<and> ack_answer env (pub_calls p')"
proof (induction env c w p rule: confirm_wait.induct)
  case (1 env c w p)
  let ?p1 = "emit (Wait_Frame c) p" and ?p2 = "emit Stop_Flag_Load (emit (Wait_Frame c) p)"
  have low: "w < MAX_CONFIRM_WAIT_MS" using 1(3) by (subst (asm) confirm_wait.simps) (auto split: if_splits)
  consider (again1) "env_status env (pub_calls ?p1) = AMQP_STATUS_TIMEOUT env" "\<not> env_stop_flag env (pub_calls ?p2)"
      "confirm_wait env c (w + POLL_INTERVAL_MS) ?p2 = (Confirmed, p')"
    | (again2) "env_status env (pub_calls ?p1) \<noteq> AMQP_STATUS_TIMEOUT env" "env_status env (pub_calls ?p1) = AMQP_STATUS_OK env"
      "\<not> ack_answer env (pub_calls ?p1)" "confirm_wait env c (w + POLL_INTERVAL_MS) ?p1 = (Confirmed, p')"
      "\<not> (fr_frame_type (env_frame env (pub_calls ?p1)) = AMQP_FRAME_METHOD env
          \<and> fr_method_id (env_frame env (pub_calls ?p1)) = AMQP_BASIC_NACK_METHOD env)"
    | (acked) "ack_answer env (pub_calls ?p1)" "p' = ?p1"
    using 1(3) low by (subst (asm) (1) confirm_wait.simps) (auto simp: Let_def ack_answer_def split: if_splits)
  then show ?case
  proof cases
    case again1
    from 1(1) [OF low refl refl refl again1(1) refl again1(2,3)] obtain pre where
      "pub_calls p' = Wait_Frame c # pre @ pub_calls ?p2" "set pre \<subseteq> {Wait_Frame c, Stop_Flag_Load}" "ack_answer env (pub_calls p')"
      by blast
    then show ?thesis by (intro exI [of _ "pre @ [Stop_Flag_Load, Wait_Frame c]"]) simp
  next
    case again2
    have "\<exists>pre. pub_calls p' = Wait_Frame c # pre @ pub_calls ?p1 \<and> set pre \<subseteq> {Wait_Frame c, Stop_Flag_Load} \<and> ack_answer env (pub_calls p')"
      using again2 low by (intro 1(2)) (auto simp: ack_answer_def)
    then obtain pre where
      "pub_calls p' = Wait_Frame c # pre @ pub_calls ?p1" "set pre \<subseteq> {Wait_Frame c, Stop_Flag_Load}" "ack_answer env (pub_calls p')"
      by blast
    then show ?thesis by (intro exI [of _ "pre @ [Wait_Frame c]"]) simp
  next
    case acked
    then show ?thesis by (intro exI [of _ "[]"]) simp
  qed
qed

text \<open>How often a kind of call occurs in a history.\<close>

definition new_calls :: "amqp_call list \<Rightarrow> nat" where
  "new_calls h = length (filter (\<lambda>x. \<exists>c. x = New_Connection c) h)"

definition publish_calls :: "amqp_call list \<Rightarrow> nat" where
  "publish_calls h = length (filter (\<lambda>x. \<exists>c ch ex rk j. x = Basic_Publish c ch ex rk j) h)"

definition wait_calls :: "amqp_call list \<Rightarrow> nat" where
  "wait_calls h = length (filter (\<lambda>x. \<exists>c. x = Wait_Frame c) h)"

definition sleep_calls :: "amqp_call list \<Rightarrow> nat" where
  "sleep_calls h = length (filter (\<lambda>x. \<exists>n. x = Sleep_For n) h)"

lemma call_counts [simp]:
  "new_calls (x # h) = (case x of New_Connection _ \<Rightarrow> 1 | _ \<Rightarrow> 0) + new_calls h"
  "publish_calls (x # h) = (case x of Basic_Publish _ _ _ _ _ \<Rightarrow> 1 | _ \<Rightarrow> 0) + publish_calls h"
  "wait_calls (x # h) = (case x of Wait_Frame _ \<Rightarrow> 1 | _ \<Rightarrow> 0) + wait_calls h"
  "sleep_calls (x # h) = (case x of Sleep_For _ \<Rightarrow> 1 | _ \<Rightarrow> 0) + sleep_calls h"
  by (cases x; simp add: new_calls_def publish_calls_def wait_calls_def sleep_calls_def)+

text \<open>The messages handed to the broker, oldest first.\<close>

fun sent :: "amqp_call list \<Rightarrow> string list" where
  "sent [] = []"
| "sent (x # h) = sent h @ (case x of Basic_Publish _ _ _ _ json \<Rightarrow> [json] | _ \<Rightarrow> [])"

text \<open>How many frames were given up because no connection could be made.\<close>

definition dropped_logs :: "amqp_call list \<Rightarrow> nat" where
  "dropped_logs h = length (filter (\<lambda>x. x = Log_Message ERROR drop_message) h)"

lemma dropped_logs_simps [simp]:
  "dropped_logs [] = 0"
  "dropped_logs (x # h) = (if x = Log_Message ERROR drop_message then 1 else 0) + dropped_logs h"
  by (simp_all add: dropped_logs_def)

text \<open>No other message of the publisher is this one.\<close>

lemma not_drop_message:
  "''rabbitmq_publisher: a'' @ t \<noteq> drop_message" "''rabbitmq_publisher: c'' @ t \<noteq> drop_message"
  "''rabbitmq_publisher: p'' @ t \<noteq> drop_message" "''rabbitmq_publisher: B'' @ t \<noteq> drop_message"
  by (simp_all add: drop_message_def)

lemmas not_drop_simps [simp] = not_drop_message [simplified]

text \<open>\<open>costs h h' n b w s\<close>: from \<open>h\<close> to \<open>h'\<close> at most \<open>n\<close> connections are created, \<open>b\<close> messages
  published, \<open>w\<close> frames waited for and \<open>s\<close> pauses made.\<close>

definition costs :: "amqp_call list \<Rightarrow> amqp_call list \<Rightarrow> nat \<Rightarrow> nat \<Rightarrow> nat \<Rightarrow> nat \<Rightarrow> bool" where
  "costs h h' n b w s \<longleftrightarrow> new_calls h' \<le> new_calls h + n \<and> publish_calls h' \<le> publish_calls h + b
     \<and> wait_calls h' \<le> wait_calls h + w \<and> sleep_calls h' \<le> sleep_calls h + s
     \<and> (b = 0 \<longrightarrow> sent h' = sent h \<and> dropped_logs h' = dropped_logs h)"

lemma cost_LetI: "(\<And>x. x = a \<Longrightarrow> P (f x)) \<Longrightarrow> P (Let a f)"
  by simp

lemma connect_attempt_cost:
  "costs (pub_calls p) (pub_calls (snd (connect_attempt env attempt p))) 1 0 0 (if attempt < MAX_ATTEMPTS then 1 else 0)"
  (is "costs _ (pub_calls (snd ?r)) _ _ _ ?s")
proof -
  have "(\<lambda>r. costs (pub_calls p) (pub_calls (snd r)) 1 0 0 ?s) ?r"
    unfolding connect_attempt_def abandon_attempt_def
    by (intro cost_LetI [where P = "\<lambda>r. costs (pub_calls p) (pub_calls (snd r)) 1 0 0 ?s"]
        if_split [where P = "\<lambda>r. costs (pub_calls p) (pub_calls (snd r)) 1 0 0 ?s", THEN iffD2] conjI impI)
      (simp_all add: costs_def Let_def)
  then show ?thesis .
qed

lemma connect_loop_cost:
  "costs (pub_calls p) (pub_calls (snd (connect_loop env attempt p))) (Suc MAX_ATTEMPTS - attempt) 0 0 (MAX_ATTEMPTS - attempt)"
proof (induction env attempt p rule: connect_loop.induct)
  case (1 env attempt p)
  obtain r p' where rp: "connect_attempt env attempt p = (r, p')" by fastforce
  have a: "costs (pub_calls p) (pub_calls p') 1 0 0 (if attempt < MAX_ATTEMPTS then 1 else 0)"
    using connect_attempt_cost [of p env attempt] rp by simp
  show ?case
  proof (cases "attempt \<le> MAX_ATTEMPTS \<and> r = None")
    case True
    have "costs (pub_calls p') (pub_calls (snd (connect_loop env (Suc attempt) p')))
        (Suc MAX_ATTEMPTS - Suc attempt) 0 0 (MAX_ATTEMPTS - Suc attempt)"
      using 1 [of r p'] True rp by simp
    then show ?thesis using True a by (subst connect_loop.simps) (auto simp: rp costs_def split: if_splits)
  next
    case False
    then show ?thesis using a by (subst connect_loop.simps) (auto simp: rp costs_def split: option.split if_splits)
  qed
qed

lemma publisher_connect_cost:
  "costs (pub_calls p) (pub_calls (snd (publisher_connect env p))) 3 0 0 2"
  using connect_loop_cost [of "if pub_conn p \<noteq> None then disconnect p else p" env 1]
  by (auto simp: publisher_connect_def MAX_ATTEMPTS_def disconnect_def costs_def split: option.splits if_splits)

lemma confirm_wait_cost:
  "costs (pub_calls p) (pub_calls (snd (confirm_wait env c w p))) 0 0
     ((MAX_CONFIRM_WAIT_MS + 49 - w) div POLL_INTERVAL_MS) 0"
proof (induction env c w p rule: confirm_wait.induct)
  case (1 env c w p)
  show ?case
  proof (cases "w < MAX_CONFIRM_WAIT_MS")
    case True
    then have "(MAX_CONFIRM_WAIT_MS + 49 - w) div POLL_INTERVAL_MS
      = Suc ((MAX_CONFIRM_WAIT_MS + 49 - (w + POLL_INTERVAL_MS)) div POLL_INTERVAL_MS)"
      by (simp add: MAX_CONFIRM_WAIT_MS_def POLL_INTERVAL_MS_def)
    then show ?thesis using 1 True by (subst confirm_wait.simps) (simp add: Let_def costs_def)
  next
    case False
    then show ?thesis by (subst confirm_wait.simps) (simp add: costs_def)
  qed
qed

lemma publish_message_cost:
  assumes "publish_message env json p = Some (b, p')"
  shows "costs (pub_calls p) (pub_calls p') 0 1 100 0"
proof -
  obtain c where c: "pub_conn p = Some c" using assms by (auto simp: publish_message_def split: option.splits)
  let ?p1 = "emit (Basic_Publish c (cfg_channel (pub_config p)) (cfg_exchange (pub_config p)) (cfg_routing_key (pub_config p)) json) p"
  obtain x p2 where x: "confirm_wait env c 0 ?p1 = (x, p2)" by fastforce
  have "costs (pub_calls ?p1) (pub_calls p2) 0 0 100 0"
    using confirm_wait_cost [of ?p1 env c 0] x by (simp add: MAX_CONFIRM_WAIT_MS_def POLL_INTERVAL_MS_def)
  then show ?thesis using assms x
    by (cases x) (auto simp: publish_message_def c Let_def costs_def split: if_splits)
qed

lemma publish_message_sent:
  assumes "publish_message env json p = Some (b, p')"
  shows "sent (pub_calls p') = sent (pub_calls p) @ [json] \<and> dropped_logs (pub_calls p') = dropped_logs (pub_calls p)"
proof -
  obtain c where c: "pub_conn p = Some c" using assms by (auto simp: publish_message_def split: option.splits)
  let ?p1 = "emit (Basic_Publish c (cfg_channel (pub_config p)) (cfg_exchange (pub_config p)) (cfg_routing_key (pub_config p)) json) p"
  obtain x p2 where x: "confirm_wait env c 0 ?p1 = (x, p2)" by fastforce
  have "sent (pub_calls p2) = sent (pub_calls ?p1) \<and> dropped_logs (pub_calls p2) = dropped_logs (pub_calls ?p1)"
    using confirm_wait_cost [of ?p1 env c 0] x by (simp add: costs_def)
  then show ?thesis using assms x by (cases x) (auto simp: publish_message_def c Let_def split: if_splits)
qed

text \<open>A frame is handed to the broker at most once, and as its own JSON object; when \<open>publish\<close> returns
  true, exactly once.\<close>

text \<open>The frames that are published: ARP, ICMP, TCP and UDP.\<close>

definition published :: "EnrichedFrame \<Rightarrow> bool" where
  "published f \<longleftrightarrow> ef_protocol f \<in> {0, 1, 6, 17}"

lemma publish_sent:
  assumes "publish env f fl rt p = Some (b, p')"
  shows "sent (pub_calls p') = sent (pub_calls p) \<and> (b \<longrightarrow> \<not> published f)
    \<or> published f \<and> sent (pub_calls p') = sent (pub_calls p) @ [buildJson f fl rt]"
proof -
  let ?q = "emit (Log_Message WARN ''rabbitmq_publisher: attempting reconnect...'') p"
  obtain r p1 where r: "publisher_connect env ?q = (r, p1)" by fastforce
  have "sent (pub_calls p1) = sent (pub_calls p)" using publisher_connect_cost [of ?q env] r by (simp add: costs_def)
  then show ?thesis
    using assms r publish_message_sent [of env "buildJson f fl rt" p b p']
      publish_message_sent [of env "buildJson f fl rt" "p1\<lparr>pub_connected := r\<rparr>" b p']
    by (auto simp: publish_def published_def split: if_splits)
qed

text \<open>A published frame is either handed over or reported as dropped, any other frame is neither.\<close>

lemma publish_balance:
  assumes "publish env f fl rt p = Some (b, p')"
  shows "length (sent (pub_calls p')) + dropped_logs (pub_calls p')
    = length (sent (pub_calls p)) + dropped_logs (pub_calls p) + (if published f then 1 else 0)"
proof -
  let ?q = "emit (Log_Message WARN ''rabbitmq_publisher: attempting reconnect...'') p"
  obtain r p1 where r: "publisher_connect env ?q = (r, p1)" by fastforce
  have "sent (pub_calls p1) = sent (pub_calls p)" "dropped_logs (pub_calls p1) = dropped_logs (pub_calls p)"
    using publisher_connect_cost [of ?q env] r by (simp_all add: costs_def)
  then show ?thesis
    using assms r publish_message_sent [of env "buildJson f fl rt" p b p']
      publish_message_sent [of env "buildJson f fl rt" "p1\<lparr>pub_connected := r\<rparr>" b p']
    by (auto simp: publish_def published_def split: if_splits)
qed

lemma new_publisher_sent: "sent (pub_calls (new_RabbitMqPublisher env cfg)) = [] \<and> dropped_logs (pub_calls (new_RabbitMqPublisher env cfg)) = 0"
  using publisher_connect_cost [of "\<lparr>pub_config = cfg, pub_conn = None, pub_sock = False, pub_connected = False, pub_calls = []\<rparr>" env]
  by (auto simp: new_RabbitMqPublisher_def costs_def split: prod.split)

lemma publish_cost:
  assumes "publish env f fl rt p = Some (b, p')"
  shows "costs (pub_calls p) (pub_calls p') 3 1 100 2"
proof -
  let ?q = "emit (Log_Message WARN ''rabbitmq_publisher: attempting reconnect...'') p"
  obtain r p1 where r: "publisher_connect env ?q = (r, p1)" by fastforce
  have c: "costs (pub_calls p) (pub_calls p1) 3 0 0 2"
    using publisher_connect_cost [of ?q env] r by (simp add: costs_def)
  have msg: "publish_message env json q = Some (b, p') \<Longrightarrow> costs (pub_calls q) (pub_calls p') 0 1 100 0" for json q
    by (rule publish_message_cost)
  show ?thesis
    using assms c msg [of "buildJson f fl rt" p] msg [of "buildJson f fl rt" "p1\<lparr>pub_connected := r\<rparr>"] r
    by (auto simp: publish_def costs_def split: if_splits)
qed


subsection \<open>Properties\<close>

text \<open>C19: The publisher manages its connections properly, whatever the broker and the client library
  answer: a publisher that is constructed, publishes any sequence of frames and is destroyed never
  calls the library with a connection that has been destroyed or that it does not have, never
  destroys a connection twice, and leaves no connection behind. The one exception is an
  \<open>amqp_new_connection\<close> that returns a null pointer, which \<open>connect\<close> passes on untested: construction and run
  are undefined (\<open>None\<close>) only if that happened.\<close>

theorem publisher_connections_safe:
  "case new_RabbitMqPublisher_d env cfg of
     None \<Rightarrow> \<exists>c h. \<not> env_new_connection env (New_Connection c # h)
   | Some p0 \<Rightarrow> (case machine_run (\<lambda>(f, fl, rt). publish_d env f fl rt) frames p0 of
        None \<Rightarrow> \<exists>c h. \<not> env_new_connection env (New_Connection c # h)
      | Some (outs, p) \<Rightarrow> calls_ok (pub_calls (destroy_RabbitMqPublisher p)) \<and> live (pub_calls (destroy_RabbitMqPublisher p)) = {}
          \<and> length outs = length frames)"
proof -
  have "new_RabbitMqPublisher_d env cfg = Some p0 \<Longrightarrow> pub_inv p0" for p0
    using new_publisher_d_cases [of env cfg] new_publisher_inv [of env cfg] by auto
  from publisher_d.run_checked [OF this, of _ env frames] show ?thesis
    using new_publisher_d_cases [of env cfg] disconnect_inv
    by (auto simp: null_connection_def pub_inv_def conn_inv_def destroy_RabbitMqPublisher_def split: option.splits)
qed

text \<open>When connections can always be created, every run is defined.\<close>

lemma publisher_run_defined:
  assumes "\<not> null_connection env"
  shows "\<exists>outs p. machine_run (\<lambda>(f, fl, rt). publish_d env f fl rt) frames (new_RabbitMqPublisher env cfg) = Some (outs, p)
    \<and> pub_inv p \<and> length outs = length frames"
proof -
  have "(\<lambda>(f, fl, rt). publish_d env f fl rt) = (\<lambda>(f, fl, rt). publish env f fl rt)"
    using publish_d_cases [of env] assms by (auto simp: fun_eq_iff)
  then show ?thesis using publisher.run_safe [OF new_publisher_inv, of env frames env cfg] by simp
qed

text \<open>A null pointer does reach the library: it is enough that the first allocation fails.\<close>

lemma null_connection_used:
  assumes "\<not> env_new_connection env [New_Connection 0]"
  shows "new_RabbitMqPublisher_d env cfg = None"
  using assms by (simp add: new_RabbitMqPublisher_d_def publisher_connect_d_def connect_loop_d.simps connect_attempt_d_def MAX_ATTEMPTS_def)

lemma publish_confirmed_aux:
  assumes "publish_message env json p = Some (True, p')"
  shows "\<exists>c pre. pub_calls p' = Wait_Frame c # pre @ Basic_Publish c (cfg_channel (pub_config p)) (cfg_exchange (pub_config p))
        (cfg_routing_key (pub_config p)) json # pub_calls p
      \<and> set pre \<subseteq> {Wait_Frame c, Stop_Flag_Load} \<and> ack_answer env (pub_calls p')"
proof -
  obtain c where c: "pub_conn p = Some c" using assms by (auto simp: publish_message_def split: option.splits)
  let ?p1 = "emit (Basic_Publish c (cfg_channel (pub_config p)) (cfg_exchange (pub_config p)) (cfg_routing_key (pub_config p)) json) p"
  have "confirm_wait env c 0 ?p1 = (Confirmed, p')"
    using assms by (auto simp: publish_message_def c Let_def split: if_splits prod.splits confirm_exit.splits)
  from confirm_wait_confirmed [OF this] show ?thesis by auto
qed

text \<open>C18: \<open>publish\<close> returns true only for a frame whose protocol is not published at all (nothing is
  sent then) or for a frame the broker has acknowledged: the frame's JSON object was handed to
  the broker on the current connection, nothing but waiting happened on it afterwards, and the
  last frame received is a Basic.Ack.\<close>

theorem publish_true_is_confirmed:
  assumes "publish env f fl rt p = Some (True, p')"
  shows "(ef_protocol f \<notin> {0, 1, 6, 17} \<and> p' = p)
    \<or> (ef_protocol f \<in> {0, 1, 6, 17} \<and> (\<exists>c ch ex rk pre h. pub_calls p' = Wait_Frame c # pre @ Basic_Publish c ch ex rk (buildJson f fl rt) # h
      \<and> set pre \<subseteq> {Wait_Frame c, Stop_Flag_Load} \<and> ack_answer env (pub_calls p')))"
proof (cases "ef_protocol f \<in> {0, 1, 6, 17}")
  case True
  then obtain q where "publish_message env (buildJson f fl rt) q = Some (True, p')"
    using assms by (auto simp: publish_def split: if_splits prod.splits)
  from publish_confirmed_aux [OF this] True show ?thesis by blast
next
  case False
  then show ?thesis using assms by (simp add: publish_def)
qed

definition agreeable :: amqp_env where
  "agreeable = \<lparr>AMQP_STATUS_OK = 0, AMQP_STATUS_TIMEOUT = -13, AMQP_FRAME_METHOD = 1, AMQP_BASIC_ACK_METHOD = 0x003C0050,
     AMQP_BASIC_NACK_METHOD = 0x003C0078, env_new_connection = (\<lambda>_. True), env_socket_new = (\<lambda>_. True), env_status = (\<lambda>_. 0), env_reply_normal = (\<lambda>_. True),
     env_frame = (\<lambda>_. \<lparr>fr_frame_type = 1, fr_method_id = 0x003C0050\<rparr>), env_stop_flag = (\<lambda>_. False)\<rparr>"

lemma agreeable_publish:
  assumes "pub_conn p = Some c" and "pub_connected p" and "ef_protocol f = 6"
  shows "\<exists>p'. publish agreeable f fl rt p = Some (True, p')"
  using assms by (simp add: publish_def publish_message_def confirm_wait.simps Let_def agreeable_def MAX_CONFIRM_WAIT_MS_def)

theorem publish_true_is_confirmed_witness:
  "\<exists>p'. publish agreeable (new_EnrichedFrame\<lparr>ef_protocol := 6\<rparr>) new_FlowRecord False
      \<lparr>pub_config = default_PublisherConfig, pub_conn = Some 0, pub_sock = True, pub_connected = True, pub_calls = [New_Connection 0]\<rparr>
      = Some (True, p') \<and> ack_answer agreeable (pub_calls p')"
proof -
  let ?p = "\<lparr>pub_config = default_PublisherConfig, pub_conn = Some 0, pub_sock = True, pub_connected = True, pub_calls = [New_Connection 0]\<rparr>"
  let ?f = "new_EnrichedFrame\<lparr>ef_protocol := 6\<rparr>"
  obtain p' where p': "publish agreeable ?f new_FlowRecord False ?p = Some (True, p')"
    using agreeable_publish [of ?p 0 ?f] by auto
  from publish_true_is_confirmed [OF this] p' show ?thesis by auto
qed

text \<open>C31: One call of \<open>publish\<close> is bounded: it opens at most three connections with at most two pauses
  between them, sends the message at most once, and polls for the confirm at most 100 times, so
  it always returns.\<close>

theorem publish_is_bounded:
  assumes "pub_inv p"
  shows "\<exists>b p'. publish env f fl rt p = Some (b, p') \<and> pub_inv p'
    \<and> new_calls (pub_calls p') \<le> new_calls (pub_calls p) + 3 \<and> sleep_calls (pub_calls p') \<le> sleep_calls (pub_calls p) + 2
    \<and> publish_calls (pub_calls p') \<le> publish_calls (pub_calls p) + 1 \<and> wait_calls (pub_calls p') \<le> wait_calls (pub_calls p) + 100"
  using publish_post [OF assms, of env f fl rt] publish_cost [of env f fl rt p] by (auto simp: costs_def)

theorem publish_is_bounded_witness:
  "pub_inv (new_RabbitMqPublisher agreeable default_PublisherConfig)
   \<and> (\<exists>b p'. publish agreeable new_EnrichedFrame new_FlowRecord False (new_RabbitMqPublisher agreeable default_PublisherConfig) = Some (b, p')
      \<and> publish_calls (pub_calls p') \<le> publish_calls (pub_calls (new_RabbitMqPublisher agreeable default_PublisherConfig)) + 1)"
  using publish_is_bounded [OF new_publisher_inv, of agreeable new_EnrichedFrame new_FlowRecord False agreeable default_PublisherConfig]
    new_publisher_inv by blast

end
