(* ===== verification/Raw_Socket.thy ===== *)
theory Raw_Socket
  imports Logger Dissector_Stage
begin

unbundle bit_operations_syntax

text \<open>
  \<open>include/capture/raw_socket.h\<close> and \<open>src/capture/raw_socket.cpp\<close>: opening the packet socket in
  promiscuous mode and dropping the capabilities, closing it, and collecting the local addresses.
  The operating system is an environment that answers each call as an arbitrary function of the
  history of calls; text written to the standard streams is part of the history. The buffer of
  \<open>SIOCGIFCONF\<close> has a size in bytes that is a \<open>std::size_t\<close>; its length goes to the kernel as an \<open>int\<close>.
\<close>

definition IFNAMSIZ :: nat where "IFNAMSIZ = 16"
definition IFREQ_SIZE :: nat where "IFREQ_SIZE = 40"  \<comment> \<open>\<open>sizeof (struct ifreq)\<close>\<close>
definition IFF_PROMISC :: u16 where "IFF_PROMISC = 0x100"

datatype os_call =
    Socket_Packet
  | Socket_Dgram
  | Get_Ifindex int string
  | Bind int int
  | Get_Ifflags int string
  | Set_Ifflags int string u16
  | Cap_Get_Proc
  | Cap_Clear_Net  \<comment> \<open>\<open>cap_set_flag\<close> clearing \<open>CAP_NET_RAW\<close> and \<open>CAP_NET_ADMIN\<close>, then \<open>cap_set_proc\<close>\<close>
  | Cap_To_Text
  | Get_Ifconf int int  \<comment> \<open>the descriptor and \<open>ifc_len\<close>\<close>
  | Get_Ifaddr int string
  | Os_Close int
  | Cout string
  | Cerr string
  | Os_Log LogLevel string

record os_env =
  os_getenv :: "string \<Rightarrow> string option"
  os_result :: "os_call list \<Rightarrow> int"
  os_ifindex :: "os_call list \<Rightarrow> int"
  os_ifflags :: "os_call list \<Rightarrow> u16"
  os_strerror :: "os_call list \<Rightarrow> string"
  os_caps :: "os_call list \<Rightarrow> bool"
  os_cap_text :: "os_call list \<Rightarrow> string option"
  os_interfaces :: "os_call list \<Rightarrow> string list"
  os_ifaddr :: "os_call list \<Rightarrow> bool \<times> u32"  \<comment> \<open>whether the family is \<open>AF_INET\<close>, and the address in host order\<close>

text \<open>\<open>g_socket_state\<close> and the history.\<close>

record socket_state =
  st_orig_flags :: u16
  st_iface :: string
  st_calls :: "os_call list"

definition os_emit :: "os_call \<Rightarrow> socket_state \<Rightarrow> socket_state" where
  "os_emit x s = s\<lparr>st_calls := x # st_calls s\<rparr>"

definition newline :: string where "newline = [CHR 0x0A]"

definition dropCapabilities :: "os_env \<Rightarrow> socket_state \<Rightarrow> socket_state" where
  "dropCapabilities env s =
     (let s1 = os_emit Cap_Get_Proc s in
      if \<not> os_caps env (st_calls s1) then
        os_emit (Cerr (''[raw_socket] cap_get_proc failed: '' @ os_strerror env (st_calls s1) @ newline)) s1
      else let s2 = os_emit Cap_Clear_Net s1;
               s3 = (if os_result env (st_calls s2) \<noteq> 0
                 then os_emit (Cerr (''[raw_socket] cap_set_proc failed: '' @ os_strerror env (st_calls s2) @ newline)) s2 else s2);
               s4 = os_emit Cap_Get_Proc s3 in
      if os_caps env (st_calls s4) then
        let s5 = os_emit Cap_To_Text s4 in
        (case os_cap_text env (st_calls s5) of None \<Rightarrow> s5
         | Some txt \<Rightarrow> os_emit (Cout (''[raw_socket] Capabilities dropped '' @ em_dash @ '' zero powers'' @ newline))
             (os_emit (Cout (''[raw_socket] Capabilities after drop: '' @ txt @ newline)) s5))
      else s4)"

text \<open>\<open>openRawSocket\<close> from the point on where the socket exists.\<close>

definition configure_socket :: "os_env \<Rightarrow> string \<Rightarrow> int \<Rightarrow> socket_state \<Rightarrow> int \<times> socket_state" where
  "configure_socket env iface fd s2 =
     (let ifr_name = take (IFNAMSIZ - 1) iface;
                  s3 = os_emit (Get_Ifindex fd ifr_name) s2 in
         if os_result env (st_calls s3) < 0 then
           (-1, os_emit (Os_Close fd) (os_emit (Cerr (''[raw_socket] ioctl SIOCGIFINDEX failed for '' @ iface @ '': ''
             @ os_strerror env (st_calls s3) @ newline)) s3))
         else let ifindex = os_ifindex env (st_calls s3);
                  s4 = os_emit (Cout (''[raw_socket] Interface '' @ iface @ '' index: ''
                    @ int_string ifindex @ newline)) s3;
                  s5 = os_emit (Bind fd ifindex) s4 in
         if os_result env (st_calls s5) < 0 then
           (-1, os_emit (Os_Close fd) (os_emit (Cerr (''[raw_socket] bind() failed: '' @ os_strerror env (st_calls s5) @ newline)) s5))
         else let s6 = os_emit (Get_Ifflags fd ifr_name) s5 in
         if os_result env (st_calls s6) < 0 then
           (-1, os_emit (Os_Close fd) (os_emit (Cerr (''[raw_socket] ioctl SIOCGIFFLAGS failed: ''
             @ os_strerror env (st_calls s6) @ newline)) s6))
         else let flags = os_ifflags env (st_calls s6);
                  s7 = s6\<lparr>st_orig_flags := flags, st_iface := take (IFNAMSIZ - 1) iface\<rparr>;
                  s8 = os_emit (Set_Ifflags fd ifr_name (flags OR IFF_PROMISC)) s7 in
         if os_result env (st_calls s8) < 0 then
           (-1, os_emit (Os_Close fd) (os_emit (Cerr (''[raw_socket] ioctl SIOCSIFFLAGS (promisc) failed: ''
             @ os_strerror env (st_calls s8) @ newline)) s8))
         else let s9 = os_emit (Cout (''[raw_socket] Promiscuous mode enabled on '' @ iface @ newline)) s8;
                  s10 = dropCapabilities env s9 in
           (fd, os_emit (Cout (''[raw_socket] Raw socket ready '' @ em_dash @ '' fd: '' @ int_string fd @ newline)) s10))"

definition openRawSocket :: "os_env \<Rightarrow> socket_state \<Rightarrow> int \<times> socket_state" where
  "openRawSocket env s =
     (let iface = (case os_getenv env ''CAPTURE_INTERFACE'' of Some v \<Rightarrow> v | None \<Rightarrow> ''eth0'');
          s1 = os_emit (Cout (''[raw_socket] Opening raw socket on interface: '' @ iface @ newline)) s;
          s2 = os_emit Socket_Packet s1;
          fd = os_result env (st_calls s2)
      in if fd < 0 then
           (-1, os_emit (Cerr (''[raw_socket] Check CAP_NET_RAW is granted'' @ newline))
             (os_emit (Cerr (''[raw_socket] socket() failed: '' @ os_strerror env (st_calls s2) @ newline)) s2))
         else configure_socket env iface fd s2)"

definition closeRawSocket :: "os_env \<Rightarrow> int \<Rightarrow> socket_state \<Rightarrow> socket_state" where
  "closeRawSocket env fd s =
     (if fd < 0 then s
      else let s1 = (if st_iface s \<noteq> [] then
               let s0 = os_emit (Set_Ifflags fd (st_iface s) (st_orig_flags s)) s in
               if os_result env (st_calls s0) < 0
               then os_emit (Cerr (''[raw_socket] Failed to restore flags: '' @ os_strerror env (st_calls s0) @ newline)) s0
               else os_emit (Cout (''[raw_socket] Promiscuous mode cleared on '' @ st_iface s @ newline)) s0
             else s)
        in os_emit (Cout (''[raw_socket] Socket closed'' @ newline)) (os_emit (Os_Close fd) s1))"


subsection \<open>Local addresses\<close>

text \<open>The loop around \<open>SIOCGIFCONF\<close>: the interface names found, or \<open>None\<close> when the call fails; the
  bound on its iterations is used up when the outer value is \<open>None\<close>. The kernel fills in as many
  entries as fit \<open>ifc_len\<close> bytes (none when the cast made it negative) and returns their length.\<close>

fun ifconf_loop :: "os_env \<Rightarrow> nat \<Rightarrow> int \<Rightarrow> size_t \<Rightarrow> socket_state \<Rightarrow> (string list option \<times> socket_state) option" where
  "ifconf_loop env 0 probe_fd buf_size s = None"
| "ifconf_loop env (Suc fuel) probe_fd buf_size s =
     (let ifc_len = sint (ucast buf_size :: 32 word);
          s1 = os_emit (Get_Ifconf probe_fd ifc_len) s in
      if os_result env (st_calls s1) < 0 then
        Some (None, os_emit (Os_Close probe_fd) (os_emit (Os_Log WARN (''getLocalIps: SIOCGIFCONF failed: ''
          @ os_strerror env (st_calls s1))) s1))
      else let names = take (nat ifc_len div IFREQ_SIZE) (os_interfaces env (st_calls s1)) in
      if of_nat (IFREQ_SIZE * length names) < buf_size then Some (Some names, s1)
      else ifconf_loop env fuel probe_fd (buf_size * 2) s1)"

fun collect_addresses :: "os_env \<Rightarrow> int \<Rightarrow> string list \<Rightarrow> LocalIpSet \<Rightarrow> socket_state \<Rightarrow> LocalIpSet \<times> socket_state" where
  "collect_addresses env probe_fd [] result s = (result, s)"
| "collect_addresses env probe_fd (iface # ifaces) result s =
     (let ifr_name = take (IFNAMSIZ - 1) iface;
          s1 = os_emit (Get_Ifaddr probe_fd ifr_name) s;
          (inet, addr) = os_ifaddr env (st_calls s1)
      in if os_result env (st_calls s1) < 0 then collect_addresses env probe_fd ifaces result s1
         else if \<not> inet then collect_addresses env probe_fd ifaces result s1
         else if addr = 0 then collect_addresses env probe_fd ifaces result s1
         else collect_addresses env probe_fd ifaces (insert addr result)
           (os_emit (Os_Log INFO (''Local IP detected: '' @ inet_ntop (htonl_bytes addr) @ '' on interface '' @ ifr_name)) s1))"

definition getLocalIps :: "os_env \<Rightarrow> nat \<Rightarrow> socket_state \<Rightarrow> (LocalIpSet \<times> socket_state) option" where
  "getLocalIps env fuel s =
     (let s1 = os_emit Socket_Dgram s; probe_fd = os_result env (st_calls s1) in
      if probe_fd < 0 then
        Some ({}, os_emit (Os_Log WARN (''getLocalIps: failed to open probe socket: '' @ os_strerror env (st_calls s1))) s1)
      else (case ifconf_loop env fuel probe_fd (of_nat (IFREQ_SIZE * 16)) s1 of
          None \<Rightarrow> None
        | Some (None, s2) \<Rightarrow> Some ({}, s2)
        | Some (Some names, s2) \<Rightarrow>
            let (result, s3) = collect_addresses env probe_fd names {} s2 in
            Some (result, os_emit (Os_Log INFO (''[raw_socket] '' @ dec_string (card result)
              @ '' local IPv4 address(es) found'')) (os_emit (Os_Close probe_fd) s3))))"


subsection \<open>Descriptors\<close>

text \<open>The descriptors that are open after a history.\<close>

fun open_fds :: "os_env \<Rightarrow> os_call list \<Rightarrow> int list" where
  "open_fds env [] = []"
| "open_fds env (x # h) =
     (case x of Os_Close fd \<Rightarrow> remove1 fd (open_fds env h)
      | Socket_Packet \<Rightarrow> (if os_result env (x # h) < 0 then open_fds env h else os_result env (x # h) # open_fds env h)
      | Socket_Dgram \<Rightarrow> (if os_result env (x # h) < 0 then open_fds env h else os_result env (x # h) # open_fds env h)
      | _ \<Rightarrow> open_fds env h)"

lemma os_emit_fields [simp]:
  "st_calls (os_emit x s) = x # st_calls s" "st_iface (os_emit x s) = st_iface s" "st_orig_flags (os_emit x s) = st_orig_flags s"
  by (simp_all add: os_emit_def)

lemma dropCapabilities_fds [simp]:
  "open_fds env (st_calls (dropCapabilities env s)) = open_fds env (st_calls s)"
  "st_iface (dropCapabilities env s) = st_iface s" "st_orig_flags (dropCapabilities env s) = st_orig_flags s"
  by (simp_all add: dropCapabilities_def Let_def split: option.split)

text \<open>Configuring either closes the descriptor and reports failure or returns it open.\<close>

definition configured :: "os_env \<Rightarrow> int \<Rightarrow> int list \<Rightarrow> int \<times> socket_state \<Rightarrow> bool" where
  "configured env fd fds r \<longleftrightarrow> open_fds env (st_calls (snd r)) = (if fst r = fd then fds else remove1 fd fds) \<and> fst r \<in> {fd, -1}"

lemma configured_LetI: "(\<And>x. x = a \<Longrightarrow> configured env fd fds (f x)) \<Longrightarrow> configured env fd fds (Let a f)"
  by simp

lemma configured_ifI:
  "(b \<Longrightarrow> configured env fd fds x) \<Longrightarrow> (\<not> b \<Longrightarrow> configured env fd fds y) \<Longrightarrow> configured env fd fds (if b then x else y)"
  by simp

lemma configure_socket_fds:
  assumes "0 \<le> fd"
  shows "configured env fd (open_fds env (st_calls s)) (configure_socket env iface fd s)"
proof -
  have "fd \<noteq> -1" "-1 \<noteq> fd" using assms by auto
  then show ?thesis
    unfolding configure_socket_def
    by (intro configured_LetI configured_ifI) (simp_all (no_asm_simp) add: configured_def)
qed

lemma openRawSocket_fds:
  assumes "openRawSocket env s = (fd, s')"
  shows "open_fds env (st_calls s') = (if fd < 0 then open_fds env (st_calls s) else fd # open_fds env (st_calls s))"
proof -
  define iface s2 where "iface = (case os_getenv env ''CAPTURE_INTERFACE'' of Some v \<Rightarrow> v | None \<Rightarrow> ''eth0'')"
    and "s2 = os_emit Socket_Packet (os_emit (Cout (''[raw_socket] Opening raw socket on interface: '' @ iface @ newline)) s)"
  let ?fd = "os_result env (st_calls s2)"
  show ?thesis
  proof (cases "?fd < 0")
    case True
    then show ?thesis using assms by (auto simp: openRawSocket_def Let_def s2_def iface_def)
  next
    case False
    then have "configure_socket env iface ?fd s2 = (fd, s')"
      using assms by (simp add: openRawSocket_def Let_def s2_def iface_def)
    moreover have "open_fds env (st_calls s2) = ?fd # open_fds env (st_calls s)" using False by (simp add: s2_def)
    ultimately show ?thesis using configure_socket_fds [of ?fd env s2 iface] False
      by (auto simp: configured_def)
  qed
qed

lemma closeRawSocket_fds:
  "open_fds env (st_calls (closeRawSocket env fd s)) = (if fd < 0 then open_fds env (st_calls s) else remove1 fd (open_fds env (st_calls s)))"
  by (simp add: closeRawSocket_def Let_def)

lemma ifconf_loop_fds:
  "ifconf_loop env fuel fd bsize s = Some (r, s') \<Longrightarrow>
     open_fds env (st_calls s') = (if r = None then remove1 fd (open_fds env (st_calls s)) else open_fds env (st_calls s))"
  by (induction fuel arbitrary: bsize s) (auto simp: Let_def split: if_splits)

lemma collect_addresses_fds:
  "open_fds env (st_calls (snd (collect_addresses env fd names result s))) = open_fds env (st_calls s)"
  by (induction names arbitrary: result s) (simp_all add: Let_def split: prod.split)

lemma getLocalIps_fds:
  assumes "getLocalIps env fuel s = Some (ips, s')"
  shows "open_fds env (st_calls s') = open_fds env (st_calls s)"
proof (cases "os_result env (Socket_Dgram # st_calls s) < 0")
  case True
  then show ?thesis using assms by (auto simp: getLocalIps_def Let_def)
next
  case False
  let ?s1 = "os_emit Socket_Dgram s" and ?fd = "os_result env (Socket_Dgram # st_calls s)"
  obtain r s2 where l: "ifconf_loop env fuel ?fd (of_nat (IFREQ_SIZE * 16)) ?s1 = Some (r, s2)"
    using assms False by (auto simp: getLocalIps_def Let_def split: option.splits)
  note f = ifconf_loop_fds [OF l]
  show ?thesis
    using assms False l f collect_addresses_fds [of env ?fd _ "{}" s2]
    by (auto simp: getLocalIps_def Let_def split: option.splits prod.splits) (metis remove1.simps(2) snd_conv)+
qed


subsection \<open>The local addresses\<close>

text \<open>A system whose interfaces do not change while they are read.\<close>

definition stable_os :: "os_env \<Rightarrow> string list \<Rightarrow> (string \<Rightarrow> int) \<Rightarrow> (string \<Rightarrow> bool \<times> u32) \<Rightarrow> bool" where
  "stable_os env names rc addr \<longleftrightarrow>
     (\<forall>h. os_result env (Socket_Dgram # h) \<ge> 0)
     \<and> (\<forall>fd n h. os_result env (Get_Ifconf fd n # h) \<ge> 0 \<and> os_interfaces env (Get_Ifconf fd n # h) = names)
     \<and> (\<forall>fd n h. os_result env (Get_Ifaddr fd n # h) = rc n \<and> os_ifaddr env (Get_Ifaddr fd n # h) = addr n)"

definition local_addresses :: "string list \<Rightarrow> (string \<Rightarrow> int) \<Rightarrow> (string \<Rightarrow> bool \<times> u32) \<Rightarrow> u32 set" where
  "local_addresses names rc addr = {a. a \<noteq> 0 \<and> (\<exists>n \<in> set names. 0 \<le> rc (take 15 n) \<and> addr (take 15 n) = (True, a))}"

lemma collect_addresses_stable:
  "stable_os env names rc addr \<Longrightarrow>
     fst (collect_addresses env fd ns result s) = result \<union> local_addresses ns rc addr"
proof (induction ns arbitrary: result s)
  case Nil
  then show ?case by (simp add: local_addresses_def)
next
  case (Cons n ns)
  obtain inet a where ia: "addr (take 15 n) = (inet, a)" by fastforce
  have "local_addresses (n # ns) rc addr = (if 0 \<le> rc (take 15 n) \<and> inet \<and> a \<noteq> 0 then {a} else {}) \<union> local_addresses ns rc addr"
    using ia by (auto simp: local_addresses_def)
  then show ?case using Cons ia by (auto simp: stable_os_def Let_def IFNAMSIZ_def not_less)
qed

text \<open>The sizes of the buffer as long as they fit an \<open>int\<close>: 640 bytes, doubled at most 21 times.\<close>

definition buf_bytes :: "nat \<Rightarrow> size_t" where
  "buf_bytes k = of_nat (640 * 2 ^ k)"

lemma unat_of_size: "n < 2 ^ 64 \<Longrightarrow> unat (of_nat n :: size_t) = n"
  by (simp add: unat_of_nat take_bit_nat_eq_self)

lemma buf_bytes_int:
  assumes "k \<le> 21"
  shows "nat (sint (ucast (buf_bytes k) :: 32 word)) div IFREQ_SIZE = 16 * 2 ^ k" and "unat (buf_bytes k) = 640 * 2 ^ k"
proof -
  have "(2 :: nat) ^ k \<le> 2 ^ 21" using assms by (rule power_increasing) simp
  then have b: "640 * 2 ^ k < (2 :: nat) ^ 31" by simp
  then show u: "unat (buf_bytes k) = 640 * 2 ^ k" unfolding buf_bytes_def by (intro unat_of_size) simp
  have "unat (ucast (buf_bytes k) :: 32 word) = 640 * 2 ^ k"
    unfolding unsigned_ucast_eq using b u by (simp add: take_bit_nat_eq_self)
  then have "uint (ucast (buf_bytes k) :: 32 word) = int (640 * 2 ^ k)" by (metis uint_nat)
  moreover have "int (640 * 2 ^ k) < 2 ^ 31" using b by (metis of_nat_less_iff of_nat_numeral of_nat_power)
  moreover have "- (2 ^ 31) \<le> int (640 * 2 ^ k)" by (rule order_trans [of _ 0]) simp_all
  ultimately have "sint (ucast (buf_bytes k) :: 32 word) = int (640 * 2 ^ k)"
    using signed_take_bit_int_eq_self [of 31 "int (640 * 2 ^ k)"] by (simp add: sint_uint)
  then show "nat (sint (ucast (buf_bytes k) :: 32 word)) div IFREQ_SIZE = 16 * 2 ^ k"
    by (simp add: IFREQ_SIZE_def nat_mult_distrib nat_power_eq)
qed

lemma buf_bytes_double: "buf_bytes k * 2 = buf_bytes (Suc k)"
  by (simp add: buf_bytes_def)

lemma buf_bytes_first: "of_nat (IFREQ_SIZE * 16) = buf_bytes 0"
  by (simp add: buf_bytes_def IFREQ_SIZE_def)

lemma ifconf_loop_turn:
  assumes "stable_os env names rc addr" and "k \<le> 21"
  shows "ifconf_loop env (Suc fuel) fd (buf_bytes k) s =
    (let s1 = os_emit (Get_Ifconf fd (sint (ucast (buf_bytes k) :: 32 word))) s in
     if length names < 16 * 2 ^ k then Some (Some names, s1) else ifconf_loop env fuel fd (buf_bytes (Suc k)) s1)"
proof -
  let ?n = "length (take (16 * 2 ^ k) names)"
  have "(2 :: nat) ^ k \<le> 2 ^ 21" using assms(2) by (rule power_increasing) simp
  then have "unat (of_nat (IFREQ_SIZE * ?n) :: size_t) = 40 * ?n"
    unfolding IFREQ_SIZE_def by (intro unat_of_size) simp
  then have "of_nat (IFREQ_SIZE * ?n) < buf_bytes k \<longleftrightarrow> length names < 16 * 2 ^ k"
    using buf_bytes_int(2) [OF assms(2)] by (auto simp: word_less_nat_alt)
  moreover have "\<not> os_result env (Get_Ifconf fd n # h) < 0" "os_interfaces env (Get_Ifconf fd n # h) = names" for n h
    using assms(1) by (simp_all add: stable_os_def not_less)
  ultimately show ?thesis
    using buf_bytes_int(1) [OF assms(2)] by (simp add: Let_def buf_bytes_double del: of_nat_mult length_take)
qed

lemma ifconf_loop_stable:
  assumes "stable_os env names rc addr" and "length names < 16 * 2 ^ 21"
  shows "k \<le> 21 \<Longrightarrow> 21 \<le> k + fuel \<Longrightarrow> \<exists>s'. ifconf_loop env (Suc fuel) fd (buf_bytes k) s = Some (Some names, s')"
proof (induction fuel arbitrary: k s)
  case 0
  then have "length names < 16 * 2 ^ k" using assms(2) by simp
  then show ?case by (simp add: ifconf_loop_turn [OF assms(1) 0(1)] Let_def del: ifconf_loop.simps)
next
  case (Suc fuel)
  then have "Suc k \<le> 21" if "\<not> length names < 16 * 2 ^ k" using that assms(2) by (cases "k = 21") auto
  then show ?case using Suc.IH [of "Suc k"] Suc.prems
    by (simp add: ifconf_loop_turn [OF assms(1)] Let_def del: ifconf_loop.simps)
qed


subsection \<open>Properties\<close>

text \<open>No descriptor leaks, whatever the operating system answers: opening the raw socket and
  closing what it returned leaves exactly the descriptors open that were open before, also when
  opening fails half-way, and collecting the local addresses closes its probe socket on every path.\<close>

theorem raw_socket_no_leak:
  "open_fds env (st_calls (closeRawSocket env (fst (openRawSocket env s)) (snd (openRawSocket env s)))) = open_fds env (st_calls s)
   \<and> (case getLocalIps env fuel s of None \<Rightarrow> True | Some (ips, s') \<Rightarrow> open_fds env (st_calls s') = open_fds env (st_calls s))"
  using openRawSocket_fds [of env s] getLocalIps_fds [of env fuel s]
  by (auto simp: closeRawSocket_fds split: option.split prod.split) (metis prod.collapse remove1.simps(2))+

text \<open>C33: On a system whose interfaces do not change meanwhile, \<open>getLocalIps\<close> ends and returns exactly
  the IPv4 addresses of the interfaces that have one, without \<open>0.0.0.0\<close>, when there are fewer than
  33554432 interfaces: the buffer of 16 entries is then doubled at most 21 times, and its length in
  bytes stays below the largest \<open>int\<close>, which the cast of \<open>buf.size()\<close> needs.\<close>

theorem getLocalIps_exact:
  assumes "stable_os env names rc addr" and "length names < 33554432"
  shows "\<exists>s'. getLocalIps env (22 + n) s = Some (local_addresses names rc addr, s')"
proof -
  let ?fd = "os_result env (Socket_Dgram # st_calls s)"
  obtain s2 where l: "ifconf_loop env (Suc (21 + n)) ?fd (buf_bytes 0) (os_emit Socket_Dgram s) = Some (Some names, s2)"
    using ifconf_loop_stable [OF assms(1), of 0 "21 + n" ?fd "os_emit Socket_Dgram s"] assms(2) by auto
  moreover have "\<not> ?fd < 0" using assms(1) by (simp add: stable_os_def not_less)
  ultimately show ?thesis
    using collect_addresses_stable [OF assms(1), of ?fd names "{}" s2]
    unfolding getLocalIps_def buf_bytes_first by (auto simp: Let_def simp del: ifconf_loop.simps split: prod.split)
qed

text \<open>A system with the 26 interfaces \<open>a\<close> to \<open>z\<close> of which \<open>z\<close> has the loopback address and the others one address: they
  do not fit the first buffer.\<close>

definition many_interfaces :: "string list" where
  "many_interfaces = map (\<lambda>c. [c]) ''abcdefghijklmnopqrstuvwxyz''"

definition many_os :: os_env where
  "many_os = \<lparr>os_getenv = (\<lambda>_. None), os_result = (\<lambda>_. 0), os_ifindex = (\<lambda>_. 0), os_ifflags = (\<lambda>_. 0),
      os_strerror = (\<lambda>_. []), os_caps = (\<lambda>_. True), os_cap_text = (\<lambda>_. None), os_interfaces = (\<lambda>_. many_interfaces),
      os_ifaddr = (\<lambda>h. (True, if \<exists>fd. hd h = Get_Ifaddr fd ''z'' then 0x7F000001 else 0x0A000001))\<rparr>"

theorem getLocalIps_exact_witness:
  "16 < length many_interfaces
    \<and> (\<exists>s'. getLocalIps many_os 22 \<lparr>st_orig_flags = 0, st_iface = [], st_calls = []\<rparr> = Some ({0x7F000001, 0x0A000001}, s'))"
  (is "_ \<and> (\<exists>s'. getLocalIps _ _ ?s = _)")
proof -
  let ?addr = "\<lambda>n. (True, if n = ''z'' then 0x7F000001 else 0x0A000001 :: u32)"
  have len: "length many_interfaces = 26" by (simp add: many_interfaces_def)
  have st: "stable_os many_os many_interfaces (\<lambda>_. 0) ?addr" by (simp add: stable_os_def many_os_def)
  have "local_addresses many_interfaces (\<lambda>_. 0) ?addr = {0x7F000001, 0x0A000001}"
    by (auto simp: local_addresses_def many_interfaces_def)
  then show ?thesis using getLocalIps_exact [OF st, of 0 ?s] len by simp
qed

text \<open>The capabilities were dropped at some point of a history.\<close>

definition caps_dropped :: "os_env \<Rightarrow> os_call list \<Rightarrow> bool" where
  "caps_dropped env h \<longleftrightarrow> (\<exists>h1 h2. h = h1 @ Cap_Clear_Net # h2 \<and> os_result env (Cap_Clear_Net # h2) = 0)"

lemma caps_dropped_Cons: "caps_dropped env h \<Longrightarrow> caps_dropped env (x # h)"
  by (auto simp: caps_dropped_def) (metis append_Cons)

lemma dropCapabilities_drops:
  assumes "\<forall>h. os_caps env h" and "\<forall>h. os_result env (Cap_Clear_Net # h) = 0"
  shows "caps_dropped env (st_calls (dropCapabilities env s))"
proof -
  have "caps_dropped env (Cap_Clear_Net # h)" for h
    unfolding caps_dropped_def using assms(2) by (intro exI [of _ "[]"] exI [of _ h]) simp
  then show ?thesis using assms
    by (simp add: dropCapabilities_def Let_def caps_dropped_Cons split: option.split)
qed

definition dropped_last :: "os_env \<Rightarrow> string \<Rightarrow> int \<times> socket_state \<Rightarrow> bool" where
  "dropped_last env iface r \<longleftrightarrow> (0 \<le> fst r \<longrightarrow>
     (\<exists>x s9. snd r = os_emit x (dropCapabilities env s9) \<and> st_iface s9 = take (IFNAMSIZ - 1) iface))"

lemma dropped_LetI: "(\<And>x. x = a \<Longrightarrow> dropped_last env iface (f x)) \<Longrightarrow> dropped_last env iface (Let a f)"
  by simp

lemma dropped_ifI:
  "(b \<Longrightarrow> dropped_last env iface x) \<Longrightarrow> (\<not> b \<Longrightarrow> dropped_last env iface y) \<Longrightarrow> dropped_last env iface (if b then x else y)"
  by simp

lemma dropped_failed: "dropped_last env iface (-1, s)"
  by (simp add: dropped_last_def)

lemma dropped_done: "st_iface s9 = take (IFNAMSIZ - 1) iface \<Longrightarrow> dropped_last env iface (fd, os_emit x (dropCapabilities env s9))"
  by (auto simp: dropped_last_def)

lemma configure_socket_drops: "dropped_last env iface (configure_socket env iface fd s)"
  unfolding configure_socket_def
  by (intro dropped_LetI dropped_ifI) (simp_all (no_asm_simp) add: dropped_failed dropped_done)

text \<open>C36: Promiscuous mode is not switched off again: \<open>openRawSocket\<close> drops \<open>CAP_NET_ADMIN\<close> as its last
  step, so on a system that lets only its holders change interface flags, the attempt of
  \<open>closeRawSocket\<close> to restore the original flags always fails and only reports it.\<close>

theorem promiscuous_mode_not_restored:
  assumes privileged: "\<forall>h fd n fl. caps_dropped env h \<longrightarrow> os_result env (Set_Ifflags fd n fl # h) < 0"
    and "\<forall>h. os_caps env h" and "\<forall>h. os_result env (Cap_Clear_Net # h) = 0"
    and "os_getenv env ''CAPTURE_INTERFACE'' \<noteq> Some []"
    and "openRawSocket env s = (fd, s1)" and "0 \<le> fd"
  shows "\<exists>msg. st_calls (closeRawSocket env fd s1) = Cout (''[raw_socket] Socket closed'' @ newline) # Os_Close fd
    # Cerr (''[raw_socket] Failed to restore flags: '' @ msg) # Set_Ifflags fd (st_iface s1) (st_orig_flags s1) # st_calls s1"
proof -
  define iface where "iface = (case os_getenv env ''CAPTURE_INTERFACE'' of Some v \<Rightarrow> v | None \<Rightarrow> ''eth0'')"
  obtain fd0 s2 where "configure_socket env iface fd0 s2 = (fd, s1)"
    using assms(5,6) by (auto simp: openRawSocket_def Let_def iface_def split: if_splits)
  then obtain x s9 where s1: "s1 = os_emit x (dropCapabilities env s9)" "st_iface s9 = take 15 iface"
    using configure_socket_drops [of env iface fd0 s2] assms(6) by (auto simp: dropped_last_def IFNAMSIZ_def)
  have "iface \<noteq> []" using assms(4) by (auto simp: iface_def split: option.splits)
  then have "st_iface s1 \<noteq> []" using s1 by simp
  moreover have "caps_dropped env (st_calls s1)"
    using dropCapabilities_drops [OF assms(2,3), of s9] s1 by (simp add: caps_dropped_Cons)
  then have "os_result env (Set_Ifflags fd (st_iface s1) (st_orig_flags s1) # st_calls s1) < 0" using privileged by blast
  ultimately show ?thesis using assms(6) by (simp add: closeRawSocket_def Let_def)
qed

text \<open>A system that grants everything except changing flags after the drop.\<close>

definition privileged_os :: os_env where
  "privileged_os = \<lparr>os_getenv = (\<lambda>_. None),
     os_result = (\<lambda>h. case h of Set_Ifflags _ _ _ # h' \<Rightarrow> if Cap_Clear_Net \<in> set h' then -1 else 0 | _ \<Rightarrow> 0),
     os_ifindex = (\<lambda>_. 2), os_ifflags = (\<lambda>_. 0x1043), os_strerror = (\<lambda>_. []), os_caps = (\<lambda>_. True), os_cap_text = (\<lambda>_. None),
     os_interfaces = (\<lambda>_. []), os_ifaddr = (\<lambda>_. (False, 0))\<rparr>"

theorem promiscuous_mode_not_restored_witness:
  "\<exists>s1 msg. openRawSocket privileged_os \<lparr>st_orig_flags = 0, st_iface = [], st_calls = []\<rparr> = (0, s1)
    \<and> st_calls (closeRawSocket privileged_os 0 s1) = Cout (''[raw_socket] Socket closed'' @ newline) # Os_Close 0
    # Cerr (''[raw_socket] Failed to restore flags: '' @ msg) # Set_Ifflags 0 (st_iface s1) (st_orig_flags s1) # st_calls s1"
proof -
  obtain s1 where s1: "openRawSocket privileged_os \<lparr>st_orig_flags = 0, st_iface = [], st_calls = []\<rparr> = (0, s1)"
    by (simp add: openRawSocket_def configure_socket_def Let_def privileged_os_def)
  have "\<forall>h fd n fl. caps_dropped privileged_os h \<longrightarrow> os_result privileged_os (Set_Ifflags fd n fl # h) < 0"
    by (auto simp: privileged_os_def caps_dropped_def)
  from promiscuous_mode_not_restored [OF this _ _ _ s1] s1 show ?thesis by (simp add: privileged_os_def)
qed

end
