(* ===== verification/Capture_Session.thy ===== *)
theory Capture_Session
  imports Packet_Buffer Logger
begin

text \<open>
  \<open>include/capture/capture_session.h\<close> and \<open>src/capture/capture_session.cpp\<close> (the Linux branch): the
  capture thread. The kernel, the clock, the signal handler that sets the stop flag and the
  consumer thread are an environment that answers every call as an arbitrary function of the
  history of calls. Before each \<open>packet_buf.write\<close> the consumer may have taken any number of frames
  (\<open>ke_taken\<close>). The two unbounded loops carry a bound on their iterations, \<open>None\<close> meaning that it was
  used up; that the loop returns once the stop flag is set is proved with a bound that is enough.
  The fields \<open>cap_received\<close>, \<open>cap_stored\<close> and \<open>cap_delivered\<close> only record what happened: the frames
  received from the socket, put into the packet buffer, and taken out by the consumer.
\<close>

definition BATCH_DRAIN :: nat where "BATCH_DRAIN = 64"
definition EPOLL_TIMEOUT_MS :: nat where "EPOLL_TIMEOUT_MS = 200"
definition FRAME_BUF_SIZE :: nat where "FRAME_BUF_SIZE = 2040"

datatype capture_call = Epoll_Create | Epoll_Ctl int | Epoll_Wait int | Recvfrom | Stop_Load | Write_Wait | Write_Check
  | Close_Fd int | Cap_Log LogLevel string

datatype recv_answer = Received "u8 list" | Recv_Error bool string  \<comment> \<open>\<open>EAGAIN\<close> or \<open>EWOULDBLOCK\<close>, and \<open>strerror\<close>\<close>

record kernel_env =
  ke_order :: byte_order
  ke_epoll_create :: "capture_call list \<Rightarrow> int"
  ke_epoll_ctl :: "capture_call list \<Rightarrow> int"
  ke_epoll_wait :: "capture_call list \<Rightarrow> int"
  ke_eintr :: "capture_call list \<Rightarrow> bool"
  ke_strerror :: "capture_call list \<Rightarrow> string"
  ke_recvfrom :: "capture_call list \<Rightarrow> recv_answer"
  ke_stop :: "capture_call list \<Rightarrow> bool"
  ke_clock :: "capture_call list \<Rightarrow> int"
  ke_slot :: "capture_call list \<Rightarrow> u8 list"
  ke_taken :: "capture_call list \<Rightarrow> nat"

record capture =
  cap_frame_buf :: "u8 list"
  cap_packet_buf :: PacketBuffer
  cap_calls :: "capture_call list"
  cap_received :: "u8 list list"
  cap_stored :: "(u64 \<times> u8 list) list"
  cap_delivered :: "(u64 \<times> u8 list) list"

definition cap_emit :: "capture_call \<Rightarrow> capture \<Rightarrow> capture" where
  "cap_emit x s = s\<lparr>cap_calls := x # cap_calls s\<rparr>"

text \<open>The consumer takes up to \<open>n\<close> frames.\<close>

fun consume :: "byte_order \<Rightarrow> nat \<Rightarrow> PacketBuffer \<Rightarrow> (u64 \<times> u8 list) list \<times> PacketBuffer" where
  "consume e 0 pb = ([], pb)"
| "consume e (Suc n) pb = (case packet_get e pb of None \<Rightarrow> ([], pb)
     | Some (f, pb') \<Rightarrow> (case consume e n pb' of (fs, r) \<Rightarrow> (f # fs, r)))"

text \<open>How a part of the capture loop goes on: it ends with a result, it waits for room in the packet
  buffer (in the state given, with the frame that it wants to write), or it is undefined.\<close>

datatype 'a ending = Ends 'a | Waits capture | Faults

text \<open>\<open>packet_buf.write (frame_buf, bytes)\<close>, with the two loads of the stop flag that it makes.\<close>

definition capture_write :: "kernel_env \<Rightarrow> nat \<Rightarrow> capture \<Rightarrow> (bool \<times> capture) ending" where
  "capture_write env n s0 =
     (let (taken, pb) = consume (ke_order env) (ke_taken env (cap_calls s0)) (cap_packet_buf s0);
          s = s0\<lparr>cap_packet_buf := pb, cap_delivered := cap_delivered s0 @ taken\<rparr>;
          s1 = cap_emit Write_Wait s;
          s2 = cap_emit Write_Check s1;
          clock = ke_clock env (cap_calls s)
      in case packet_write (ke_order env) clock (ke_slot env (cap_calls s)) (ke_stop env (cap_calls s1))
             (ke_stop env (cap_calls s2)) (cap_frame_buf s) (of_nat n) (cap_packet_buf s) of
           Blocks \<Rightarrow> Waits s1
         | Undefined \<Rightarrow> Faults
         | Returns (ok, pb') \<Rightarrow> Ends (ok, s2\<lparr>cap_packet_buf := pb',
             cap_stored := (if ok then cap_stored s @ [(nowMillis clock, take n (cap_frame_buf s))] else cap_stored s)\<rparr>))"

text \<open>\<open>recvfrom\<close> stores the bytes of a frame, cut off at the size of the buffer, in \<open>frame_buf\<close>.\<close>

definition frame_received :: "nat \<Rightarrow> u8 list \<Rightarrow> capture \<Rightarrow> capture" where
  "frame_received bytes data s = s\<lparr>cap_frame_buf := take bytes data @ drop bytes (cap_frame_buf s),
     cap_received := cap_received s @ [take bytes data]\<rparr>"

text \<open>The \<open>for\<close> loop over \<open>i\<close> with \<open>keep_draining\<close>; it falls through or goes to \<open>cleanup\<close>.\<close>

datatype batch_exit = Fall_Through bool | Goto_Cleanup

function batch_loop :: "kernel_env \<Rightarrow> nat \<Rightarrow> bool \<Rightarrow> capture \<Rightarrow> (batch_exit \<times> capture) ending" where
  "batch_loop env i keep_draining s =
     (if i < BATCH_DRAIN then
        let s1 = cap_emit Recvfrom s in
        (case ke_recvfrom env (cap_calls s1) of
           Recv_Error again err \<Rightarrow>
             if again then Ends (Fall_Through keep_draining, s1)
             else Ends (Fall_Through keep_draining, cap_emit (Cap_Log ERROR (''captureLoop: recvfrom error: '' @ err)) s1)
         | Received data \<Rightarrow>
             let bytes = min (length data) FRAME_BUF_SIZE in
             if bytes = 0 then Ends (Fall_Through keep_draining, s1)
             else (case capture_write env bytes (frame_received bytes data s1) of
                Waits w \<Rightarrow> Waits w
              | Faults \<Rightarrow> Faults
              | Ends (ok, s3) \<Rightarrow>
                  if \<not> ok then
                    let s4 = cap_emit Stop_Load s3 in
                    if ke_stop env (cap_calls s4) then Ends (Goto_Cleanup, s4)
                    else batch_loop env (Suc i) keep_draining
                      (cap_emit (Cap_Log WARN (''captureLoop: frame dropped (size='' @ dec_string bytes @ '')'')) s4)
                  else batch_loop env (Suc i) (i = BATCH_DRAIN - 1 \<or> keep_draining) s3))
      else Ends (Fall_Through keep_draining, s))"
  by pat_completeness auto
termination by (relation "measure (\<lambda>(env, i, k, s). BATCH_DRAIN - i)") auto

declare batch_loop.simps [simp del]

text \<open>\<open>while (keep_draining && !stop_flag)\<close>: whether it was left by \<open>goto cleanup\<close>.\<close>

fun drain_loop :: "kernel_env \<Rightarrow> nat \<Rightarrow> bool \<Rightarrow> capture \<Rightarrow> (bool \<times> capture) ending option" where
  "drain_loop env 0 keep_draining s = None"
| "drain_loop env (Suc fuel) keep_draining s =
     (if keep_draining then
        let s1 = cap_emit Stop_Load s in
        if ke_stop env (cap_calls s1) then Some (Ends (False, s1))
        else (case batch_loop env 0 False s1 of
            Waits w \<Rightarrow> Some (Waits w)
          | Faults \<Rightarrow> Some Faults
          | Ends (Goto_Cleanup, s2) \<Rightarrow> Some (Ends (True, s2))
          | Ends (Fall_Through k, s2) \<Rightarrow> drain_loop env fuel k s2)
      else Some (Ends (False, s)))"

text \<open>\<open>while (!stop_flag)\<close> up to the label \<open>cleanup\<close>.\<close>

fun epoll_loop :: "kernel_env \<Rightarrow> nat \<Rightarrow> int \<Rightarrow> capture \<Rightarrow> capture ending option" where
  "epoll_loop env 0 epoll_fd s = None"
| "epoll_loop env (Suc fuel) epoll_fd s =
     (let s1 = cap_emit Stop_Load s in
      if ke_stop env (cap_calls s1) then Some (Ends s1)
      else let s2 = cap_emit (Epoll_Wait epoll_fd) s1; n = ke_epoll_wait env (cap_calls s2) in
        if n < 0 then
          if ke_eintr env (cap_calls s2) then epoll_loop env fuel epoll_fd s2
          else Some (Ends (cap_emit (Cap_Log ERROR (''captureLoop: epoll_wait error: '' @ ke_strerror env (cap_calls s2))) s2))
        else if n = 0 then epoll_loop env fuel epoll_fd s2
        else (case drain_loop env fuel True s2 of
            None \<Rightarrow> None
          | Some (Waits w) \<Rightarrow> Some (Waits w)
          | Some Faults \<Rightarrow> Some Faults
          | Some (Ends (cleanup, s3)) \<Rightarrow> if cleanup then Some (Ends s3) else epoll_loop env fuel epoll_fd s3))"

definition captureLoop :: "kernel_env \<Rightarrow> nat \<Rightarrow> int \<Rightarrow> capture \<Rightarrow> capture ending option" where
  "captureLoop env fuel fd s =
     (let s1 = cap_emit Epoll_Create s; epoll_fd = ke_epoll_create env (cap_calls s1) in
      if epoll_fd < 0 then
        Some (Ends (cap_emit (Cap_Log ERROR (''captureLoop: epoll_create1 failed: '' @ ke_strerror env (cap_calls s1))) s1))
      else let s2 = cap_emit (Epoll_Ctl fd) s1 in
      if ke_epoll_ctl env (cap_calls s2) < 0 then
        Some (Ends (cap_emit (Close_Fd epoll_fd)
          (cap_emit (Cap_Log ERROR (''captureLoop: epoll_ctl failed: '' @ ke_strerror env (cap_calls s2))) s2)))
      else let s3 = cap_emit (Cap_Log INFO (''captureLoop: epoll ready '' @ em_dash @ '' Level-Triggered, BATCH_DRAIN=''
               @ dec_string BATCH_DRAIN @ '', timeout='' @ dec_string EPOLL_TIMEOUT_MS @ ''ms'')) s2;
               s4 = cap_emit (Cap_Log INFO ''captureLoop: capture loop started'') s3 in
      (case epoll_loop env fuel epoll_fd s4 of
         None \<Rightarrow> None
       | Some (Waits w) \<Rightarrow> Some (Waits w)
       | Some Faults \<Rightarrow> Some Faults
       | Some (Ends s5) \<Rightarrow> Some (Ends
           (cap_emit (Cap_Log INFO (''captureLoop: capture loop stopped '' @ em_dash @ '' epoll fd closed''))
             (cap_emit (Close_Fd epoll_fd) s5)))))"


subsection \<open>What the loop keeps\<close>

text \<open>The stop flag is never cleared, and \<open>slot_buf\<close> of \<open>PacketBuffer::write\<close> has 2048 bytes.\<close>

definition env_ok :: "kernel_env \<Rightarrow> bool" where
  "env_ok env \<longleftrightarrow> (\<forall>x h. ke_stop env h \<longrightarrow> ke_stop env (x # h)) \<and> (\<forall>h. length (ke_slot env h) = 2048)"

text \<open>The buffer is sound, and what was in it at the start followed by what was stored is what the
  consumer got followed by what is still in the buffer.\<close>

definition cap_inv :: "byte_order \<Rightarrow> (u64 \<times> u8 list) list \<Rightarrow> capture \<Rightarrow> bool" where
  "cap_inv e fs0 s \<longleftrightarrow> packet_inv (cap_packet_buf s) \<and> length (cap_frame_buf s) = FRAME_BUF_SIZE
     \<and> fs0 @ cap_stored s = cap_delivered s @ packet_frames e (cap_packet_buf s)"

definition all_stored :: "byte_order \<Rightarrow> (u64 \<times> u8 list) list \<Rightarrow> capture \<Rightarrow> bool" where
  "all_stored e fs0 s \<longleftrightarrow> cap_inv e fs0 s \<and> cap_received s = map snd (cap_stored s)"

definition last_lost :: "byte_order \<Rightarrow> (u64 \<times> u8 list) list \<Rightarrow> capture \<Rightarrow> bool" where
  "last_lost e fs0 s \<longleftrightarrow> cap_inv e fs0 s \<and> (\<exists>f. cap_received s = map snd (cap_stored s) @ [f])"

lemma cap_emit_fields [simp]:
  "cap_frame_buf (cap_emit x s) = cap_frame_buf s" "cap_packet_buf (cap_emit x s) = cap_packet_buf s"
  "cap_calls (cap_emit x s) = x # cap_calls s" "cap_received (cap_emit x s) = cap_received s"
  "cap_stored (cap_emit x s) = cap_stored s" "cap_delivered (cap_emit x s) = cap_delivered s"
  by (simp_all add: cap_emit_def)

lemma emit_keeps [simp]:
  "cap_inv e fs0 (cap_emit x s) = cap_inv e fs0 s" "all_stored e fs0 (cap_emit x s) = all_stored e fs0 s"
  "last_lost e fs0 (cap_emit x s) = last_lost e fs0 s"
  by (simp_all add: cap_inv_def all_stored_def last_lost_def)

lemma consume_frames:
  "packet_inv pb \<Longrightarrow> consume e n pb = (fs, r) \<Longrightarrow> packet_inv r \<and> packet_frames e pb = fs @ packet_frames e r"
proof (induction n arbitrary: pb fs)
  case 0
  then show ?case by simp
next
  case (Suc n)
  from Suc.prems(1) show ?case
  proof (cases rule: pbq.get_cases [where e = e])
    case 1
    then show ?thesis using Suc.prems by simp
  next
    case (2 f q)
    then show ?thesis using Suc.prems(2) Suc.IH [OF 2(2)] by (auto split: prod.splits)
  qed
qed

text \<open>A consumer that takes at least one frame leaves room.\<close>

lemma consume_room:
  assumes "packet_inv pb" and "consume e n pb = (fs, r)" and "0 < n"
  shows "\<not> isFull r"
proof -
  have len: "packet_inv q \<Longrightarrow> isFull q \<longleftrightarrow> length (packet_frames e q) = unat (rb_capacity q)" for q
    using isFull_iff [of q] by (simp add: packet_inv_def packet_frames_def)
  have le: "packet_inv q \<Longrightarrow> consume e k q = (gs, q') \<Longrightarrow> packet_inv q' \<and> rb_capacity q' = rb_capacity q
      \<and> length (packet_frames e q') = length (packet_frames e q) - k" for q gs q' k
  proof (induction k arbitrary: q gs)
    case (Suc k)
    from Suc.prems(1) show ?case
    proof (cases rule: pbq.get_cases [where e = e])
      case 1
      then show ?thesis using Suc.prems by simp
    next
      case (2 f q1)
      then show ?thesis using Suc.prems(2) Suc.IH [OF 2(2)] by (auto split: prod.splits simp: word_unat_eq_iff)
    qed
  qed simp
  have "length (packet_frames e pb) \<le> unat (rb_capacity pb)" "0 < unat (rb_capacity pb)"
    using pbq.inv_bound [OF assms(1)] assms(1) by (simp_all add: packet_inv_def ring_inv_def)
  with le [OF assms(1,2)] len [of r] assms(3) show ?thesis by auto
qed

text \<open>The capture thread waits: the buffer is full, no stop has been requested, and the consumer took nothing
  before the write.\<close>

definition waiting :: "kernel_env \<Rightarrow> capture \<Rightarrow> bool" where
  "waiting env s \<longleftrightarrow> isFull (cap_packet_buf s) \<and> \<not> ke_stop env (cap_calls s) \<and> ke_taken env (tl (cap_calls s)) = 0"

lemma capture_write_post:
  assumes env: "env_ok env" and inv: "cap_inv (ke_order env) fs0 s" and n: "1 \<le> n" "n \<le> FRAME_BUF_SIZE"
  shows "case capture_write env n s of
      Waits s' \<Rightarrow> waiting env s' \<and> cap_inv (ke_order env) fs0 s' \<and> cap_received s' = cap_received s \<and> cap_stored s' = cap_stored s
    | Faults \<Rightarrow> False
    | Ends (ok, s') \<Rightarrow> cap_inv (ke_order env) fs0 s' \<and> cap_received s' = cap_received s
        \<and> (if ok then map snd (cap_stored s') = map snd (cap_stored s) @ [take n (cap_frame_buf s)]
           else cap_stored s' = cap_stored s \<and> ke_stop env (cap_calls s'))"
proof -
  let ?e = "ke_order env" and ?h = "cap_calls s"
  obtain fs pb where c: "consume ?e (ke_taken env ?h) (cap_packet_buf s) = (fs, pb)" by fastforce
  from consume_frames [OF _ c] inv have pb: "packet_inv pb" "packet_frames ?e (cap_packet_buf s) = fs @ packet_frames ?e pb"
    by (simp_all add: cap_inv_def)
  let ?sw = "ke_stop env (Write_Wait # ?h)" and ?sa = "ke_stop env (Write_Check # Write_Wait # ?h)"
  have mono: "?sw \<longrightarrow> ?sa" and slot: "length (ke_slot env ?h) = 2048" using env by (simp_all add: env_ok_def)
  have u: "unat (of_nat n :: size_t) = n" using n by (simp add: FRAME_BUF_SIZE_def unat_of_nat take_bit_nat_eq_self)
  have len: "length (cap_frame_buf s) = 2040" using inv by (simp add: cap_inv_def FRAME_BUF_SIZE_def)
  have sz: "1 \<le> unat (of_nat n :: size_t)" "unat (of_nat n :: size_t) \<le> 2040" "unat (of_nat n :: size_t) \<le> length (cap_frame_buf s)"
    using n len u by (simp_all add: FRAME_BUF_SIZE_def)
  have full: "isFull pb \<Longrightarrow> ke_taken env ?h = 0"
    using consume_room [OF _ c] inv by (auto simp: cap_inv_def)
  have w: "capture_write env n s = (case packet_write ?e (ke_clock env ?h) (ke_slot env ?h) ?sw ?sa (cap_frame_buf s) (of_nat n) pb of
      Blocks \<Rightarrow> Waits (s\<lparr>cap_packet_buf := pb, cap_delivered := cap_delivered s @ fs, cap_calls := Write_Wait # ?h\<rparr>)
    | Undefined \<Rightarrow> Faults
    | Returns (ok, pb') \<Rightarrow> Ends (ok, s\<lparr>cap_packet_buf := pb', cap_delivered := cap_delivered s @ fs, cap_calls := Write_Check # Write_Wait # ?h,
        cap_stored := (if ok then cap_stored s @ [(nowMillis (ke_clock env ?h), take n (cap_frame_buf s))] else cap_stored s)\<rparr>))"
    by (simp add: capture_write_def c Let_def cap_emit_def split: outcome.split)
  from packet_write_outcome [OF pb(1) slot sz mono, of ?e "ke_clock env ?h"]
  show ?thesis unfolding w using inv pb mono full
    by (elim disjE conjE exE) (simp_all add: cap_inv_def u waiting_def)
qed

lemma batch_loop_received:
  assumes "i < BATCH_DRAIN" and "ke_recvfrom env (Recvfrom # cap_calls s) = Received data"
    and "n = min (length data) FRAME_BUF_SIZE" and "n \<noteq> 0"
  shows "batch_loop env i keep s = (case capture_write env n (frame_received n data (cap_emit Recvfrom s)) of
      Waits w \<Rightarrow> Waits w | Faults \<Rightarrow> Faults
    | Ends (ok, s3) \<Rightarrow> if \<not> ok then
        let s4 = cap_emit Stop_Load s3 in
        if ke_stop env (cap_calls s4) then Ends (Goto_Cleanup, s4)
        else batch_loop env (Suc i) keep (cap_emit (Cap_Log WARN (''captureLoop: frame dropped (size='' @ dec_string n @ '')'')) s4)
      else batch_loop env (Suc i) (i = BATCH_DRAIN - 1 \<or> keep) s3)"
  using assms by (subst batch_loop.simps) (simp add: Let_def flip: assms(3))

text \<open>\<open>captureLoop\<close> as a whole: it gives up before its loop, or returns what the loop returns; in both
  cases it closes the epoll descriptor it has created.\<close>

definition epoll_closed :: "kernel_env \<Rightarrow> capture \<Rightarrow> capture \<Rightarrow> bool" where
  "epoll_closed env s s' \<longleftrightarrow> (let efd = ke_epoll_create env (Epoll_Create # cap_calls s) in
     efd < 0 \<or> Close_Fd efd \<in> set (cap_calls s'))"

lemma captureLoop_cases:
  obtains s' where "captureLoop env fuel fd s = Some (Ends s')" "\<And>P. (\<And>x t. P t \<Longrightarrow> P (cap_emit x t)) \<Longrightarrow> P s \<Longrightarrow> P s'"
      "epoll_closed env s s'"
  | efd s4 x where "\<And>P. (\<And>x t. P t \<Longrightarrow> P (cap_emit x t)) \<Longrightarrow> P s \<Longrightarrow> P s4" "efd = ke_epoll_create env (Epoll_Create # cap_calls s)"
      "captureLoop env fuel fd s = (case epoll_loop env fuel efd s4 of None \<Rightarrow> None | Some (Waits w) \<Rightarrow> Some (Waits w)
        | Some Faults \<Rightarrow> Some Faults | Some (Ends s5) \<Rightarrow> Some (Ends (cap_emit x (cap_emit (Close_Fd efd) s5))))"
proof -
  let ?s2 = "cap_emit (Epoll_Ctl fd) (cap_emit Epoll_Create s)"
  consider "ke_epoll_create env (Epoll_Create # cap_calls s) < 0"
    | "\<not> ke_epoll_create env (Epoll_Create # cap_calls s) < 0" "ke_epoll_ctl env (cap_calls ?s2) < 0"
    | "\<not> ke_epoll_create env (Epoll_Create # cap_calls s) < 0" "\<not> ke_epoll_ctl env (cap_calls ?s2) < 0"
    by blast
  then show thesis
  proof cases
    case 1
    then show thesis by (intro that(1), simp only: captureLoop_def Let_def cap_emit_fields if_True) (simp_all add: epoll_closed_def)
  next
    case 2
    then show thesis by (intro that(1), simp only: captureLoop_def Let_def cap_emit_fields if_True if_False)
      (simp_all add: epoll_closed_def Let_def)
  next
    case 3
    then show thesis by (intro that(2) [rotated 2], simp only: captureLoop_def Let_def cap_emit_fields if_False) simp_all
  qed
qed



subsection \<open>Properties of the loops, once for all\<close>

text \<open>A property \<open>good\<close> of the capture thread that its calls keep, that receiving and storing a frame keeps, and
  that gives way to \<open>lost\<close> when a frame could not be stored, is carried through the three loops.\<close>

locale capture_run =
  fixes env :: kernel_env and good lost blocked :: "capture \<Rightarrow> bool"
  assumes good_emit: "good s \<Longrightarrow> good (cap_emit x s)"
    and lost_emit: "lost s \<Longrightarrow> lost (cap_emit x s)"
    and receive: "good s \<Longrightarrow> n = min (length data) FRAME_BUF_SIZE \<Longrightarrow> n \<noteq> 0 \<Longrightarrow>
      (case capture_write env n (frame_received n data (cap_emit Recvfrom s)) of Waits w \<Rightarrow> blocked w | Faults \<Rightarrow> False
       | Ends (ok, s') \<Rightarrow> if ok then good s' else lost s' \<and> ke_stop env (Stop_Load # cap_calls s'))"
begin

definition batch_post :: "(batch_exit \<times> capture) ending \<Rightarrow> bool" where
  "batch_post r \<longleftrightarrow> (case r of Waits w \<Rightarrow> blocked w | Faults \<Rightarrow> False
     | Ends (Fall_Through _, s) \<Rightarrow> good s | Ends (Goto_Cleanup, s) \<Rightarrow> lost s)"

lemma batch_loop_other:
  assumes "\<not> i < BATCH_DRAIN \<or> (\<exists>again err. ke_recvfrom env (Recvfrom # cap_calls s) = Recv_Error again err)
    \<or> ke_recvfrom env (Recvfrom # cap_calls s) = Received []" and "good s"
  shows "batch_post (batch_loop env i keep s)"
  using assms by (subst batch_loop.simps) (auto simp: Let_def batch_post_def good_emit)

lemma batch_loop_post:
  assumes "good s"
  shows "batch_post (batch_loop env i keep s)"
  using assms
proof (induction "BATCH_DRAIN - i" arbitrary: i keep s)
  case 0
  then show ?case by (intro batch_loop_other) simp_all
next
  case (Suc k)
  have k: "k = BATCH_DRAIN - Suc i" "i < BATCH_DRAIN" using Suc.hyps(2) by simp_all
  show ?case
  proof (cases "\<exists>data. data \<noteq> [] \<and> ke_recvfrom env (Recvfrom # cap_calls s) = Received data")
    case False
    then show ?thesis using Suc.prems by (intro batch_loop_other) (cases "ke_recvfrom env (Recvfrom # cap_calls s)"; auto)+
  next
    case True
    then obtain data n where data: "ke_recvfrom env (Recvfrom # cap_calls s) = Received data"
      "n = min (length data) FRAME_BUF_SIZE" "n \<noteq> 0" by (auto simp: FRAME_BUF_SIZE_def)
    note w = receive [OF Suc.prems data(2,3)]
    note bl = batch_loop_received [OF k(2) data, of keep]
    show ?thesis
    proof (cases "capture_write env n (frame_received n data (cap_emit Recvfrom s))")
      case (Ends r)
      obtain ok s3 where r: "r = (ok, s3)" by fastforce
      show ?thesis using w Ends r Suc.hyps(1) [OF k(1)] by (cases ok) (simp_all add: bl Let_def batch_post_def lost_emit)
    qed (use w in \<open>unfold batch_post_def bl, simp_all\<close>)
  qed
qed

lemma drain_loop_post:
  assumes "good s"
  shows "case drain_loop env fuel keep s of None \<Rightarrow> True | Some (Waits w) \<Rightarrow> blocked w | Some Faults \<Rightarrow> False
    | Some (Ends (cleanup, s')) \<Rightarrow> if cleanup then lost s' else good s'"
  using assms
proof (induction fuel arbitrary: keep s)
  case (Suc fuel)
  let ?s1 = "cap_emit Stop_Load s"
  have post: "batch_post (batch_loop env 0 False ?s1)" using batch_loop_post good_emit Suc.prems by blast
  show ?case
  proof (cases "batch_loop env 0 False ?s1")
    case (Ends r)
    obtain x s2 where r: "r = (x, s2)" by fastforce
    show ?thesis using post Ends r Suc.IH [of s2] Suc.prems by (cases x) (simp_all add: Let_def batch_post_def good_emit)
  qed (use post Suc.prems in \<open>simp_all add: Let_def batch_post_def good_emit\<close>)
qed simp

lemma epoll_loop_post:
  assumes "good s"
  shows "case epoll_loop env fuel fd s of None \<Rightarrow> True | Some (Waits w) \<Rightarrow> blocked w | Some Faults \<Rightarrow> False
    | Some (Ends s') \<Rightarrow> good s' \<or> lost s'"
  using assms
proof (induction fuel arbitrary: s)
  case (Suc fuel)
  let ?s2 = "cap_emit (Epoll_Wait fd) (cap_emit Stop_Load s)"
  have s2: "good ?s2" using Suc.prems by (intro good_emit)
  note d = drain_loop_post [OF s2, of fuel True]
  show ?case
  proof (cases "drain_loop env fuel True ?s2")
    case None
    then show ?thesis using Suc.IH [OF s2] Suc.prems s2 by (simp add: Let_def good_emit)
  next
    case (Some r)
    show ?thesis
    proof (cases r)
      case (Ends x)
      obtain cleanup s3 where x: "x = (cleanup, s3)" by fastforce
      show ?thesis using d Some Ends x Suc.IH [of s3] Suc.IH [OF s2] Suc.prems s2
        by (cases cleanup) (simp_all add: Let_def good_emit)
    qed (use d Some Suc.IH [OF s2] Suc.prems s2 in \<open>simp_all add: Let_def good_emit\<close>)
  qed
qed simp

lemma captureLoop_post:
  assumes "good s"
  shows "case captureLoop env fuel fd s of None \<Rightarrow> True | Some (Waits w) \<Rightarrow> blocked w | Some Faults \<Rightarrow> False
    | Some (Ends s') \<Rightarrow> epoll_closed env s s' \<and> (good s' \<or> lost s')"
proof (cases rule: captureLoop_cases [of env fuel fd s])
  case (1 s')
  then show ?thesis using assms good_emit by auto
next
  case (2 efd s4 x)
  have "good s4" using 2(1) [of good] assms good_emit by blast
  from 2(2,3) epoll_loop_post [OF this, of fuel efd] show ?thesis
    by (auto simp: epoll_closed_def Let_def good_emit lost_emit split: option.splits ending.splits)
qed

end


subsection \<open>No frame is lost\<close>

text \<open>Receiving a frame and storing it.\<close>

lemma receive_write_post:
  assumes "env_ok env" and "all_stored (ke_order env) fs0 s" and n: "n = min (length data) FRAME_BUF_SIZE" "n \<noteq> 0"
  shows "case capture_write env n (frame_received n data (cap_emit Recvfrom s)) of
      Waits s' \<Rightarrow> last_lost (ke_order env) fs0 s' \<and> waiting env s' | Faults \<Rightarrow> False
    | Ends (ok, s') \<Rightarrow> if ok then all_stored (ke_order env) fs0 s'
        else last_lost (ke_order env) fs0 s' \<and> ke_stop env (cap_calls s') \<and> ke_stop env (x # cap_calls s')"
proof -
  let ?s2 = "frame_received n data (cap_emit Recvfrom s)"
  have s2: "cap_inv (ke_order env) fs0 ?s2" "cap_received ?s2 = map snd (cap_stored ?s2) @ [take n data]"
    "take n (cap_frame_buf ?s2) = take n data"
    using assms(2) by (simp_all add: frame_received_def all_stored_def cap_inv_def n(1))
  have "1 \<le> n" "n \<le> FRAME_BUF_SIZE" using n by linarith+
  from capture_write_post [OF assms(1) s2(1) this] show ?thesis
    using s2 assms(1) by (auto simp: all_stored_def last_lost_def env_ok_def split: ending.splits if_splits)
qed

text \<open>Every received frame is stored, but possibly the last one when stopping, and but the one at hand when the thread
  waits.\<close>

interpretation cap_store: capture_run env "\<lambda>s. env_ok env \<and> all_stored (ke_order env) fs0 s"
    "\<lambda>s. env_ok env \<and> last_lost (ke_order env) fs0 s \<and> ke_stop env (cap_calls s)"
    "\<lambda>s. last_lost (ke_order env) fs0 s \<and> waiting env s" for env fs0
proof unfold_locales
  fix s n and data :: "u8 list"
  assume a: "env_ok env \<and> all_stored (ke_order env) fs0 s" and n: "n = min (length data) FRAME_BUF_SIZE" "n \<noteq> 0"
  from receive_write_post [OF conjunct1 [OF a] conjunct2 [OF a] n, of Stop_Load] a
  show "case capture_write env n (frame_received n data (cap_emit Recvfrom s)) of
      Waits s' \<Rightarrow> last_lost (ke_order env) fs0 s' \<and> waiting env s' | Faults \<Rightarrow> False
    | Ends (ok, s') \<Rightarrow> if ok then env_ok env \<and> all_stored (ke_order env) fs0 s'
        else (env_ok env \<and> last_lost (ke_order env) fs0 s' \<and> ke_stop env (cap_calls s')) \<and> ke_stop env (Stop_Load # cap_calls s')"
    by (auto split: ending.splits if_splits)
qed (auto simp: env_ok_def)


subsection \<open>The loop ends\<close>

lemma capture_write_calls:
  "capture_write env n s = Ends (ok, s') \<Longrightarrow> length (cap_calls s') = length (cap_calls s) + 2"
  by (auto simp: capture_write_def Let_def split: prod.splits outcome.splits)

lemma batch_loop_calls:
  "batch_loop env i keep s = Ends (x, s') \<Longrightarrow> length (cap_calls s) \<le> length (cap_calls s')"
proof (induction "BATCH_DRAIN - i" arbitrary: i keep s)
  case 0
  then show ?case by (subst (asm) batch_loop.simps) simp
next
  case (Suc k)
  then have k: "k = BATCH_DRAIN - Suc i" "i < BATCH_DRAIN" by simp_all
  let ?w = "\<lambda>n data. capture_write env n (frame_received n data (cap_emit Recvfrom s))"
  have w: "?w n data = Ends (ok, s3) \<Longrightarrow> length (cap_calls s3) = length (cap_calls s) + 3" for n data ok s3
    using capture_write_calls by (fastforce simp: frame_received_def)
  note ih = Suc.hyps(1) [OF k(1)]
  show ?case
    using Suc.prems k(2)
    by (subst (asm) batch_loop.simps)
      (auto simp: Let_def split: recv_answer.splits if_splits ending.splits prod.splits dest!: ih w)
qed

lemma drain_loop_returns:
  assumes "\<forall>h. N \<le> length h \<longrightarrow> ke_stop env h"
  shows "N < fuel + length (cap_calls s) \<Longrightarrow> 0 < fuel \<Longrightarrow>
    drain_loop env fuel keep s \<noteq> None
    \<and> (\<forall>c s'. drain_loop env fuel keep s = Some (Ends (c, s')) \<longrightarrow> length (cap_calls s) \<le> length (cap_calls s'))"
proof (induction fuel arbitrary: keep s)
  case (Suc fuel)
  let ?s1 = "cap_emit Stop_Load s"
  show ?case
  proof (cases "keep \<and> \<not> ke_stop env (cap_calls ?s1)")
    case False
    then show ?thesis by (auto simp: Let_def)
  next
    case True
    then have f: "0 < fuel" using assms Suc.prems(1) by (cases "N \<le> length (cap_calls ?s1)") auto
    show ?thesis
    proof (cases "batch_loop env 0 False ?s1")
      case (Ends r)
      obtain x s2 where r: "r = (x, s2)" by fastforce
      have l: "length (cap_calls s) < length (cap_calls s2)" using batch_loop_calls Ends r by fastforce
      show ?thesis using True Ends r l f Suc.IH [of s2] Suc.prems(1)
        by (cases x) (fastforce simp: Let_def)+
    qed (use True in \<open>simp_all add: Let_def\<close>)
  qed
qed simp

lemma epoll_loop_returns:
  assumes stop: "\<forall>h. N \<le> length h \<longrightarrow> ke_stop env h"
  shows "N < fuel + length (cap_calls s) \<Longrightarrow> 0 < fuel \<Longrightarrow> epoll_loop env fuel fd s \<noteq> None"
proof (induction fuel arbitrary: s)
  case (Suc fuel)
  let ?s1 = "cap_emit Stop_Load s"
  let ?s2 = "cap_emit (Epoll_Wait fd) ?s1"
  show ?case
  proof (cases "ke_stop env (cap_calls ?s1)")
    case True
    then show ?thesis by (simp add: Let_def)
  next
    case False
    then have f: "0 < fuel" using stop Suc.prems(1) by (cases "N \<le> length (cap_calls ?s1)") auto
    have s2: "epoll_loop env fuel fd ?s2 \<noteq> None" using Suc.IH [of ?s2] Suc.prems f by simp
    have d: "drain_loop env fuel True ?s2 \<noteq> None"
      "drain_loop env fuel True ?s2 = Some (Ends (c, s3)) \<Longrightarrow> epoll_loop env fuel fd s3 \<noteq> None" for c s3
      using drain_loop_returns [OF stop, of fuel ?s2 True] Suc.IH [of s3] Suc.prems f by auto
    then show ?thesis using False s2 by (auto simp: Let_def split: option.splits ending.splits)
  qed
qed simp


subsection \<open>Properties\<close>

lemma captureLoop_returns:
  assumes "\<forall>h. N \<le> length h \<longrightarrow> ke_stop env h"
  shows "\<exists>r. captureLoop env (Suc N) fd s = Some r"
proof (cases rule: captureLoop_cases [of env "Suc N" fd s])
  case (2 efd s4 x)
  then show ?thesis
    using epoll_loop_returns [OF assms, of "Suc N" s4 efd] by (auto split: option.splits ending.splits)
qed simp

text \<open>A busy interface: frames of three bytes without end, and a stop request after 100 calls.\<close>

definition busy_kernel :: kernel_env where
  "busy_kernel = \<lparr>ke_order = Little_Endian, ke_epoll_create = (\<lambda>_. 5), ke_epoll_ctl = (\<lambda>_. 0), ke_epoll_wait = (\<lambda>_. 1),
     ke_eintr = (\<lambda>_. False), ke_strerror = (\<lambda>_. []), ke_recvfrom = (\<lambda>_. Received [1, 2, 3]), ke_stop = (\<lambda>h. 100 \<le> length h),
     ke_clock = (\<lambda>_. 0), ke_slot = (\<lambda>_. replicate 2048 0), ke_taken = (\<lambda>_. 1)\<rparr>"

definition busy_start :: "PacketBuffer \<Rightarrow> capture" where
  "busy_start pb = \<lparr>cap_frame_buf = replicate 2040 0, cap_packet_buf = pb, cap_calls = [], cap_received = [],
     cap_stored = [], cap_delivered = []\<rparr>"

lemma busy_kernel_ok: "env_ok busy_kernel" "\<forall>h. 100 \<le> length h \<longrightarrow> ke_stop busy_kernel h"
  by (simp_all add: env_ok_def busy_kernel_def)

text \<open>A consumer that always takes a frame never lets the thread wait.\<close>

lemma busy_kernel_never_waits:
  assumes "packet_inv (cap_packet_buf s)" and "length (cap_frame_buf s) = 2040"
    and "cap_received s = []" and "cap_stored s = []" and "cap_delivered s = []" and "captureLoop busy_kernel fuel fd s = Some r"
  shows "r \<noteq> Waits w"
proof -
  have "all_stored (ke_order busy_kernel) (packet_frames (ke_order busy_kernel) (cap_packet_buf s)) s"
    using assms by (simp add: all_stored_def cap_inv_def FRAME_BUF_SIZE_def)
  from cap_store.captureLoop_post [OF conjI [OF busy_kernel_ok(1) this], of fuel fd] assms(6) show ?thesis
    by (auto simp: waiting_def busy_kernel_def)
qed

text \<open>C15: The capture thread loses nothing: when it returns, every frame received from the socket (cut
  off at 2040 bytes) has been stored in the packet buffer, in the order received, and what the
  consumer got so far followed by what is in the buffer is exactly what was there before
  followed by what was stored. The only frame that can be missing is the very last one, and only
  when the stop flag is set; while the thread waits in a write, it is the one being written, the buffer is
  full and the flag not set. No access leaves a buffer, and the epoll descriptor is closed.\<close>

theorem captureLoop_lossless:
  assumes "env_ok env" and "packet_inv (cap_packet_buf s)" and "length (cap_frame_buf s) = 2040"
    and "cap_received s = []" and "cap_stored s = []" and "cap_delivered s = []"
    and "captureLoop env fuel fd s = Some r"
  shows "r \<noteq> Faults \<and> (\<forall>s'. r = Ends s' \<or> r = Waits s' \<longrightarrow>
      packet_frames (ke_order env) (cap_packet_buf s) @ cap_stored s' = cap_delivered s' @ packet_frames (ke_order env) (cap_packet_buf s')
      \<and> packet_inv (cap_packet_buf s'))
    \<and> (\<forall>s'. r = Ends s' \<longrightarrow> epoll_closed env s s'
      \<and> (cap_received s' = map snd (cap_stored s')
        \<or> (\<exists>f. cap_received s' = map snd (cap_stored s') @ [f] \<and> ke_stop env (cap_calls s'))))
    \<and> (\<forall>s'. r = Waits s' \<longrightarrow> (\<exists>f. cap_received s' = map snd (cap_stored s') @ [f])
      \<and> isFull (cap_packet_buf s') \<and> \<not> ke_stop env (cap_calls s'))"
proof -
  let ?fs0 = "packet_frames (ke_order env) (cap_packet_buf s)"
  have "all_stored (ke_order env) ?fs0 s" using assms by (simp add: all_stored_def cap_inv_def FRAME_BUF_SIZE_def)
  from cap_store.captureLoop_post [OF conjI [OF assms(1) this], of fuel fd] assms(7) show ?thesis
    by (cases r) (auto simp: all_stored_def last_lost_def cap_inv_def waiting_def)
qed

lemma busy_start_ok:
  obtains pb where "packet_inv pb" "packet_inv (cap_packet_buf (busy_start pb))" "length (cap_frame_buf (busy_start pb)) = 2040"
    "cap_received (busy_start pb) = []" "cap_stored (busy_start pb) = []" "cap_delivered (busy_start pb) = []"
proof -
  obtain pb where "packet_inv pb"
    using ring_of_two new_PacketBuffer_ok [of "\<lambda>_ _. True" 2 _ Little_Endian] by (metis new_PacketBuffer_def)
  then show thesis by (intro that [of pb]) (simp_all add: busy_start_def)
qed

theorem captureLoop_lossless_witness:
  "\<exists>pb s'. packet_inv pb \<and> captureLoop busy_kernel (Suc 100) 3 (busy_start pb) = Some (Ends s')
    \<and> packet_frames Little_Endian pb @ cap_stored s' = cap_delivered s' @ packet_frames Little_Endian (cap_packet_buf s')"
proof -
  obtain pb where pb: "packet_inv pb" "packet_inv (cap_packet_buf (busy_start pb))" "length (cap_frame_buf (busy_start pb)) = 2040"
    "cap_received (busy_start pb) = []" "cap_stored (busy_start pb) = []" "cap_delivered (busy_start pb) = []"
    by (rule busy_start_ok)
  obtain r where r: "captureLoop busy_kernel (Suc 100) 3 (busy_start pb) = Some r"
    using captureLoop_returns [OF busy_kernel_ok(2)] by blast
  note l = captureLoop_lossless [OF busy_kernel_ok(1) pb(2-6) r]
  obtain s' where s': "r = Ends s'" using l busy_kernel_never_waits [OF pb(2-6) r] by (cases r) auto
  have "ke_order busy_kernel = Little_Endian" "cap_packet_buf (busy_start pb) = pb" by (simp_all add: busy_kernel_def busy_start_def)
  with l s' r pb(1) show ?thesis by auto
qed

text \<open>C16: The capture thread obeys a stop request: when the stop flag is set for good after at most \<open>N\<close> calls of the
  thread, \<open>captureLoop\<close> comes to an end within \<open>N + 1\<close> iterations of its loops, however much traffic there
  is and whatever the pipeline does. Either it returns, with its epoll descriptor closed; or it is left
  waiting in \<open>PacketBuffer::write\<close>, but that only on a full buffer of which the pipeline took
  nothing before the write, and only in a wait that it entered before the flag was set. A write that finds the
  flag set never waits, also when the pipeline has stopped taking frames.\<close>

theorem captureLoop_stops:
  assumes "env_ok env" and "packet_inv (cap_packet_buf s)" and "length (cap_frame_buf s) = 2040"
    and "cap_received s = []" and "cap_stored s = []" and "cap_delivered s = []"
    and "\<forall>h. N \<le> length h \<longrightarrow> ke_stop env h"
  shows "case captureLoop env (Suc N) fd s of
      Some (Ends s') \<Rightarrow> epoll_closed env s s'
    | Some (Waits s') \<Rightarrow> isFull (cap_packet_buf s') \<and> \<not> ke_stop env (cap_calls s') \<and> length (cap_calls s') < N
        \<and> ke_taken env (tl (cap_calls s')) = 0
    | _ \<Rightarrow> False"
proof -
  let ?fs0 = "packet_frames (ke_order env) (cap_packet_buf s)"
  have "all_stored (ke_order env) ?fs0 s" using assms by (simp add: all_stored_def cap_inv_def FRAME_BUF_SIZE_def)
  note post = cap_store.captureLoop_post [OF conjI [OF assms(1) this], of "Suc N" fd]
  obtain r where r: "captureLoop env (Suc N) fd s = Some r" using captureLoop_returns [OF assms(7), of fd s] by blast
  have "\<not> ke_stop env h \<Longrightarrow> length h < N" for h using assms(7) not_le by blast
  with post show ?thesis unfolding r by (cases r) (simp_all add: waiting_def)
qed

text \<open>The busy interface with a pipeline that takes no frame any more once the stop flag is set.\<close>

definition busy_pipeline :: kernel_env where
  "busy_pipeline = busy_kernel\<lparr>ke_taken := (\<lambda>h. if 100 \<le> length h then 0 else 1)\<rparr>"

lemma busy_pipeline_ok: "env_ok busy_pipeline" "\<forall>h. 100 \<le> length h \<longrightarrow> ke_stop busy_pipeline h"
  "ke_taken busy_pipeline (tl h) = 0 \<Longrightarrow> ke_stop busy_pipeline h"
  by (auto simp: env_ok_def busy_pipeline_def busy_kernel_def split: if_splits)

theorem captureLoop_stops_witness:
  "\<exists>pb s'. packet_inv pb \<and> captureLoop busy_pipeline (Suc 100) 3 (busy_start pb) = Some (Ends s')
    \<and> Close_Fd 5 \<in> set (cap_calls s')"
proof -
  obtain pb where pb: "packet_inv pb" "packet_inv (cap_packet_buf (busy_start pb))" "length (cap_frame_buf (busy_start pb)) = 2040"
    "cap_received (busy_start pb) = []" "cap_stored (busy_start pb) = []" "cap_delivered (busy_start pb) = []"
    by (rule busy_start_ok)
  from captureLoop_stops [OF busy_pipeline_ok(1) pb(2-6) busy_pipeline_ok(2), of 3] busy_pipeline_ok(3) obtain s' where
    "captureLoop busy_pipeline (Suc 100) 3 (busy_start pb) = Some (Ends s')" "epoll_closed busy_pipeline (busy_start pb) s'"
    by (auto split: option.splits ending.splits)
  then show ?thesis using pb(1) by (auto simp: epoll_closed_def busy_pipeline_def busy_kernel_def)
qed

end
