(* ===== verification/Engine_Threads.thy ===== *)
theory Engine_Threads
  imports Ring_Buffer
begin

text \<open>
  The concurrency of the engine: the capture thread (producer), the pipeline thread (consumer) and
  the signal handler of \<open>src/main.cpp\<close>, which meet at the mutex, the two condition variables and
  the stop flag of \<open>src/utils/ring_buffer.cpp\<close>. One step is one access to shared state. The wait
  on a condition variable evaluates its predicate under the mutex, then releases the mutex and
  blocks in one step; a blocked thread continues only when it is notified (the standard also
  allows spurious wakeups but promises none). The handler takes no mutex. The buffer counts for
  its number of frames only, which is all the two predicates look at.
\<close>

datatype producer =
    P_Loop     \<comment> \<open>between two frames in \<open>captureLoop\<close>: the next frame of the batch, the test of the stop flag, or an error\<close>
  | P_Lock     \<comment> \<open>in \<open>RingBuffer::write\<close>, acquiring the mutex\<close>
  | P_Test     \<comment> \<open>owns the mutex, evaluates the predicate of the wait\<close>
  | P_Block    \<comment> \<open>predicate was false, still owns the mutex\<close>
  | P_Asleep   \<comment> \<open>blocked on \<open>space_cv_\<close>\<close>
  | P_Woken    \<comment> \<open>notified, acquiring the mutex again\<close>
  | P_Act      \<comment> \<open>the wait has returned, owns the mutex\<close>
  | P_Done

datatype consumer = C_Loop | C_Lock | C_Test | C_Block | C_Asleep | C_Woken | C_Act
  | C_Work     \<comment> \<open>has taken a frame, runs the later stages\<close>
  | C_Check    \<comment> \<open>\<open>filter_stage\<close> returned nothing, tests the stop flag\<close>
  | C_Done

datatype handler = H_Idle | H_Notify_Data | H_Notify_Space

datatype thread = Prod | Cons_Thread

record system =
  sy_capacity :: nat
  sy_count :: nat
  sy_stop :: bool
  sy_owner :: "thread option"
  sy_prod :: producer
  sy_cons :: consumer
  sy_handler :: handler
  sy_signals :: nat  \<comment> \<open>signals that will still be delivered\<close>

definition wake_consumer :: "consumer \<Rightarrow> consumer" where
  "wake_consumer c = (if c = C_Asleep then C_Woken else c)"

definition wake_producer :: "producer \<Rightarrow> producer" where
  "wake_producer p = (if p = P_Asleep then P_Woken else p)"

inductive step :: "system \<Rightarrow> system \<Rightarrow> bool" where
  prod_stop: "sy_prod s = P_Loop \<Longrightarrow> sy_stop s \<Longrightarrow> step s (s\<lparr>sy_prod := P_Done\<rparr>)"
| prod_error: "sy_prod s = P_Loop \<Longrightarrow> step s (s\<lparr>sy_prod := P_Done\<rparr>)"
| prod_frame: "sy_prod s = P_Loop \<Longrightarrow> step s (s\<lparr>sy_prod := P_Lock\<rparr>)"
| prod_lock: "sy_prod s = P_Lock \<Longrightarrow> sy_owner s = None \<Longrightarrow> step s (s\<lparr>sy_prod := P_Test, sy_owner := Some Prod\<rparr>)"
| prod_pass: "sy_prod s = P_Test \<Longrightarrow> sy_count s \<noteq> sy_capacity s \<or> sy_stop s \<Longrightarrow> step s (s\<lparr>sy_prod := P_Act\<rparr>)"
| prod_wait: "sy_prod s = P_Test \<Longrightarrow> sy_count s = sy_capacity s \<Longrightarrow> \<not> sy_stop s \<Longrightarrow> step s (s\<lparr>sy_prod := P_Block\<rparr>)"
| prod_block: "sy_prod s = P_Block \<Longrightarrow> step s (s\<lparr>sy_prod := P_Asleep, sy_owner := None\<rparr>)"
| prod_wake: "sy_prod s = P_Woken \<Longrightarrow> sy_owner s = None \<Longrightarrow> step s (s\<lparr>sy_prod := P_Test, sy_owner := Some Prod\<rparr>)"
| prod_store: "sy_prod s = P_Act \<Longrightarrow> sy_count s \<noteq> sy_capacity s \<Longrightarrow>
    step s (s\<lparr>sy_prod := P_Loop, sy_owner := None, sy_count := Suc (sy_count s), sy_cons := wake_consumer (sy_cons s)\<rparr>)"
| prod_give_up: "sy_prod s = P_Act \<Longrightarrow> sy_count s = sy_capacity s \<Longrightarrow> sy_stop s \<Longrightarrow>
    step s (s\<lparr>sy_prod := P_Done, sy_owner := None\<rparr>)"
| cons_stop: "sy_cons s = C_Loop \<Longrightarrow> sy_stop s \<Longrightarrow> step s (s\<lparr>sy_cons := C_Done\<rparr>)"
| cons_read: "sy_cons s = C_Loop \<Longrightarrow> \<not> sy_stop s \<Longrightarrow> step s (s\<lparr>sy_cons := C_Lock\<rparr>)"
| cons_lock: "sy_cons s = C_Lock \<Longrightarrow> sy_owner s = None \<Longrightarrow> step s (s\<lparr>sy_cons := C_Test, sy_owner := Some Cons_Thread\<rparr>)"
| cons_pass: "sy_cons s = C_Test \<Longrightarrow> sy_count s \<noteq> 0 \<or> sy_stop s \<Longrightarrow> step s (s\<lparr>sy_cons := C_Act\<rparr>)"
| cons_wait: "sy_cons s = C_Test \<Longrightarrow> sy_count s = 0 \<Longrightarrow> \<not> sy_stop s \<Longrightarrow> step s (s\<lparr>sy_cons := C_Block\<rparr>)"
| cons_block: "sy_cons s = C_Block \<Longrightarrow> step s (s\<lparr>sy_cons := C_Asleep, sy_owner := None\<rparr>)"
| cons_wake: "sy_cons s = C_Woken \<Longrightarrow> sy_owner s = None \<Longrightarrow> step s (s\<lparr>sy_cons := C_Test, sy_owner := Some Cons_Thread\<rparr>)"
| cons_take: "sy_cons s = C_Act \<Longrightarrow> sy_count s \<noteq> 0 \<Longrightarrow>
    step s (s\<lparr>sy_cons := C_Work, sy_owner := None, sy_count := sy_count s - 1, sy_prod := wake_producer (sy_prod s)\<rparr>)"
| cons_give_up: "sy_cons s = C_Act \<Longrightarrow> sy_count s = 0 \<Longrightarrow> sy_stop s \<Longrightarrow> step s (s\<lparr>sy_cons := C_Check, sy_owner := None\<rparr>)"
| cons_work: "sy_cons s = C_Work \<Longrightarrow> step s (s\<lparr>sy_cons := C_Loop\<rparr>)"
| cons_drop: "sy_cons s = C_Work \<Longrightarrow> step s (s\<lparr>sy_cons := C_Check\<rparr>)"
| cons_break: "sy_cons s = C_Check \<Longrightarrow> sy_stop s \<Longrightarrow> step s (s\<lparr>sy_cons := C_Done\<rparr>)"
| cons_continue: "sy_cons s = C_Check \<Longrightarrow> \<not> sy_stop s \<Longrightarrow> step s (s\<lparr>sy_cons := C_Loop\<rparr>)"
| sig_store: "sy_handler s = H_Idle \<Longrightarrow> sy_signals s = Suc n \<Longrightarrow>
    step s (s\<lparr>sy_handler := H_Notify_Data, sy_signals := n, sy_stop := True\<rparr>)"
| sig_data: "sy_handler s = H_Notify_Data \<Longrightarrow> step s (s\<lparr>sy_handler := H_Notify_Space, sy_cons := wake_consumer (sy_cons s)\<rparr>)"
| sig_space: "sy_handler s = H_Notify_Space \<Longrightarrow> step s (s\<lparr>sy_handler := H_Idle, sy_prod := wake_producer (sy_prod s)\<rparr>)"

inductive_simps step_simps: "step s s'"

definition initial :: "nat \<Rightarrow> nat \<Rightarrow> system" where
  "initial cap signals = \<lparr>sy_capacity = cap, sy_count = 0, sy_stop = False, sy_owner = None, sy_prod = P_Loop,
     sy_cons = C_Loop, sy_handler = H_Idle, sy_signals = signals\<rparr>"

abbreviation reachable :: "nat \<Rightarrow> nat \<Rightarrow> system \<Rightarrow> bool" where
  "reachable cap signals s \<equiv> step\<^sup>*\<^sup>* (initial cap signals) s"


subsection \<open>The invariant\<close>

definition prod_owns :: "producer \<Rightarrow> bool" where
  "prod_owns p \<longleftrightarrow> p \<in> {P_Test, P_Block, P_Act}"

definition cons_owns :: "consumer \<Rightarrow> bool" where
  "cons_owns c \<longleftrightarrow> c \<in> {C_Test, C_Block, C_Act}"

definition sys_inv :: "system \<Rightarrow> bool" where
  "sys_inv s \<longleftrightarrow> 0 < sy_capacity s \<and> sy_count s \<le> sy_capacity s
     \<and> (sy_owner s = Some Prod \<longleftrightarrow> prod_owns (sy_prod s)) \<and> (sy_owner s = Some Cons_Thread \<longleftrightarrow> cons_owns (sy_cons s))
     \<and> (sy_prod s \<in> {P_Block, P_Asleep} \<longrightarrow> sy_count s = sy_capacity s)
     \<and> (sy_cons s \<in> {C_Block, C_Asleep} \<longrightarrow> sy_count s = 0)
     \<and> (sy_prod s = P_Act \<longrightarrow> sy_count s \<noteq> sy_capacity s \<or> sy_stop s)
     \<and> (sy_cons s = C_Act \<longrightarrow> sy_count s \<noteq> 0 \<or> sy_stop s)
     \<and> (sy_cons s = C_Done \<longrightarrow> sy_stop s) \<and> (sy_handler s \<noteq> H_Idle \<longrightarrow> sy_stop s)"

lemmas inv_simps = sys_inv_def prod_owns_def cons_owns_def wake_consumer_def wake_producer_def

lemma step_inv: "step s s' \<Longrightarrow> sys_inv s \<Longrightarrow> sys_inv s'"
  by (induction rule: step.induct) (simp_all add: inv_simps, (linarith | force)+)

lemma step_capacity: "step s s' \<Longrightarrow> sy_capacity s' = sy_capacity s"
  by (induction rule: step.induct) simp_all

lemma reachable_inv:
  assumes "reachable cap signals s" and "0 < cap"
  shows "sys_inv s \<and> sy_capacity s = cap"
  using assms(1)
proof (induction rule: rtranclp_induct)
  case base
  then show ?case using assms(2) by (simp add: initial_def inv_simps)
next
  case (step y z)
  then show ?case using step_inv [of y z] step_capacity [of y z] by simp
qed

lemma progress:
  assumes "sys_inv s" and "\<nexists>s'. step s s'"
  shows "sy_prod s \<in> {P_Done, P_Asleep}" and "sy_cons s \<in> {C_Done, C_Asleep}" and "sy_handler s = H_Idle" and "sy_signals s = 0"
proof -
  have no: "\<not> step s s'" for s' using assms(2) by blast
  show h: "sy_handler s = H_Idle" using no sig_data sig_space by (cases "sy_handler s") blast+
  then show "sy_signals s = 0" using no sig_store by (cases "sy_signals s") blast+
  note inv = assms(1) [unfolded sys_inv_def]
  have act: "sy_prod s = P_Act \<Longrightarrow> sy_count s \<noteq> sy_capacity s \<or> sy_stop s" "sy_cons s = C_Act \<Longrightarrow> sy_count s \<noteq> 0 \<or> sy_stop s"
    using inv by simp_all
  have "sy_prod s \<noteq> P_Loop" using no prod_error by blast
  moreover have "sy_prod s \<noteq> P_Test" using no prod_pass prod_wait by blast
  moreover have "sy_prod s \<noteq> P_Block" using no prod_block by blast
  moreover have "sy_prod s \<noteq> P_Act" using no prod_store prod_give_up act(1) by blast
  ultimately have p: "sy_prod s \<in> {P_Done, P_Asleep, P_Lock, P_Woken}" by (cases "sy_prod s") simp_all
  have "sy_cons s \<noteq> C_Loop" using no cons_stop cons_read by blast
  moreover have "sy_cons s \<noteq> C_Test" using no cons_pass cons_wait by blast
  moreover have "sy_cons s \<noteq> C_Block" using no cons_block by blast
  moreover have "sy_cons s \<noteq> C_Act" using no cons_take cons_give_up act(2) by blast
  moreover have "sy_cons s \<noteq> C_Work" using no cons_work by blast
  moreover have "sy_cons s \<noteq> C_Check" using no cons_break cons_continue by blast
  ultimately have c: "sy_cons s \<in> {C_Done, C_Asleep, C_Lock, C_Woken}" by (cases "sy_cons s") simp_all
  have "\<not> prod_owns (sy_prod s)" "\<not> cons_owns (sy_cons s)" using p c by (auto simp: prod_owns_def cons_owns_def)
  then have "sy_owner s = None" using inv thread.exhaust option.exhaust by metis
  then show "sy_prod s \<in> {P_Done, P_Asleep}" "sy_cons s \<in> {C_Done, C_Asleep}"
    using no prod_lock prod_wake cons_lock cons_wake p c by blast+
qed


subsection \<open>Stopping\<close>

text \<open>No thread is blocked or about to block on its condition variable. Once the stop flag is set this
  is kept, and some thread can always come closer to its end.\<close>

definition awake :: "system \<Rightarrow> bool" where
  "awake s \<longleftrightarrow> sy_prod s \<notin> {P_Block, P_Asleep} \<and> sy_cons s \<notin> {C_Block, C_Asleep}"

fun prod_rank :: "producer \<Rightarrow> nat" where
  "prod_rank P_Done = 0" | "prod_rank P_Loop = 1" | "prod_rank P_Act = 2" | "prod_rank P_Test = 3" | "prod_rank _ = 4"

fun cons_rank :: "consumer \<Rightarrow> nat" where
  "cons_rank C_Done = 0" | "cons_rank C_Loop = 1" | "cons_rank C_Check = 1" | "cons_rank C_Work = 2" | "cons_rank C_Act = 3"
| "cons_rank C_Test = 4" | "cons_rank _ = 5"

definition stopping :: "system \<Rightarrow> bool" where
  "stopping s \<longleftrightarrow> sys_inv s \<and> sy_stop s \<and> awake s"

lemma step_stopping: "step s s' \<Longrightarrow> stopping s \<Longrightarrow> stopping s'"
proof -
  assume st: "step s s'" and s: "stopping s"
  then have "sys_inv s'" using step_inv by (simp add: stopping_def)
  moreover have "sy_stop s' \<and> awake s'"
    using st s unfolding stopping_def awake_def
    by (induction rule: step.induct) (auto simp: wake_consumer_def wake_producer_def)
  ultimately show "stopping s'" by (simp add: stopping_def)
qed

lemma steps_stopping: "step\<^sup>*\<^sup>* s s' \<Longrightarrow> stopping s \<Longrightarrow> stopping s'"
  by (induction rule: rtranclp_induct) (auto intro: step_stopping)

lemma wake_awake: "awake s \<Longrightarrow> wake_consumer (sy_cons s) = sy_cons s" "awake s \<Longrightarrow> wake_producer (sy_prod s) = sy_prod s"
  by (auto simp: awake_def wake_consumer_def wake_producer_def)

lemma prod_advances:
  assumes "stopping s" and "sy_prod s \<noteq> P_Done" and "sy_owner s \<noteq> Some Cons_Thread"
  shows "\<exists>s'. step s s' \<and> prod_rank (sy_prod s') < prod_rank (sy_prod s) \<and> sy_cons s' = sy_cons s"
proof -
  have s: "sys_inv s" "sy_stop s" "awake s" using assms(1) by (simp_all add: stopping_def)
  have own: "sy_owner s = None" if "\<not> prod_owns (sy_prod s)"
    using s(1) assms(3) that by (cases "sy_owner s"; cases "the (sy_owner s)") (auto simp: sys_inv_def)
  consider "sy_prod s = P_Loop" | "sy_prod s = P_Lock" | "sy_prod s = P_Woken" | "sy_prod s = P_Test" | "sy_prod s = P_Act"
    using s(3) assms(2) by (cases "sy_prod s") (auto simp: awake_def)
  then show ?thesis
  proof cases
    case 1
    then show ?thesis using prod_stop [OF 1 s(2)] by auto
  next
    case 2
    then show ?thesis using prod_lock [OF 2] own by (force simp: prod_owns_def)
  next
    case 3
    then show ?thesis using prod_wake [OF 3] own by (force simp: prod_owns_def)
  next
    case 4
    then show ?thesis using prod_pass [OF 4] s(2) by force
  next
    case 5
    then show ?thesis using prod_store [OF 5] prod_give_up [OF 5 _ s(2)] wake_awake(1) [OF s(3)]
      by (cases "sy_count s = sy_capacity s") force+
  qed
qed

lemma cons_advances:
  assumes "stopping s" and "sy_cons s \<noteq> C_Done" and "sy_owner s \<noteq> Some Prod"
  shows "\<exists>s'. step s s' \<and> cons_rank (sy_cons s') < cons_rank (sy_cons s) \<and> sy_prod s' = sy_prod s"
proof -
  have s: "sys_inv s" "sy_stop s" "awake s" using assms(1) by (simp_all add: stopping_def)
  have own: "sy_owner s = None" if "\<not> cons_owns (sy_cons s)"
    using s(1) assms(3) that by (cases "sy_owner s"; cases "the (sy_owner s)") (auto simp: sys_inv_def)
  consider "sy_cons s = C_Loop" | "sy_cons s = C_Lock" | "sy_cons s = C_Woken" | "sy_cons s = C_Test" | "sy_cons s = C_Act"
    | "sy_cons s = C_Work" | "sy_cons s = C_Check"
    using s(3) assms(2) by (cases "sy_cons s") (auto simp: awake_def)
  then show ?thesis
  proof cases
    case 1
    then show ?thesis using cons_stop [OF 1 s(2)] by auto
  next
    case 2
    then show ?thesis using cons_lock [OF 2] own by (force simp: cons_owns_def)
  next
    case 3
    then show ?thesis using cons_wake [OF 3] own by (force simp: cons_owns_def)
  next
    case 4
    then show ?thesis using cons_pass [OF 4] s(2) by force
  next
    case 5
    then show ?thesis using cons_take [OF 5] cons_give_up [OF 5 _ s(2)] wake_awake(2) [OF s(3)]
      by (cases "sy_count s = 0") force+
  next
    case 6
    then show ?thesis using cons_work [OF 6] by force
  next
    case 7
    then show ?thesis using cons_break [OF 7 s(2)] by force
  qed
qed

lemma stopping_advances:
  assumes "stopping s" and "\<not> (sy_prod s = P_Done \<and> sy_cons s = C_Done)"
  obtains s1 where "step s s1" "prod_rank (sy_prod s1) + cons_rank (sy_cons s1) < prod_rank (sy_prod s) + cons_rank (sy_cons s)"
proof -
  have "sy_prod s = P_Done \<Longrightarrow> sy_owner s \<noteq> Some Prod" "sy_cons s = C_Done \<Longrightarrow> sy_owner s \<noteq> Some Cons_Thread"
    using assms(1) by (simp_all add: stopping_def sys_inv_def prod_owns_def cons_owns_def)
  then have "sy_prod s \<noteq> P_Done \<and> sy_owner s \<noteq> Some Cons_Thread \<or> sy_cons s \<noteq> C_Done \<and> sy_owner s \<noteq> Some Prod"
    using assms(2) by auto
  then show thesis using prod_advances [OF assms(1)] cons_advances [OF assms(1)] that by fastforce
qed

lemma stopping_ends: "stopping s \<Longrightarrow> \<exists>s'. step\<^sup>*\<^sup>* s s' \<and> sy_prod s' = P_Done \<and> sy_cons s' = C_Done"
proof (induction "prod_rank (sy_prod s) + cons_rank (sy_cons s)" arbitrary: s rule: less_induct)
  case less
  show ?case
  proof (cases "sy_prod s = P_Done \<and> sy_cons s = C_Done")
    case True
    then show ?thesis by blast
  next
    case False
    obtain s1 where s1: "step s s1"
      "prod_rank (sy_prod s1) + cons_rank (sy_cons s1) < prod_rank (sy_prod s) + cons_rank (sy_cons s)"
      by (rule stopping_advances [OF less.prems False])
    from less.hyps [OF s1(2) step_stopping [OF s1(1) less.prems]] s1(1) show ?thesis
      by (meson converse_rtranclp_into_rtranclp)
  qed
qed


subsection \<open>Properties\<close>

text \<open>C20: The two threads are synchronised: in every reachable state at most one of them is inside the
  critical section, the buffer never holds more frames than its capacity, a thread acts on the
  buffer only when there is room (a frame) or the engine is stopping, and the two threads are
  never both blocked on their condition variables.\<close>

theorem engine_synchronised:
  assumes "reachable cap signals s" and "0 < cap"
  shows "\<not> (prod_owns (sy_prod s) \<and> cons_owns (sy_cons s)) \<and> sy_count s \<le> cap
    \<and> (sy_prod s = P_Act \<longrightarrow> sy_count s < cap \<or> sy_stop s) \<and> (sy_cons s = C_Act \<longrightarrow> 0 < sy_count s \<or> sy_stop s)
    \<and> \<not> (sy_prod s = P_Asleep \<and> sy_cons s = C_Asleep)"
proof -
  note inv = reachable_inv [OF assms, unfolded sys_inv_def]
  have "\<not> (prod_owns (sy_prod s) \<and> cons_owns (sy_cons s))" using inv by (metis option.inject thread.distinct(1))
  moreover have "sy_prod s = P_Act \<longrightarrow> sy_count s < cap \<or> sy_stop s" "sy_cons s = C_Act \<longrightarrow> 0 < sy_count s \<or> sy_stop s"
    "sy_count s \<le> cap" using inv by linarith+
  moreover have "sy_prod s = P_Asleep \<Longrightarrow> sy_count s = cap" "sy_cons s = C_Asleep \<Longrightarrow> sy_count s = 0" using inv by simp_all
  then have "\<not> (sy_prod s = P_Asleep \<and> sy_cons s = C_Asleep)" using assms(2) by auto
  ultimately show ?thesis by blast
qed

theorem engine_synchronised_witness:
  "reachable 4 1 ((initial 4 1)\<lparr>sy_prod := P_Test, sy_owner := Some Prod\<rparr>)
   \<and> \<not> (prod_owns (sy_prod ((initial 4 1)\<lparr>sy_prod := P_Test, sy_owner := Some Prod\<rparr>))
     \<and> cons_owns (sy_cons ((initial 4 1)\<lparr>sy_prod := P_Test, sy_owner := Some Prod\<rparr>)))"
proof -
  let ?s1 = "(initial 4 1)\<lparr>sy_prod := P_Lock\<rparr>"
  have "step (initial 4 1) ?s1" by (rule prod_frame) (simp add: initial_def)
  moreover have "step ?s1 (?s1\<lparr>sy_prod := P_Test, sy_owner := Some Prod\<rparr>)" by (rule prod_lock) (simp_all add: initial_def)
  ultimately have r: "reachable 4 1 ((initial 4 1)\<lparr>sy_prod := P_Test, sy_owner := Some Prod\<rparr>)" by simp
  have "0 < (4 :: nat)" by simp
  then show ?thesis using engine_synchronised [OF r] r by blast
qed

text \<open>C34: The engine gets stuck only at the end: a reachable state in which no thread can do a step has
  both threads finished, or the capture thread finished and the pipeline asleep on an empty
  buffer, or the pipeline finished after a stop request and the capture thread asleep on a full
  buffer; and no signal is pending in it.\<close>

theorem engine_stuck_only_at_end:
  assumes "reachable cap signals s" and "0 < cap" and "\<nexists>s'. step s s'"
  shows "sy_signals s = 0 \<and> sy_handler s = H_Idle
    \<and> (sy_prod s = P_Done \<and> sy_cons s = C_Done
      \<or> sy_prod s = P_Done \<and> sy_cons s = C_Asleep \<and> sy_count s = 0
      \<or> sy_prod s = P_Asleep \<and> sy_cons s = C_Done \<and> sy_stop s \<and> sy_count s = cap)"
proof -
  have inv: "sys_inv s" "sy_capacity s = cap" using reachable_inv [OF assms(1,2)] by simp_all
  note pr = progress [OF inv(1) assms(3)]
  have "sy_prod s = P_Asleep \<Longrightarrow> sy_count s = cap" "sy_cons s = C_Asleep \<Longrightarrow> sy_count s = 0" "sy_cons s = C_Done \<Longrightarrow> sy_stop s"
    using inv by (simp_all add: sys_inv_def)
  then show ?thesis using pr assms(2) by auto
qed

text \<open>The lost wakeup: the pipeline thread finds the buffer empty and the stop flag clear; before it
  blocks, the handler runs to its end; then the pipeline thread blocks.\<close>

definition lost_wakeup :: system where
  "lost_wakeup = \<lparr>sy_capacity = 1, sy_count = 0, sy_stop = True, sy_owner = None, sy_prod = P_Done,
     sy_cons = C_Asleep, sy_handler = H_Idle, sy_signals = 0\<rparr>"

lemma lost_wakeup_stuck: "\<not> step lost_wakeup s'"
  by (simp add: step_simps lost_wakeup_def)

lemma lost_wakeup_reachable: "reachable 1 1 lost_wakeup"
proof -
  let ?s0 = "initial 1 1"
  let ?s1 = "?s0\<lparr>sy_cons := C_Lock\<rparr>"
  let ?s2 = "?s1\<lparr>sy_cons := C_Test, sy_owner := Some Cons_Thread\<rparr>"
  let ?s3 = "?s2\<lparr>sy_cons := C_Block\<rparr>"
  let ?s4 = "?s3\<lparr>sy_handler := H_Notify_Data, sy_signals := 0, sy_stop := True\<rparr>"
  let ?s5 = "?s4\<lparr>sy_handler := H_Notify_Space, sy_cons := wake_consumer (sy_cons ?s4)\<rparr>"
  let ?s6 = "?s5\<lparr>sy_handler := H_Idle, sy_prod := wake_producer (sy_prod ?s5)\<rparr>"
  let ?s7 = "?s6\<lparr>sy_cons := C_Asleep, sy_owner := None\<rparr>"
  let ?s8 = "?s7\<lparr>sy_prod := P_Done\<rparr>"
  note d = initial_def wake_consumer_def wake_producer_def
  have s1: "step ?s0 ?s1" by (rule cons_read) (simp_all add: d)
  have s2: "step ?s1 ?s2" by (rule cons_lock) (simp_all add: d)
  have s3: "step ?s2 ?s3" by (rule cons_wait) (simp_all add: d)
  have s4: "step ?s3 ?s4" by (rule sig_store) (simp_all add: d)
  have s5: "step ?s4 ?s5" by (rule sig_data) simp
  have s6: "step ?s5 ?s6" by (rule sig_space) simp
  have s7: "step ?s6 ?s7" by (rule cons_block) (simp add: d)
  have s8: "step ?s7 ?s8" by (rule prod_stop) (simp_all add: d)
  have e: "?s8 = lost_wakeup" by (simp add: lost_wakeup_def d)
  note chain = converse_rtranclp_into_rtranclp [where r = step]
  show ?thesis
    by (rule chain [OF s1 chain [OF s2 chain [OF s3 chain [OF s4 chain [OF s5 chain [OF s6 chain [OF s7
      r_into_rtranclp [where r = step, OF s8 [unfolded e]]]]]]]]])
qed

theorem engine_stuck_only_at_end_witness:
  "reachable 1 1 lost_wakeup \<and> sy_signals lost_wakeup = 0 \<and> sy_prod lost_wakeup = P_Done"
proof -
  have "0 < (1 :: nat)" by simp
  then show ?thesis
    using engine_stuck_only_at_end [OF lost_wakeup_reachable] lost_wakeup_stuck lost_wakeup_reachable
    by (auto simp: lost_wakeup_def)
qed

text \<open>C21: A stop request is honoured unless it comes while a thread is blocked or about to block: from a
  reachable state with the stop flag set and no thread in or before its wait, no thread ever
  waits again, the engine cannot get stuck before both threads have finished, and whatever
  happens, both can still finish.\<close>

theorem stop_request_honoured:
  assumes "reachable cap signals s" and "0 < cap" and "sy_stop s" and "awake s" and "step\<^sup>*\<^sup>* s s'"
  shows "awake s' \<and> (\<exists>s''. step\<^sup>*\<^sup>* s' s'' \<and> sy_prod s'' = P_Done \<and> sy_cons s'' = C_Done)
    \<and> ((\<nexists>s''. step s' s'') \<longrightarrow> sy_prod s' = P_Done \<and> sy_cons s' = C_Done)"
proof -
  have "stopping s" using reachable_inv [OF assms(1,2)] assms(3,4) by (simp add: stopping_def)
  with steps_stopping [OF assms(5)] have s': "stopping s'" by simp
  then have "awake s'" "(\<nexists>s''. step s' s'') \<Longrightarrow> sy_prod s' = P_Done \<and> sy_cons s' = C_Done"
    using progress [of s'] by (auto simp: stopping_def awake_def)
  with stopping_ends [OF s'] show ?thesis by blast
qed

theorem stop_request_honoured_witness:
  "reachable 1 1 ((initial 1 1)\<lparr>sy_handler := H_Notify_Data, sy_signals := 0, sy_stop := True\<rparr>)
   \<and> (\<exists>s. step\<^sup>*\<^sup>* ((initial 1 1)\<lparr>sy_handler := H_Notify_Data, sy_signals := 0, sy_stop := True\<rparr>) s
      \<and> sy_prod s = P_Done \<and> sy_cons s = C_Done)"
proof -
  let ?s = "(initial 1 1)\<lparr>sy_handler := H_Notify_Data, sy_signals := 0, sy_stop := True\<rparr>"
  have "step (initial 1 1) ?s" by (rule sig_store) (simp_all add: initial_def)
  then have r: "reachable 1 1 ?s" by simp
  have "0 < (1 :: nat)" "sy_stop ?s" "awake ?s" by (simp_all add: initial_def awake_def)
  from stop_request_honoured [OF r this rtranclp.rtrancl_refl] r show ?thesis by blast
qed

text \<open>C35: A stop request can be lost: because the signal handler sets the flag and notifies without
  holding the mutex, there is a reachable state in which the stop flag is set, the handler has
  notified both condition variables and the capture thread has finished, and the pipeline thread
  sleeps without any possible further step, so \<open>t2.join ()\<close> never returns.\<close>

theorem stop_request_can_be_lost:
  "\<exists>s. reachable 1 1 s \<and> sy_stop s \<and> sy_prod s = P_Done \<and> sy_cons s = C_Asleep \<and> sy_handler s = H_Idle \<and> (\<nexists>s'. step s s')"
  using lost_wakeup_reachable lost_wakeup_stuck by (intro exI [of _ lost_wakeup]) (simp add: lost_wakeup_def)

end
