(* ===== verification/Engine.thy ===== *)
theory Engine
  imports Rabbitmq_Publisher Raw_Socket Capture_Session Engine_Threads "HOL-Library.Sublist"
begin

unbundle bit_operations_syntax

text \<open>
  \<open>src/main.cpp\<close>: the start of the engine, one iteration of the pipeline thread, and the shutdown.
  The two threads and the signal handler are in \<open>Engine_Threads\<close>, the capture thread's loop in
  \<open>Capture_Session\<close>. An iteration of the pipeline takes the values that the stop flag has at its loads
  as arguments, and a run of the pipeline thread a list of such turns with what the capture
  thread has put into the packet buffer before each of them.
\<close>

subsection \<open>Start and shutdown\<close>

text \<open>\<open>std::stoul\<close>: white space, a sign, digits up to the first other character; without digits it
  throws \<open>std::invalid_argument\<close>, above the range of \<open>unsigned long\<close> it throws \<open>std::out_of_range\<close>, and
  a minus sign negates the unsigned result.\<close>

datatype stoul_error = Stoul_Invalid_Argument | Stoul_Out_Of_Range

definition stoul :: "string \<Rightarrow> stoul_error + size_t" where
  "stoul s =
     (let s1 = dropWhile isspace s;
          neg = (s1 \<noteq> [] \<and> hd s1 = CHR ''-'');
          s2 = (if s1 \<noteq> [] \<and> (hd s1 = CHR ''-'' \<or> hd s1 = CHR ''+'') then tl s1 else s1);
          ds = takeWhile is_digit s2;
          v = radix_value 10 ds
      in if ds = [] then Inl Stoul_Invalid_Argument
         else if 2 ^ 64 \<le> v then Inl Stoul_Out_Of_Range
         else Inr (if neg then - of_nat v else of_nat v))"

record engine =
  en_fd :: int
  en_packet_buf :: PacketBuffer
  en_frame_buf :: "u8 list"
  en_flow_table :: FlowTable
  en_publisher :: RabbitMqPublisher

text \<open>How \<open>main\<close> goes on: it returns, an exception leaves it, \<open>atoi\<close> is undefined on the configured
  port, or the threads are started.\<close>

datatype startup = Exit int | Terminated | Port_Undefined | Started engine

definition main_setup :: "os_env \<Rightarrow> amqp_env \<Rightarrow> (size_t \<Rightarrow> nat \<Rightarrow> bool) \<Rightarrow> socket_state \<Rightarrow> startup \<times> socket_state" where
  "main_setup env broker alloc_ok s0 =
     (let s1 = os_emit (Os_Log INFO ''Engine starting'') s0;
          (fd, s2) = openRawSocket env s1
      in if fd < 0 then (Exit 1, os_emit (Os_Log ERROR (''Failed to open raw socket '' @ em_dash @ '' exiting'')) s2)
         else (case (case os_getenv env ''RING_BUFFER_CAPACITY'' of Some v \<Rightarrow> stoul v | None \<Rightarrow> Inr 1024) of
           Inl e \<Rightarrow> (Terminated, s2)
         | Inr cap \<Rightarrow>
           let s3 = os_emit (Os_Log INFO (''Initializing packet buffer '' @ em_dash @ '' capacity: ''
                 @ dec_string (unat cap) @ '' slots ('' @ dec_string (unat (cap * 2048 div 1024)) @ '' KB)'')) s2 in
           (case new_PacketBuffer alloc_ok cap of
              Inl e \<Rightarrow> (Terminated, s3)
            | Inr packet_buf \<Rightarrow>
              let s4 = os_emit (Os_Log INFO ''Packet buffer initialized'') s3 in
              (case publisherConfigFromEnv (os_getenv env) of
                 None \<Rightarrow> (Port_Undefined, s4)
               | Some pub_cfg \<Rightarrow>
                 let publisher = new_RabbitMqPublisher broker pub_cfg in
                 if \<not> isConnected publisher then
                   (Exit 1, closeRawSocket env fd (os_emit (Os_Log ERROR (''Failed to connect to RabbitMQ '' @ em_dash @ '' exiting'')) s4))
                 else (Started \<lparr>en_fd = fd, en_packet_buf = packet_buf, en_frame_buf = replicate 2040 0,
                     en_flow_table = Map.empty, en_publisher = publisher\<rparr>, s4)))))"

text \<open>The messages around the start of the threads.\<close>

definition main_spawn :: "int \<Rightarrow> socket_state \<Rightarrow> socket_state" where
  "main_spawn fd s = os_emit (Os_Log INFO (''Spawning Thread 2 '' @ em_dash @ '' pipeline''))
     (os_emit (Os_Log INFO (''Thread 1 started '' @ em_dash @ '' capturing on socket fd '' @ int_string fd))
       (os_emit (Os_Log INFO (''Spawning Thread 1 '' @ em_dash @ '' capture'')) s))"

definition main_running :: "socket_state \<Rightarrow> socket_state" where
  "main_running s = os_emit (Os_Log INFO (''Engine running '' @ em_dash @ '' press Ctrl+C to stop''))
     (os_emit (Os_Log INFO (''Thread 2 started '' @ em_dash @ '' pipeline stub running'')) s)"

definition main_shutdown :: "os_env \<Rightarrow> int \<Rightarrow> socket_state \<Rightarrow> int \<times> socket_state" where
  "main_shutdown env fd s = (0, os_emit (Os_Log INFO ''Engine stopped cleanly'') (closeRawSocket env fd s))"


subsection \<open>The pipeline thread\<close>

datatype loop_next = Continue | Break

text \<open>The loop body after \<open>filter_stage\<close> has let a frame through: dissect, enrich, track and publish.\<close>

definition process_frame :: "LocalIpSet \<Rightarrow> amqp_env \<Rightarrow> FilteredFrame \<Rightarrow> engine \<Rightarrow> engine outcome" where
  "process_frame local_ips broker filtered s =
     (case dissector_stage (en_frame_buf s) filtered local_ips of
        None \<Rightarrow> Undefined
      | Some None \<Rightarrow> Returns s
      | Some (Some dissected) \<Rightarrow>
        (case stats_stage dissected of
           None \<Rightarrow> Returns s
         | Some enriched \<Rightarrow>
           (case flow_tracker enriched (en_flow_table s) of
              (flow, flow_table, is_retransmit) \<Rightarrow>
              (case publish broker enriched flow is_retransmit (en_publisher s) of
                 None \<Rightarrow> Undefined
               | Some (_, publisher) \<Rightarrow> Returns (s\<lparr>en_flow_table := flow_table, en_publisher := publisher\<rparr>)))))"

definition pipeline_iteration :: "byte_order \<Rightarrow> u8 list \<Rightarrow> bool \<Rightarrow> bool \<Rightarrow> bool \<Rightarrow> LocalIpSet \<Rightarrow> amqp_env \<Rightarrow> engine
    \<Rightarrow> (loop_next \<times> engine) outcome" where
  "pipeline_iteration e slot_buf stop_wait stop_after stop_check local_ips broker s =
     (case filter_stage e slot_buf stop_wait stop_after (en_packet_buf s) (en_frame_buf s) 2040 of
        Blocks \<Rightarrow> Blocks
      | Undefined \<Rightarrow> Undefined
      | Returns (filtered, frame_buf, packet_buf) \<Rightarrow>
          let s1 = s\<lparr>en_frame_buf := frame_buf, en_packet_buf := packet_buf\<rparr> in
          (case filtered of
             None \<Rightarrow> Returns (if stop_check then Break else Continue, s1)
           | Some ff \<Rightarrow> (case process_frame local_ips broker ff s1 of
               Blocks \<Rightarrow> Blocks | Undefined \<Rightarrow> Undefined | Returns s2 \<Rightarrow> Returns (Continue, s2))))"

text \<open>One turn of the \<open>while\<close> loop: the loads of the stop flag at the loop's head, in the wait, after it
  and in the check of an empty result; the uninitialised \<open>slot_buf\<close> of \<open>PacketBuffer::read\<close>; the
  broker; and the frames that arrive before the turn. A frame that finds the buffer full stays outside.\<close>

record turn =
  tn_stop_head :: bool
  tn_stop_wait :: bool
  tn_stop_after :: bool
  tn_stop_check :: bool
  tn_slot_buf :: "u8 list"
  tn_broker :: amqp_env
  tn_arrivals :: "(u64 \<times> u8 list) list"

fun arrive :: "byte_order \<Rightarrow> (u64 \<times> u8 list) list \<Rightarrow> PacketBuffer \<Rightarrow> PacketBuffer" where
  "arrive e [] pb = pb"
| "arrive e (x # xs) pb = arrive e xs (case packet_put e x pb of None \<Rightarrow> pb | Some pb' \<Rightarrow> pb')"

text \<open>The loop, for as many turns as are given; the flag tells whether it was left.\<close>

fun pipeline_loop :: "byte_order \<Rightarrow> LocalIpSet \<Rightarrow> turn list \<Rightarrow> engine \<Rightarrow> (bool \<times> engine) outcome" where
  "pipeline_loop e local_ips [] s = Returns (False, s)"
| "pipeline_loop e local_ips (t # turns) s0 =
     (let s = s0\<lparr>en_packet_buf := arrive e (tn_arrivals t) (en_packet_buf s0)\<rparr> in
      if tn_stop_head t then Returns (True, s)
      else (case pipeline_iteration e (tn_slot_buf t) (tn_stop_wait t) (tn_stop_after t) (tn_stop_check t) local_ips (tn_broker t) s of
          Blocks \<Rightarrow> Blocks
        | Undefined \<Rightarrow> Undefined
        | Returns (Break, s') \<Rightarrow> Returns (True, s')
        | Returns (Continue, s') \<Rightarrow> pipeline_loop e local_ips turns s'))"

text \<open>The body of thread 2; \<open>None\<close> only when \<open>getLocalIps\<close> has used up its bound.\<close>

definition pipeline_thread :: "os_env \<Rightarrow> nat \<Rightarrow> byte_order \<Rightarrow> turn list \<Rightarrow> engine \<Rightarrow> socket_state
    \<Rightarrow> ((bool \<times> engine) outcome \<times> socket_state) option" where
  "pipeline_thread env fuel e turns s os0 =
     (case getLocalIps env fuel (os_emit (Os_Log INFO ''Thread 2: pipeline loop started'') os0) of
        None \<Rightarrow> None
      | Some (local_ips, os1) \<Rightarrow> Some (case pipeline_loop e local_ips turns s of
            Returns (True, s') \<Rightarrow> (Returns (True, s'), os_emit (Os_Log INFO ''Thread 2: pipeline loop stopped'') os1)
          | r \<Rightarrow> (r, os1)))"


subsection \<open>The invariant of the engine\<close>

definition engine_inv :: "engine \<Rightarrow> bool" where
  "engine_inv s \<longleftrightarrow> packet_inv (en_packet_buf s) \<and> length (en_frame_buf s) = 2040 \<and> pub_inv (en_publisher s)"

text \<open>What an iteration makes of the bytes of a frame: the enriched frame that is tracked and published.\<close>

definition enrich :: "LocalIpSet \<Rightarrow> u64 \<Rightarrow> u8 list \<Rightarrow> u8 list \<Rightarrow> EnrichedFrame option" where
  "enrich local_ips ts f rest = (case filter_frame ts f of None \<Rightarrow> None
     | Some ff \<Rightarrow> (case dissector_stage (f @ rest) ff local_ips of
         Some (Some d) \<Rightarrow> stats_stage d | _ \<Rightarrow> None))"

text \<open>Processing an admitted frame: the engine is unchanged when the frame is dropped, otherwise the
  enriched frame is tracked and published with the record of its flow.\<close>

definition processed :: "amqp_env \<Rightarrow> EnrichedFrame option \<Rightarrow> engine \<Rightarrow> engine \<Rightarrow> bool" where
  "processed broker en s s' \<longleftrightarrow> engine_inv s' \<and> en_packet_buf s' = en_packet_buf s \<and> en_frame_buf s' = en_frame_buf s
     \<and> (case en of
          None \<Rightarrow> en_flow_table s' = en_flow_table s \<and> en_publisher s' = en_publisher s
        | Some en \<Rightarrow> en_flow_table s' = table_step en (en_flow_table s)
            \<and> (\<exists>b. publish broker en (fst (flow_tracker en (en_flow_table s))) (snd (snd (flow_tracker en (en_flow_table s))))
                 (en_publisher s) = Some (b, en_publisher s')))"

lemma process_frame_post:
  assumes inv: "engine_inv s" and ff: "filter_frame ts f = Some ff" and len: "length f \<le> 2040" and buf: "en_frame_buf s = f @ rest"
  shows "\<exists>s'. process_frame ips broker ff s = Returns s' \<and> processed broker (enrich ips ts f rest) s s'"
proof -
  have "94 \<le> length (f @ rest)" using inv buf by (simp add: engine_inv_def)
  then obtain d where d: "dissector_stage (f @ rest) ff ips = Some d" using dissector_no_fault [OF filter_frame_ok [OF ff len]] by blast
  show ?thesis
  proof (cases d)
    case None
    then show ?thesis using d ff inv by (simp add: process_frame_def processed_def enrich_def buf)
  next
    case (Some dis)
    obtain en where en: "stats_stage dis = Some en" using stats_stage_total by blast
    obtain fl tbl rt where t: "flow_tracker en (en_flow_table s) = (fl, tbl, rt)" by (metis prod.exhaust)
    obtain b p where p: "publish broker en fl rt (en_publisher s) = Some (b, p)" "pub_inv p"
      using publish_post inv by (metis engine_inv_def)
    show ?thesis
      using d Some en t p ff inv by (simp add: process_frame_def processed_def enrich_def buf engine_inv_def table_step_def)
  qed
qed

lemma enrich_filtered: "filter_frame ts f = None \<Longrightarrow> enrich ips ts f rest = None"
  by (simp add: enrich_def)

lemma pipeline_iteration_frame:
  assumes inv: "engine_inv s" and fr: "packet_frames e (en_packet_buf s) = (ts, f) # fs" and slot: "length slot_buf = 2048"
  shows "\<exists>nxt pb s'. pipeline_iteration e slot_buf sw sa sc ips broker s = Returns (nxt, s') \<and> packet_frames e pb = fs
    \<and> rb_capacity pb = rb_capacity (en_packet_buf s)
    \<and> processed broker (enrich ips ts f (drop (length f) (en_frame_buf s)))
        (s\<lparr>en_frame_buf := f @ drop (length f) (en_frame_buf s), en_packet_buf := pb\<rparr>) s'
    \<and> (nxt = Break \<longrightarrow> sc) \<and> (filter_frame ts f \<noteq> None \<longrightarrow> nxt = Continue)"
proof -
  let ?rest = "drop (length f) (en_frame_buf s)"
  note i = inv [unfolded engine_inv_def]
  obtain pb where fs: "filter_stage e slot_buf sw sa (en_packet_buf s) (en_frame_buf s) 2040 = Returns (filter_frame ts f, f @ ?rest, pb)"
    and pb: "packet_inv pb" "packet_frames e pb = fs" "length f \<le> 2040" "rb_capacity pb = rb_capacity (en_packet_buf s)"
    using filter_stage_frame [OF _ fr slot, of "en_frame_buf s" sw sa] i by blast
  let ?s1 = "s\<lparr>en_frame_buf := f @ ?rest, en_packet_buf := pb\<rparr>"
  have s1: "engine_inv ?s1" using i pb by (simp add: engine_inv_def)
  show ?thesis
  proof (cases "filter_frame ts f")
    case None
    then show ?thesis using fs s1 pb
      by (intro exI [of _ "if sc then Break else Continue"] exI [of _ pb] exI [of _ ?s1])
        (simp add: pipeline_iteration_def processed_def enrich_filtered)
  next
    case (Some ff)
    obtain s' where "process_frame ips broker ff ?s1 = Returns s'" "processed broker (enrich ips ts f ?rest) ?s1 s'"
      using process_frame_post [OF s1 Some pb(3), of ?rest ips broker] by auto
    then show ?thesis using fs pb Some
      by (intro exI [of _ Continue] exI [of _ pb] exI [of _ s']) (simp add: pipeline_iteration_def)
  qed
qed

text \<open>On an empty buffer an iteration waits, or does nothing when the engine is stopping.\<close>

lemma pipeline_iteration_empty:
  assumes "packet_frames e (en_packet_buf s) = []" and "sw \<longrightarrow> sa"
  shows "pipeline_iteration e slot_buf sw sa sc local_ips broker s
    = (if sw then Returns (if sc then Break else Continue, s) else Blocks)"
  using filter_stage_empty [OF assms, of slot_buf "en_frame_buf s" 2040] by (simp add: pipeline_iteration_def)


subsection \<open>Runs of the pipeline thread\<close>

text \<open>What the frames that were taken out of the packet buffer amount to: the enriched frames, in
  order, where \<open>frame_buf\<close> keeps the tail of longer earlier frames; its contents afterwards; and
  the messages for the frames that are published, each with the state of its flow at that moment.\<close>

fun enrich_all :: "LocalIpSet \<Rightarrow> u8 list \<Rightarrow> (u64 \<times> u8 list) list \<Rightarrow> EnrichedFrame list" where
  "enrich_all local_ips buf [] = []"
| "enrich_all local_ips buf ((ts, f) # fs) =
     (case enrich local_ips ts f (drop (length f) buf) of None \<Rightarrow> [] | Some en \<Rightarrow> [en])
     @ enrich_all local_ips (f @ drop (length f) buf) fs"

fun buf_after :: "u8 list \<Rightarrow> (u64 \<times> u8 list) list \<Rightarrow> u8 list" where
  "buf_after buf [] = buf"
| "buf_after buf ((ts, f) # fs) = buf_after (f @ drop (length f) buf) fs"

fun messages :: "EnrichedFrame list \<Rightarrow> FlowTable \<Rightarrow> string list" where
  "messages [] t = []"
| "messages (f # fs) t = (case flow_tracker f t of (flow, t', rt) \<Rightarrow>
     (if published f then [buildJson f flow rt] else []) @ messages fs t')"

lemma enrich_all_append: "enrich_all ips buf (a @ b) = enrich_all ips buf a @ enrich_all ips (buf_after buf a) b"
  by (induction ips buf a rule: enrich_all.induct) simp_all

lemma buf_after_append: "buf_after buf (a @ b) = buf_after (buf_after buf a) b"
  by (induction buf a rule: buf_after.induct) simp_all

lemma messages_append: "messages (a @ b) t = messages a t @ messages b (fold table_step a t)"
  by (induction a arbitrary: t) (simp_all add: flow_tracker_result)

text \<open>At most one message per frame.\<close>

lemma messages_length: "length (messages fs t) \<le> length fs"
  by (induction fs arbitrary: t) (auto split: prod.split intro: le_SucI)

lemma enrich_all_length: "length (enrich_all ips buf fs) \<le> length fs"
  by (induction ips buf fs rule: enrich_all.induct) (auto split: option.split)

lemma enrich_all_keys: "f \<in> set (enrich_all ips buf fs) \<Longrightarrow> ef_flow_key f \<noteq> []"
proof (induction ips buf fs rule: enrich_all.induct)
  case (2 ips buf ts f fs)
  have "enrich ips ts f rest = Some en \<Longrightarrow> ef_flow_key en \<noteq> []" for rest en
    by (auto simp: enrich_def split: option.splits dest: stats_stage_key_nonempty)
  with 2 show ?case by (auto split: option.splits)
qed simp

text \<open>Tracking these frames from an empty table gives the summary of each flow.\<close>

lemma enriched_summaries:
  "FlowTable_get (fold table_step (enrich_all ips buf dn) Map.empty) k =
     (let own = filter (\<lambda>f. ef_flow_key f = k) (enrich_all ips buf dn) in if own = [] then new_FlowRecord else flow_summary own)"
  using flow_run_get [of "enrich_all ips buf dn" k] enrich_all_keys by (auto simp: Let_def filter_empty_conv)

text \<open>\<open>pipeline_did e ips s acc dn s'\<close>: from \<open>s\<close> to \<open>s'\<close> the frames \<open>acc\<close> came into the packet buffer and the
  frames \<open>dn\<close> were taken out, tracked and published.\<close>

definition pipeline_did :: "byte_order \<Rightarrow> LocalIpSet \<Rightarrow> engine \<Rightarrow> (u64 \<times> u8 list) list \<Rightarrow> (u64 \<times> u8 list) list \<Rightarrow> engine \<Rightarrow> bool" where
  "pipeline_did e ips s acc dn s' \<longleftrightarrow> engine_inv s'
     \<and> packet_frames e (en_packet_buf s) @ acc = dn @ packet_frames e (en_packet_buf s')
     \<and> en_frame_buf s' = buf_after (en_frame_buf s) dn
     \<and> en_flow_table s' = fold table_step (enrich_all ips (en_frame_buf s) dn) (en_flow_table s)
     \<and> (\<exists>ms. sent (pub_calls (en_publisher s')) = sent (pub_calls (en_publisher s)) @ ms
         \<and> subseq ms (messages (enrich_all ips (en_frame_buf s) dn) (en_flow_table s)))"

lemma did_refl: "engine_inv s \<Longrightarrow> pipeline_did e ips s [] [] s"
  by (simp add: pipeline_did_def)

lemma did_trans:
  assumes "pipeline_did e ips s acc dn s1" and "pipeline_did e ips s1 acc' dn' s2"
  shows "pipeline_did e ips s (acc @ acc') (dn @ dn') s2"
proof -
  note a = assms(1) [unfolded pipeline_did_def] and b = assms(2) [unfolded pipeline_did_def]
  obtain ms where ms: "sent (pub_calls (en_publisher s1)) = sent (pub_calls (en_publisher s)) @ ms"
    "subseq ms (messages (enrich_all ips (en_frame_buf s) dn) (en_flow_table s))" using a by blast
  obtain ms' where ms': "sent (pub_calls (en_publisher s2)) = sent (pub_calls (en_publisher s1)) @ ms'"
    "subseq ms' (messages (enrich_all ips (en_frame_buf s1) dn') (en_flow_table s1))" using b by blast
  have "subseq (ms @ ms') (messages (enrich_all ips (en_frame_buf s) (dn @ dn')) (en_flow_table s))"
    using ms(2) ms'(2) a by (simp add: enrich_all_append messages_append list_emb_append_mono)
  moreover have "packet_frames e (en_packet_buf s) @ acc @ acc' = (dn @ dn') @ packet_frames e (en_packet_buf s2)"
    using a b by (metis append.assoc)
  ultimately show ?thesis unfolding pipeline_did_def
    using a b ms(1) ms'(1) by (auto simp: enrich_all_append buf_after_append)
qed

lemma arrive_frames:
  "packet_inv pb \<Longrightarrow> packet_inv (arrive e xs pb)
    \<and> (\<exists>acc. subseq acc xs \<and> packet_frames e (arrive e xs pb) = packet_frames e pb @ acc)"
proof (induction xs arbitrary: pb)
  case (Cons x xs)
  from Cons.prems show ?case
  proof (cases rule: pbq.put_cases [where e = e and f = x])
    case 1
    then show ?thesis using Cons by (auto intro: list_emb_Cons)
  next
    case (2 q)
    from Cons.IH [OF 2(2)] obtain acc where "subseq acc xs" "packet_frames e (arrive e xs q) = packet_frames e q @ acc" "packet_inv (arrive e xs q)"
      by blast
    then show ?thesis using 2 by (auto intro!: exI [of _ "x # acc"])
  qed
qed simp

lemma arrive_did:
  assumes "engine_inv s"
  obtains acc where "subseq acc xs" "pipeline_did e ips s acc [] (s\<lparr>en_packet_buf := arrive e xs (en_packet_buf s)\<rparr>)"
  using arrive_frames [of "en_packet_buf s" e xs] assms by (auto simp: pipeline_did_def engine_inv_def)

text \<open>Processing a frame extends the tracked frames and the messages by it.\<close>

lemma processed_did:
  assumes "processed broker en s s'"
  shows "en_flow_table s' = fold table_step (case en of None \<Rightarrow> [] | Some en \<Rightarrow> [en]) (en_flow_table s)
    \<and> (\<exists>ms. sent (pub_calls (en_publisher s')) = sent (pub_calls (en_publisher s)) @ ms
        \<and> subseq ms (messages (case en of None \<Rightarrow> [] | Some en \<Rightarrow> [en]) (en_flow_table s)))"
proof (cases en)
  case None
  then show ?thesis using assms by (simp add: processed_def)
next
  case (Some f)
  obtain fl t rt where t: "flow_tracker f (en_flow_table s) = (fl, t, rt)" by (metis prod.exhaust)
  then obtain b where "publish broker f fl rt (en_publisher s) = Some (b, en_publisher s')"
    using assms Some by (auto simp: processed_def)
  from publish_sent [OF this] show ?thesis using assms Some t by (auto simp: processed_def)
qed

text \<open>A message for the frame is sent or its loss is logged.\<close>

lemma processed_balance:
  assumes "processed broker en s s'"
  shows "length (sent (pub_calls (en_publisher s'))) + dropped_logs (pub_calls (en_publisher s'))
    = length (sent (pub_calls (en_publisher s))) + dropped_logs (pub_calls (en_publisher s))
      + length (messages (case en of None \<Rightarrow> [] | Some en \<Rightarrow> [en]) (en_flow_table s))"
proof (cases en)
  case None
  then show ?thesis using assms by (simp add: processed_def)
next
  case (Some f)
  obtain fl t rt where t: "flow_tracker f (en_flow_table s) = (fl, t, rt)" by (metis prod.exhaust)
  then obtain b where "publish broker f fl rt (en_publisher s) = Some (b, en_publisher s')"
    using assms Some by (auto simp: processed_def)
  from publish_balance [OF this] show ?thesis using Some t by simp
qed

lemma iteration_did:
  assumes inv: "engine_inv s" and fr: "packet_frames e (en_packet_buf s) = (ts, f) # fs" and slot: "length slot_buf = 2048"
  obtains nxt s' where "pipeline_iteration e slot_buf sw sa sc ips broker s = Returns (nxt, s')"
    "pipeline_did e ips s [] [(ts, f)] s'" "packet_frames e (en_packet_buf s') = fs" "nxt = Break \<longrightarrow> sc"
proof -
  let ?en = "enrich ips ts f (drop (length f) (en_frame_buf s))"
  from pipeline_iteration_frame [OF assms, of sw sa sc ips broker] obtain nxt pb s' where
    it: "pipeline_iteration e slot_buf sw sa sc ips broker s = Returns (nxt, s')" "nxt = Break \<longrightarrow> sc"
    and pb: "packet_frames e pb = fs"
    and pr: "processed broker ?en (s\<lparr>en_frame_buf := f @ drop (length f) (en_frame_buf s), en_packet_buf := pb\<rparr>) s'" by blast
  have "pipeline_did e ips s [] [(ts, f)] s'"
    using processed_did [OF pr] pr pb fr by (simp add: pipeline_did_def processed_def)
  moreover have "packet_frames e (en_packet_buf s') = fs" using pr pb by (simp add: processed_def)
  ultimately show thesis using it by (intro that)
qed

text \<open>The stop flag is never cleared between the two loads of a read, and \<open>slot_buf\<close> has 2048 bytes.\<close>

definition turn_ok :: "turn \<Rightarrow> bool" where
  "turn_ok t \<longleftrightarrow> length (tn_slot_buf t) = 2048 \<and> (tn_stop_wait t \<longrightarrow> tn_stop_after t)"

definition run_post :: "byte_order \<Rightarrow> LocalIpSet \<Rightarrow> turn list \<Rightarrow> engine \<Rightarrow> (bool \<times> engine) outcome \<Rightarrow> bool" where
  "run_post e ips turns s r \<longleftrightarrow> (case r of Blocks \<Rightarrow> (\<exists>t \<in> set turns. \<not> tn_stop_wait t) | Undefined \<Rightarrow> False
     | Returns (_, s') \<Rightarrow> \<exists>acc dn. subseq acc (concat (map tn_arrivals turns)) \<and> pipeline_did e ips s acc dn s')"

lemma run_post_step:
  assumes "pipeline_did e ips s acc dn s1" and "subseq acc (tn_arrivals t)" and "run_post e ips turns s1 r"
  shows "run_post e ips (t # turns) s r"
proof (cases r)
  case (Returns x)
  obtain fin s' where x: "x = (fin, s')" by fastforce
  from assms(3) obtain acc' dn' where "subseq acc' (concat (map tn_arrivals turns))" "pipeline_did e ips s1 acc' dn' s'"
    by (auto simp: run_post_def Returns x)
  then have "subseq (acc @ acc') (concat (map tn_arrivals (t # turns)))" "pipeline_did e ips s (acc @ acc') (dn @ dn') s'"
    using did_trans [OF assms(1)] assms(2) by (simp_all add: list_emb_append_mono)
  then show ?thesis by (auto simp: run_post_def Returns x)
qed (use assms(3) in \<open>auto simp: run_post_def\<close>)

lemma run_post_stop: "engine_inv s \<Longrightarrow> run_post e ips turns s (Returns (fin, s))"
  by (auto simp: run_post_def intro!: exI [of _ "[]"] did_refl)

lemma pipeline_loop_post:
  "engine_inv s \<Longrightarrow> \<forall>t \<in> set turns. turn_ok t \<Longrightarrow> run_post e ips turns s (pipeline_loop e ips turns s)"
proof (induction turns arbitrary: s)
  case Nil
  then show ?case by (simp add: run_post_stop)
next
  case (Cons t turns)
  let ?s = "s\<lparr>en_packet_buf := arrive e (tn_arrivals t) (en_packet_buf s)\<rparr>"
  obtain acc where acc: "subseq acc (tn_arrivals t)" "pipeline_did e ips s acc [] ?s" using arrive_did [OF Cons.prems(1)] by blast
  have t: "length (tn_slot_buf t) = 2048" "tn_stop_wait t \<longrightarrow> tn_stop_after t" using Cons.prems(2) by (simp_all add: turn_ok_def)
  have inv: "engine_inv ?s" using acc(2) by (simp add: pipeline_did_def)
  note step = run_post_step [OF _ acc(1)]
  have go: "run_post e ips turns s1 (pipeline_loop e ips turns s1)" if "engine_inv s1" for s1
    using Cons that by simp
  show ?case
  proof (cases "tn_stop_head t")
    case True
    then show ?thesis using step [OF acc(2) run_post_stop [OF inv]] by (simp add: Let_def)
  next
    case False
    show ?thesis
    proof (cases "packet_frames e (en_packet_buf ?s)")
      case Nil
      note it = pipeline_iteration_empty [OF Nil t(2), of "tn_slot_buf t" "tn_stop_check t" ips "tn_broker t"]
      have "\<not> tn_stop_wait t \<Longrightarrow> run_post e ips (t # turns) s Blocks" by (simp add: run_post_def)
      with step [OF acc(2) run_post_stop [OF inv]] step [OF acc(2) go [OF inv]] False it
      show ?thesis by (simp add: Let_def)
    next
      case (Cons x fs)
      then have fr: "packet_frames e (en_packet_buf ?s) = (fst x, snd x) # fs" by simp
      obtain nxt s' where s': "pipeline_iteration e (tn_slot_buf t) (tn_stop_wait t) (tn_stop_after t) (tn_stop_check t) ips (tn_broker t) ?s
          = Returns (nxt, s')" "pipeline_did e ips ?s [] [(fst x, snd x)] s'"
        by (rule iteration_did [OF inv fr t(1)])
      have did: "pipeline_did e ips s acc [(fst x, snd x)] s'" using did_trans [OF acc(2) s'(2)] by simp
      then have inv': "engine_inv s'" by (simp add: pipeline_did_def)
      show ?thesis
        using step [OF did run_post_stop [OF inv']] step [OF did go [OF inv']] False s'(1)
        by (cases nxt) (simp_all add: Let_def)
    qed
  qed
qed

text \<open>Without a stop request, as many turns as there are frames empty the buffer.\<close>

lemma pipeline_loop_drains:
  "engine_inv s \<Longrightarrow> \<forall>t \<in> set turns. turn_ok t \<and> \<not> tn_stop_head t \<and> \<not> tn_stop_check t \<and> tn_arrivals t = [] \<Longrightarrow>
     length turns \<le> length (packet_frames e (en_packet_buf s)) \<Longrightarrow>
     \<exists>s'. pipeline_loop e ips turns s = Returns (False, s')
       \<and> pipeline_did e ips s [] (take (length turns) (packet_frames e (en_packet_buf s))) s'"
proof (induction turns arbitrary: s)
  case Nil
  then show ?case by (simp add: did_refl)
next
  case (Cons t turns)
  obtain ts f fs where fr: "packet_frames e (en_packet_buf s) = (ts, f) # fs"
    using Cons.prems(3) by (cases "packet_frames e (en_packet_buf s)") auto
  have t: "length (tn_slot_buf t) = 2048" "\<not> tn_stop_head t" "\<not> tn_stop_check t" "tn_arrivals t = []"
    using Cons.prems(2) by (simp_all add: turn_ok_def)
  obtain nxt s1 where s1: "pipeline_iteration e (tn_slot_buf t) (tn_stop_wait t) (tn_stop_after t) (tn_stop_check t) ips (tn_broker t) s
      = Returns (nxt, s1)" "pipeline_did e ips s [] [(ts, f)] s1" "packet_frames e (en_packet_buf s1) = fs" "nxt = Break \<longrightarrow> tn_stop_check t"
    by (rule iteration_did [OF Cons.prems(1) fr t(1)])
  have "engine_inv s1" using s1(2) by (simp add: pipeline_did_def)
  from Cons.IH [OF this] Cons.prems(2,3) fr s1(3) obtain s' where
    s': "pipeline_loop e ips turns s1 = Returns (False, s')" "pipeline_did e ips s1 [] (take (length turns) fs) s'" by auto
  have "nxt = Continue" using s1(4) t(3) by (cases nxt) auto
  then show ?case using s' s1(1) t did_trans [OF s1(2) s'(2)] fr by (simp add: Let_def)
qed


subsection \<open>The start\<close>

lemma main_setup_started:
  assumes "main_setup env broker alloc_ok s0 = (Started s, s1)"
  shows "engine_inv s" and "packet_frames e (en_packet_buf s) = []" and "en_frame_buf s = replicate 2040 0"
    and "en_flow_table s = Map.empty" and "sent (pub_calls (en_publisher s)) = []" and "isConnected (en_publisher s)"
    and "dropped_logs (pub_calls (en_publisher s)) = 0"
proof -
  obtain cfg cap where "new_PacketBuffer alloc_ok cap = Inr (en_packet_buf s)" "isConnected (en_publisher s)"
    "en_publisher s = new_RabbitMqPublisher broker cfg" "en_frame_buf s = replicate 2040 0" "en_flow_table s = Map.empty"
    using assms by (auto simp: main_setup_def Let_def split: prod.splits if_splits option.splits sum.splits)
  then show "engine_inv s" "packet_frames e (en_packet_buf s) = []" "en_frame_buf s = replicate 2040 0"
    "en_flow_table s = Map.empty" "sent (pub_calls (en_publisher s)) = []" "isConnected (en_publisher s)"
    "dropped_logs (pub_calls (en_publisher s)) = 0"
    using new_PacketBuffer_ok [of alloc_ok cap "en_packet_buf s" e] new_publisher_inv [of broker cfg]
    by (simp_all add: engine_inv_def new_publisher_sent)
qed

lemma main_shutdown_fds:
  "0 \<le> fd \<Longrightarrow> open_fds env (st_calls (snd (main_shutdown env fd s))) = remove1 fd (open_fds env (st_calls s))"
  by (simp add: main_shutdown_def closeRawSocket_fds)

lemma main_messages_fds [simp]:
  "open_fds env (st_calls (main_spawn fd s)) = open_fds env (st_calls s)"
  "open_fds env (st_calls (main_running s)) = open_fds env (st_calls s)"
  by (simp_all add: main_spawn_def main_running_def)

lemma main_setup_fds:
  "case main_setup env broker alloc_ok s0 of
     (Exit n, s) \<Rightarrow> n = 1 \<and> open_fds env (st_calls s) = open_fds env (st_calls s0)
   | (Started en, s) \<Rightarrow> 0 \<le> en_fd en \<and> open_fds env (st_calls s) = en_fd en # open_fds env (st_calls s0)
   | (_, s) \<Rightarrow> \<exists>fd \<ge> 0. open_fds env (st_calls s) = fd # open_fds env (st_calls s0)"
proof -
  let ?s1 = "os_emit (Os_Log INFO ''Engine starting'') s0"
  obtain fd s2 where o: "openRawSocket env ?s1 = (fd, s2)" by fastforce
  have fds: "open_fds env (st_calls s2) = (if fd < 0 then open_fds env (st_calls s0) else fd # open_fds env (st_calls s0))"
    using openRawSocket_fds [OF o] by simp
  show ?thesis
  proof (cases "fd < 0")
    case True
    then show ?thesis using o fds by (simp add: main_setup_def Let_def)
  next
    case False
    then show ?thesis using fds unfolding main_setup_def Let_def o
      by (auto simp: closeRawSocket_fds split: option.split sum.split)
  qed
qed


text \<open>An engine that starts: no environment variables, an operating system whose calls all succeed, the
  interface \<open>eth0\<close> with address 10.0.0.1, and a broker that confirms every message.\<close>

definition plain_os :: os_env where
  "plain_os = \<lparr>os_getenv = (\<lambda>_. None), os_result = (\<lambda>_. 3), os_ifindex = (\<lambda>_. 2), os_ifflags = (\<lambda>_. 0), os_strerror = (\<lambda>_. []),
     os_caps = (\<lambda>_. False), os_cap_text = (\<lambda>_. None), os_interfaces = (\<lambda>_. [''eth0'']), os_ifaddr = (\<lambda>_. (True, 0x0A000001))\<rparr>"

definition boot_state :: socket_state where
  "boot_state = \<lparr>st_orig_flags = 0, st_iface = [], st_calls = []\<rparr>"

lemma plain_os_socket: "fst (openRawSocket plain_os s) = 3"
  by (simp add: openRawSocket_def configure_socket_def plain_os_def Let_def)

lemma agreeable_connects: "isConnected (new_RabbitMqPublisher agreeable cfg)"
  by (simp add: isConnected_def new_RabbitMqPublisher_def publisher_connect_def connect_loop.simps connect_attempt_def
      agreeable_def MAX_ATTEMPTS_def Let_def)

lemma plain_engine_starts:
  obtains s s1 where "main_setup plain_os agreeable (\<lambda>_ _. True) boot_state = (Started s, s1)"
proof -
  obtain s2 where o: "openRawSocket plain_os (os_emit (Os_Log INFO ''Engine starting'') boot_state) = (3, s2)"
    using plain_os_socket by (metis prod.collapse)
  have g: "os_getenv plain_os = (\<lambda>_. None)" by (simp add: plain_os_def)
  obtain pb where pb: "new_PacketBuffer (\<lambda>_ _. True) 1024 = Inr pb"
    by (auto simp: new_PacketBuffer_def new_RingBuffer_def Let_def)
  show thesis using that by (simp add: main_setup_def Let_def o g pb publisherConfigFromEnv_def agreeable_connects)
qed

lemma plain_local_ips: "\<exists>os'. getLocalIps plain_os (Suc (Suc 0)) os = Some ({0x0A000001}, os')"
  by (simp add: getLocalIps_def plain_os_def Let_def IFREQ_SIZE_def)

definition quiet_turn :: "(u64 \<times> u8 list) list \<Rightarrow> turn" where
  "quiet_turn arrivals = \<lparr>tn_stop_head = False, tn_stop_wait = False, tn_stop_after = False, tn_stop_check = False,
     tn_slot_buf = replicate 2048 0, tn_broker = agreeable, tn_arrivals = arrivals\<rparr>"

lemma quiet_turn_ok: "turn_ok (quiet_turn arrivals)"
  by (simp add: turn_ok_def quiet_turn_def)


subsection \<open>Properties\<close>

text \<open>C5: The pipeline thread, from the start of the engine on and for any number of turns, any traffic
  and any broker: it never accesses memory outside its buffers and waits only while the stop flag
  is clear. The frames it has taken out of the packet buffer are exactly the ones that were
  accepted and are not there any more, in order; the record of every flow is the summary of the
  frames of that flow among them; and what was handed to the broker is a sequence of messages
  for these frames, in order and at most one for each, where each message carries the state of
  its flow at that frame.\<close>

theorem pipeline_thread_correct:
  assumes "main_setup env broker alloc_ok os0 = (Started s, os1)" and "\<forall>t \<in> set turns. turn_ok t"
    and "getLocalIps env fuel (os_emit (Os_Log INFO ''Thread 2: pipeline loop started'') os2) = Some (ips, os3)"
  shows "case pipeline_thread env fuel e turns s os2 of
      Some (Returns (fin, s'), _) \<Rightarrow> \<exists>acc dn. let ens = enrich_all ips (replicate 2040 0) dn in
        subseq acc (concat (map tn_arrivals turns)) \<and> acc = dn @ packet_frames e (en_packet_buf s')
        \<and> (\<forall>k. FlowTable_get (en_flow_table s') k =
             (let own = filter (\<lambda>f. ef_flow_key f = k) ens in if own = [] then new_FlowRecord else flow_summary own))
        \<and> subseq (sent (pub_calls (en_publisher s'))) (messages ens Map.empty)
    | Some (Blocks, _) \<Rightarrow> \<exists>t \<in> set turns. \<not> tn_stop_wait t
    | Some (Undefined, _) \<Rightarrow> False
    | None \<Rightarrow> False"
proof -
  note st = main_setup_started [OF assms(1)]
  have post: "run_post e ips turns s (pipeline_loop e ips turns s)" by (rule pipeline_loop_post [OF st(1) assms(2)])
  show ?thesis
  proof (cases "pipeline_loop e ips turns s")
    case (Returns r)
    obtain fin s' where r: "r = (fin, s')" by fastforce
    from post obtain acc dn where "subseq acc (concat (map tn_arrivals turns))" "pipeline_did e ips s acc dn s'"
      by (auto simp: run_post_def Returns r)
    then show ?thesis using Returns r assms(3) st enriched_summaries [of ips "replicate 2040 0" dn]
      by (cases fin) (auto simp: pipeline_thread_def pipeline_did_def Let_def)
  qed (use post assms(3) in \<open>auto simp: pipeline_thread_def run_post_def\<close>)
qed

theorem pipeline_thread_correct_witness:
  "\<exists>s s1 fin s' os'. main_setup plain_os agreeable (\<lambda>_ _. True) boot_state = (Started s, s1)
    \<and> pipeline_thread plain_os (Suc (Suc 0)) Little_Endian [quiet_turn [(5, replicate 60 0)]\<lparr>tn_stop_head := True\<rparr>] s s1
        = Some (Returns (fin, s'), os')
    \<and> (\<exists>acc dn. subseq acc [(5, replicate 60 0)] \<and> acc = dn @ packet_frames Little_Endian (en_packet_buf s'))"
proof -
  let ?ts = "[quiet_turn [(5, replicate 60 0)]\<lparr>tn_stop_head := True\<rparr>]"
  obtain s s1 where s: "main_setup plain_os agreeable (\<lambda>_ _. True) boot_state = (Started s, s1)" by (rule plain_engine_starts)
  obtain os3 where os3: "getLocalIps plain_os (Suc (Suc 0)) (os_emit (Os_Log INFO ''Thread 2: pipeline loop started'') s1)
      = Some ({0x0A000001}, os3)" using plain_local_ips by blast
  have ok: "\<forall>t \<in> set ?ts. turn_ok t" by (simp add: turn_ok_def quiet_turn_def)
  have run: "\<exists>s' os'. pipeline_thread plain_os (Suc (Suc 0)) Little_Endian ?ts s s1 = Some (Returns (True, s'), os')"
    by (simp add: pipeline_thread_def os3 Let_def)
  have arr: "concat (map tn_arrivals ?ts) = [(5, replicate 60 0)]" by (simp add: quiet_turn_def)
  show ?thesis using pipeline_thread_correct [OF s ok os3, of Little_Endian] run s unfolding arr Let_def by fastforce
qed

text \<open>C17: The pipeline makes progress: without a stop request, every turn finishes the oldest frame in
  the packet buffer (whatever the broker answers), so that as many turns as there are frames
  empty the buffer, and all of them are tracked.\<close>

theorem pipeline_makes_progress:
  assumes "engine_inv s" and "\<forall>t \<in> set turns. turn_ok t \<and> \<not> tn_stop_head t \<and> \<not> tn_stop_check t \<and> tn_arrivals t = []"
    and "length turns \<le> length (packet_frames e (en_packet_buf s))"
  shows "\<exists>s'. pipeline_loop e ips turns s = Returns (False, s') \<and> engine_inv s'
    \<and> packet_frames e (en_packet_buf s') = drop (length turns) (packet_frames e (en_packet_buf s))
    \<and> en_flow_table s' = fold table_step
        (enrich_all ips (en_frame_buf s) (take (length turns) (packet_frames e (en_packet_buf s)))) (en_flow_table s)"
proof -
  obtain s' where s': "pipeline_loop e ips turns s = Returns (False, s')"
    "pipeline_did e ips s [] (take (length turns) (packet_frames e (en_packet_buf s))) s'"
    using pipeline_loop_drains [OF assms] by blast
  then have "packet_frames e (en_packet_buf s') = drop (length turns) (packet_frames e (en_packet_buf s))"
    by (simp add: pipeline_did_def) (metis append_take_drop_id same_append_eq)
  with s' show ?thesis by (auto simp: pipeline_did_def)
qed

theorem pipeline_makes_progress_witness:
  "\<exists>s s'. packet_frames Little_Endian (en_packet_buf s) = [(5, replicate 60 0)]
    \<and> pipeline_loop Little_Endian {} [quiet_turn []] s = Returns (False, s') \<and> packet_frames Little_Endian (en_packet_buf s') = []"
proof -
  obtain s s1 where s: "main_setup plain_os agreeable (\<lambda>_ _. True) boot_state = (Started s, s1)" by (rule plain_engine_starts)
  note st = main_setup_started [OF s]
  have inv: "packet_inv (en_packet_buf s)" "0 < unat (rb_capacity (en_packet_buf s))"
    using st(1) by (simp_all add: engine_inv_def packet_inv_def ring_inv_def)
  obtain q where q: "packet_inv q" "packet_frames Little_Endian q = [(5, replicate 60 0)]"
    using pbq.put_room [OF inv(1), of "(5, replicate 60 0)" Little_Endian] st(2) inv(2) by (auto simp: capture_sized_def)
  let ?s = "s\<lparr>en_packet_buf := q\<rparr>"
  have "engine_inv ?s" using st(1) q(1) by (simp add: engine_inv_def)
  moreover have "\<forall>t \<in> set [quiet_turn []]. turn_ok t \<and> \<not> tn_stop_head t \<and> \<not> tn_stop_check t \<and> tn_arrivals t = []"
    using quiet_turn_ok by (simp add: quiet_turn_def)
  moreover have "length [quiet_turn []] \<le> length (packet_frames Little_Endian (en_packet_buf ?s))" by (simp add: q(2))
  ultimately show ?thesis using pipeline_makes_progress [of ?s "[quiet_turn []]" Little_Endian "{}"] q(2)
    by - (rule exI [of _ ?s], auto simp del: pipeline_loop.simps)
qed

text \<open>C32: Descriptors over the life of the engine: when \<open>main\<close> returns 1 during the start, and when it has
  started and shuts down, the packet socket is closed and nothing else is; when an exception
  leaves it (an invalid \<open>RING_BUFFER_CAPACITY\<close>), it has not closed the packet socket.\<close>

theorem main_closes_socket:
  "case main_setup env broker alloc_ok s0 of
     (Exit n, s) \<Rightarrow> n = 1 \<and> open_fds env (st_calls s) = open_fds env (st_calls s0)
   | (Started en, s) \<Rightarrow> engine_inv en \<and> isConnected (en_publisher en)
       \<and> open_fds env (st_calls s) = en_fd en # open_fds env (st_calls s0)
       \<and> open_fds env (st_calls (snd (main_shutdown env (en_fd en) (main_running (main_spawn (en_fd en) s))))) = open_fds env (st_calls s0)
   | (_, s) \<Rightarrow> \<exists>fd \<ge> 0. open_fds env (st_calls s) = fd # open_fds env (st_calls s0)"
  using main_setup_fds [where env = env and broker = broker and alloc_ok = alloc_ok and ?s0.0 = s0]
    main_setup_started(1,6) [of env broker alloc_ok s0]
  by (auto simp: main_shutdown_fds split: prod.splits startup.splits)

end
