(* ===== verification/Threaded_Engine.thy ===== *)
theory Threaded_Engine
  imports Engine
begin

text \<open>
  The running engine: the capture thread, the pipeline thread and the signal handler of
  \<open>src/main.cpp\<close> interleaved, now with the data. The control points and the steps are those of
  \<open>Engine_Threads\<close>; what a thread does inside the critical section is the operation of the code
  itself (\<open>PacketBuffer::write\<close> and the read in \<open>filter_stage\<close>, after their wait has returned), and what
  the pipeline does outside of it is \<open>process_frame\<close>. Received frames, the clock, the uninitialised
  \<open>slot_buf\<close> and the broker are chosen freely at each step. Every run is shown to be a run of the
  protocol in \<open>Engine_Threads\<close>. The lists \<open>td_received\<close>, \<open>td_stored\<close> and \<open>td_taken\<close> only record what happened.
\<close>

record threaded =
  td_engine :: engine
  td_stop :: bool
  td_owner :: "thread option"
  td_prod :: producer
  td_cons :: consumer
  td_handler :: handler
  td_signals :: nat
  td_frame_buf :: "u8 list"                   \<comment> \<open>\<open>frame_buf\<close> of \<open>captureLoop\<close>\<close>
  td_bytes :: nat
  td_clock :: int                             \<comment> \<open>the clock read in \<open>PacketBuffer::write\<close>\<close>
  td_filtered :: "FilteredFrame option"       \<comment> \<open>\<open>filtered\<close> of the pipeline loop\<close>
  td_received :: "(u64 \<times> u8 list) list"
  td_stored :: "(u64 \<times> u8 list) list"
  td_taken :: "(u64 \<times> u8 list) list"

abbreviation td_buf :: "threaded \<Rightarrow> PacketBuffer" where
  "td_buf c \<equiv> en_packet_buf (td_engine c)"

inductive tstep :: "byte_order \<Rightarrow> LocalIpSet \<Rightarrow> threaded \<Rightarrow> threaded \<Rightarrow> bool" for e ips where
  t_prod_stop: "td_prod c = P_Loop \<Longrightarrow> td_stop c \<Longrightarrow> tstep e ips c (c\<lparr>td_prod := P_Done\<rparr>)"
| t_prod_error: "td_prod c = P_Loop \<Longrightarrow> tstep e ips c (c\<lparr>td_prod := P_Done\<rparr>)"
| t_prod_frame: "td_prod c = P_Loop \<Longrightarrow> length fb = 2040 \<Longrightarrow> 1 \<le> n \<Longrightarrow> n \<le> 2040 \<Longrightarrow>
    tstep e ips c (c\<lparr>td_prod := P_Lock, td_frame_buf := fb, td_bytes := n, td_clock := clock,
      td_received := td_received c @ [(nowMillis clock, take n fb)]\<rparr>)"
| t_prod_lock: "td_prod c = P_Lock \<Longrightarrow> td_owner c = None \<Longrightarrow> tstep e ips c (c\<lparr>td_prod := P_Test, td_owner := Some Prod\<rparr>)"
| t_prod_pass: "td_prod c = P_Test \<Longrightarrow> \<not> isFull (td_buf c) \<or> td_stop c \<Longrightarrow> tstep e ips c (c\<lparr>td_prod := P_Act\<rparr>)"
| t_prod_wait: "td_prod c = P_Test \<Longrightarrow> isFull (td_buf c) \<Longrightarrow> \<not> td_stop c \<Longrightarrow> tstep e ips c (c\<lparr>td_prod := P_Block\<rparr>)"
| t_prod_block: "td_prod c = P_Block \<Longrightarrow> tstep e ips c (c\<lparr>td_prod := P_Asleep, td_owner := None\<rparr>)"
| t_prod_wake: "td_prod c = P_Woken \<Longrightarrow> td_owner c = None \<Longrightarrow> tstep e ips c (c\<lparr>td_prod := P_Test, td_owner := Some Prod\<rparr>)"
| t_prod_store: "td_prod c = P_Act \<Longrightarrow> length slot_buf = 2048 \<Longrightarrow>
    packet_write e (td_clock c) slot_buf True (td_stop c) (td_frame_buf c) (of_nat (td_bytes c)) (td_buf c) = Returns (True, pb) \<Longrightarrow>
    tstep e ips c (c\<lparr>td_prod := P_Loop, td_owner := None, td_engine := (td_engine c)\<lparr>en_packet_buf := pb\<rparr>,
      td_cons := wake_consumer (td_cons c),
      td_stored := td_stored c @ [(nowMillis (td_clock c), take (td_bytes c) (td_frame_buf c))]\<rparr>)"
| t_prod_give_up: "td_prod c = P_Act \<Longrightarrow> length slot_buf = 2048 \<Longrightarrow>
    packet_write e (td_clock c) slot_buf True (td_stop c) (td_frame_buf c) (of_nat (td_bytes c)) (td_buf c) = Returns (False, pb) \<Longrightarrow>
    td_stop c \<Longrightarrow> tstep e ips c (c\<lparr>td_prod := P_Done, td_owner := None, td_engine := (td_engine c)\<lparr>en_packet_buf := pb\<rparr>\<rparr>)"
| t_cons_stop: "td_cons c = C_Loop \<Longrightarrow> td_stop c \<Longrightarrow> tstep e ips c (c\<lparr>td_cons := C_Done\<rparr>)"
| t_cons_read: "td_cons c = C_Loop \<Longrightarrow> \<not> td_stop c \<Longrightarrow> tstep e ips c (c\<lparr>td_cons := C_Lock\<rparr>)"
| t_cons_lock: "td_cons c = C_Lock \<Longrightarrow> td_owner c = None \<Longrightarrow> tstep e ips c (c\<lparr>td_cons := C_Test, td_owner := Some Cons_Thread\<rparr>)"
| t_cons_pass: "td_cons c = C_Test \<Longrightarrow> \<not> isEmpty (td_buf c) \<or> td_stop c \<Longrightarrow> tstep e ips c (c\<lparr>td_cons := C_Act\<rparr>)"
| t_cons_wait: "td_cons c = C_Test \<Longrightarrow> isEmpty (td_buf c) \<Longrightarrow> \<not> td_stop c \<Longrightarrow> tstep e ips c (c\<lparr>td_cons := C_Block\<rparr>)"
| t_cons_block: "td_cons c = C_Block \<Longrightarrow> tstep e ips c (c\<lparr>td_cons := C_Asleep, td_owner := None\<rparr>)"
| t_cons_wake: "td_cons c = C_Woken \<Longrightarrow> td_owner c = None \<Longrightarrow> tstep e ips c (c\<lparr>td_cons := C_Test, td_owner := Some Cons_Thread\<rparr>)"
| t_cons_take: "td_cons c = C_Act \<Longrightarrow> \<not> isEmpty (td_buf c) \<Longrightarrow> length slot_buf = 2048 \<Longrightarrow>
    filter_stage e slot_buf True (td_stop c) (td_buf c) (en_frame_buf (td_engine c)) 2040 = Returns (filtered, fb, pb) \<Longrightarrow>
    tstep e ips c (c\<lparr>td_cons := C_Work, td_owner := None, td_prod := wake_producer (td_prod c), td_filtered := filtered,
      td_engine := (td_engine c)\<lparr>en_frame_buf := fb, en_packet_buf := pb\<rparr>,
      td_taken := td_taken c @ take 1 (packet_frames e (td_buf c))\<rparr>)"
| t_cons_give_up: "td_cons c = C_Act \<Longrightarrow> isEmpty (td_buf c) \<Longrightarrow> td_stop c \<Longrightarrow> length slot_buf = 2048 \<Longrightarrow>
    filter_stage e slot_buf True (td_stop c) (td_buf c) (en_frame_buf (td_engine c)) 2040 = Returns (filtered, fb, pb) \<Longrightarrow>
    tstep e ips c (c\<lparr>td_cons := C_Check, td_owner := None, td_filtered := filtered,
      td_engine := (td_engine c)\<lparr>en_frame_buf := fb, en_packet_buf := pb\<rparr>\<rparr>)"
| t_cons_work: "td_cons c = C_Work \<Longrightarrow> td_filtered c = Some ff \<Longrightarrow> process_frame ips broker ff (td_engine c) = Returns en \<Longrightarrow>
    tstep e ips c (c\<lparr>td_cons := C_Loop, td_engine := (td_engine c)\<lparr>en_flow_table := en_flow_table en, en_publisher := en_publisher en\<rparr>\<rparr>)"
| t_cons_drop: "td_cons c = C_Work \<Longrightarrow> td_filtered c = None \<Longrightarrow> tstep e ips c (c\<lparr>td_cons := C_Check\<rparr>)"
| t_cons_break: "td_cons c = C_Check \<Longrightarrow> td_stop c \<Longrightarrow> tstep e ips c (c\<lparr>td_cons := C_Done\<rparr>)"
| t_cons_continue: "td_cons c = C_Check \<Longrightarrow> \<not> td_stop c \<Longrightarrow> tstep e ips c (c\<lparr>td_cons := C_Loop\<rparr>)"
| t_sig_store: "td_handler c = H_Idle \<Longrightarrow> td_signals c = Suc n \<Longrightarrow>
    tstep e ips c (c\<lparr>td_handler := H_Notify_Data, td_signals := n, td_stop := True\<rparr>)"
| t_sig_data: "td_handler c = H_Notify_Data \<Longrightarrow> tstep e ips c (c\<lparr>td_handler := H_Notify_Space, td_cons := wake_consumer (td_cons c)\<rparr>)"
| t_sig_space: "td_handler c = H_Notify_Space \<Longrightarrow> tstep e ips c (c\<lparr>td_handler := H_Idle, td_prod := wake_producer (td_prod c)\<rparr>)"

text \<open>After \<open>main_setup\<close>: both threads at the head of their loops, \<open>signals\<close> signals to come.\<close>

definition threads_start :: "engine \<Rightarrow> nat \<Rightarrow> threaded" where
  "threads_start en signals = \<lparr>td_engine = en, td_stop = False, td_owner = None, td_prod = P_Loop, td_cons = C_Loop,
     td_handler = H_Idle, td_signals = signals, td_frame_buf = replicate 2040 0, td_bytes = 1, td_clock = 0,
     td_filtered = None, td_received = [], td_stored = [], td_taken = []\<rparr>"

text \<open>The protocol state of an engine: its frames only counted.\<close>

definition protocol :: "threaded \<Rightarrow> system" where
  "protocol c = \<lparr>sy_capacity = unat (packet_capacity (td_buf c)), sy_count = unat (packet_count (td_buf c)), sy_stop = td_stop c,
     sy_owner = td_owner c, sy_prod = td_prod c, sy_cons = td_cons c, sy_handler = td_handler c, sy_signals = td_signals c\<rparr>"


subsection \<open>The invariant\<close>

definition in_write :: "producer \<Rightarrow> bool" where
  "in_write p \<longleftrightarrow> p \<notin> {P_Loop, P_Done}"

text \<open>The capture side: at most the frame being written (or given up at the end) is not stored.\<close>

definition capture_ok :: "threaded \<Rightarrow> bool" where
  "capture_ok c \<longleftrightarrow> length (td_frame_buf c) = 2040 \<and> 1 \<le> td_bytes c \<and> td_bytes c \<le> 2040
     \<and> (let x = (nowMillis (td_clock c), take (td_bytes c) (td_frame_buf c)) in
        (in_write (td_prod c) \<longrightarrow> td_received c = td_stored c @ [x])
        \<and> (td_prod c = P_Loop \<longrightarrow> td_received c = td_stored c)
        \<and> (td_prod c = P_Done \<longrightarrow> td_received c = td_stored c \<or> td_stop c \<and> td_received c = td_stored c @ [x]))"

text \<open>The pipeline side: all taken frames but the one in work are tracked and published; a message is
  missing only where the publisher has logged that it dropped the frame.\<close>

definition work_ok :: "threaded \<Rightarrow> (u64 \<times> u8 list) list \<Rightarrow> bool" where
  "work_ok c work \<longleftrightarrow> (if td_cons c = C_Work
     then (\<exists>ts f. work = [(ts, f)] \<and> td_filtered c = filter_frame ts f \<and> length f \<le> 2040) else work = [])"

definition pipeline_ok :: "LocalIpSet \<Rightarrow> threaded \<Rightarrow> bool" where
  "pipeline_ok ips c \<longleftrightarrow> (\<exists>dn work. td_taken c = dn @ work \<and> work_ok c work
     \<and> en_frame_buf (td_engine c) = buf_after (replicate 2040 0) (td_taken c)
     \<and> en_flow_table (td_engine c) = fold table_step (enrich_all ips (replicate 2040 0) dn) Map.empty
     \<and> subseq (sent (pub_calls (en_publisher (td_engine c)))) (messages (enrich_all ips (replicate 2040 0) dn) Map.empty)
     \<and> length (sent (pub_calls (en_publisher (td_engine c)))) + dropped_logs (pub_calls (en_publisher (td_engine c)))
       = length (messages (enrich_all ips (replicate 2040 0) dn) Map.empty))"

definition threaded_inv :: "byte_order \<Rightarrow> LocalIpSet \<Rightarrow> threaded \<Rightarrow> bool" where
  "threaded_inv e ips c \<longleftrightarrow> engine_inv (td_engine c) \<and> sys_inv (protocol c) \<and> td_stored c = td_taken c @ packet_frames e (td_buf c)
     \<and> capture_ok c \<and> pipeline_ok ips c"

lemma protocol_simps [simp]:
  "sy_capacity (protocol c) = unat (rb_capacity (td_buf c))" "sy_count (protocol c) = unat (rb_count (td_buf c))"
  "sy_stop (protocol c) = td_stop c" "sy_owner (protocol c) = td_owner c" "sy_prod (protocol c) = td_prod c"
  "sy_cons (protocol c) = td_cons c" "sy_handler (protocol c) = td_handler c" "sy_signals (protocol c) = td_signals c"
  by (simp_all add: protocol_def packet_capacity_def packet_count_def count_def capacity_def)

lemma protocol_upd:
  "protocol (c\<lparr>td_prod := p\<rparr>) = (protocol c)\<lparr>sy_prod := p\<rparr>" "protocol (c\<lparr>td_cons := q\<rparr>) = (protocol c)\<lparr>sy_cons := q\<rparr>"
  "protocol (c\<lparr>td_owner := w\<rparr>) = (protocol c)\<lparr>sy_owner := w\<rparr>" "protocol (c\<lparr>td_stop := b\<rparr>) = (protocol c)\<lparr>sy_stop := b\<rparr>"
  "protocol (c\<lparr>td_handler := h\<rparr>) = (protocol c)\<lparr>sy_handler := h\<rparr>" "protocol (c\<lparr>td_signals := n\<rparr>) = (protocol c)\<lparr>sy_signals := n\<rparr>"
  "protocol (c\<lparr>td_frame_buf := fb\<rparr>) = protocol c" "protocol (c\<lparr>td_bytes := n\<rparr>) = protocol c" "protocol (c\<lparr>td_clock := t\<rparr>) = protocol c"
  "protocol (c\<lparr>td_received := xs\<rparr>) = protocol c" "protocol (c\<lparr>td_filtered := f\<rparr>) = protocol c"
  "protocol (c\<lparr>td_stored := xs\<rparr>) = protocol c" "protocol (c\<lparr>td_taken := xs\<rparr>) = protocol c"
  "en_packet_buf en = td_buf c \<Longrightarrow> protocol (c\<lparr>td_engine := en\<rparr>) = protocol c"
  by (simp_all add: protocol_def)

lemma isFull_protocol: "isFull (td_buf c) \<longleftrightarrow> sy_count (protocol c) = sy_capacity (protocol c)"
  by (simp add: isFull_def word_unat_eq_iff)

lemma isEmpty_protocol: "isEmpty (td_buf c) \<longleftrightarrow> sy_count (protocol c) = 0"
  by (simp add: isEmpty_def unat_eq_zero)

text \<open>The write of the capture thread after its wait.\<close>

lemma write_after_wait:
  assumes inv: "threaded_inv e ips c" and act: "td_prod c = P_Act" and slot: "length slot_buf = 2048"
  obtains (stored) pb where "\<not> isFull (td_buf c)" "packet_inv pb" "rb_capacity pb = rb_capacity (td_buf c)"
      "packet_write e (td_clock c) slot_buf True (td_stop c) (td_frame_buf c) (of_nat (td_bytes c)) (td_buf c) = Returns (True, pb)"
      "packet_frames e pb = packet_frames e (td_buf c) @ [(nowMillis (td_clock c), take (td_bytes c) (td_frame_buf c))]"
  | (given_up) "isFull (td_buf c)" "td_stop c"
      "packet_write e (td_clock c) slot_buf True (td_stop c) (td_frame_buf c) (of_nat (td_bytes c)) (td_buf c) = Returns (False, td_buf c)"
proof -
  note i = inv [unfolded threaded_inv_def capture_ok_def Let_def]
  have n: "unat (of_nat (td_bytes c) :: size_t) = td_bytes c" using i by (simp add: unat_of_nat take_bit_nat_eq_self)
  have sz: "1 \<le> unat (of_nat (td_bytes c) :: size_t)" "unat (of_nat (td_bytes c) :: size_t) \<le> 2040"
    "unat (of_nat (td_bytes c) :: size_t) \<le> length (td_frame_buf c)" using i by (simp_all add: n)
  have pb: "packet_inv (td_buf c)" using i by (simp add: engine_inv_def)
  have room: "isFull (td_buf c) \<longrightarrow> td_stop c" using i act by (auto simp: sys_inv_def isFull_protocol)
  show thesis
  proof (cases "isFull (td_buf c)")
    case True
    with packet_write_outcome [OF pb slot sz, of True "td_stop c" e "td_clock c"] room given_up show thesis by auto
  next
    case False
    with packet_write_frames [OF pb False slot sz, of e "td_clock c" True "td_stop c"] n stored show thesis by auto
  qed
qed

text \<open>The read of the pipeline thread after its wait.\<close>

lemma read_after_wait:
  assumes inv: "threaded_inv e ips c" and slot: "length slot_buf = 2048" and room: "\<not> isEmpty (td_buf c)"
  obtains ts f fs pb where "packet_frames e (td_buf c) = (ts, f) # fs" "packet_inv pb" "packet_frames e pb = fs"
    "rb_capacity pb = rb_capacity (td_buf c)" "length f \<le> 2040"
    "filter_stage e slot_buf True (td_stop c) (td_buf c) (en_frame_buf (td_engine c)) 2040
      = Returns (filter_frame ts f, f @ drop (length f) (en_frame_buf (td_engine c)), pb)"
proof -
  have i: "packet_inv (td_buf c)" "length (en_frame_buf (td_engine c)) = 2040" using inv by (simp_all add: threaded_inv_def engine_inv_def)
  obtain ts f fs where fr: "packet_frames e (td_buf c) = (ts, f) # fs"
    using room packet_observers(1) [OF i(1), of e] by (cases "packet_frames e (td_buf c)") (auto simp: packet_isEmpty_def)
  from filter_stage_frame [OF i(1) fr slot i(2), of True "td_stop c"] fr show thesis by (auto intro: that)
qed

lemma read_empty:
  assumes "threaded_inv e ips c" and "isEmpty (td_buf c)" and "td_stop c"
  shows "filter_stage e slot_buf True (td_stop c) (td_buf c) (en_frame_buf (td_engine c)) 2040
    = Returns (None, en_frame_buf (td_engine c), td_buf c)"
proof -
  have "packet_inv (td_buf c)" using assms(1) by (simp add: threaded_inv_def engine_inv_def)
  then have "packet_frames e (td_buf c) = []" using packet_observers(1) assms(2) by (simp add: packet_isEmpty_def)
  from filter_stage_empty [OF this, of True "td_stop c"] assms(3) show ?thesis by simp
qed

lemma frames_count: "packet_inv pb \<Longrightarrow> unat (rb_count pb) = length (packet_frames e pb)"
  using packet_observers(2) [of pb e] by (simp add: packet_count_def count_def)

lemma threads_step_sim:
  assumes "tstep e ips c c'" and "threaded_inv e ips c"
  shows "step (protocol c) (protocol c')"
  using assms(1)
proof cases
  case (t_prod_store slot_buf pb)
  have b: "packet_inv (td_buf c)" using assms(2) by (simp add: threaded_inv_def engine_inv_def)
  show ?thesis
  proof (rule write_after_wait [OF assms(2) t_prod_store(2,3)])
    fix pb'
    assume "\<not> isFull (td_buf c)" "packet_inv pb'" "rb_capacity pb' = rb_capacity (td_buf c)"
      "packet_write e (td_clock c) slot_buf True (td_stop c) (td_frame_buf c) (of_nat (td_bytes c)) (td_buf c) = Returns (True, pb')"
      "packet_frames e pb' = packet_frames e (td_buf c) @ [(nowMillis (td_clock c), take (td_bytes c) (td_frame_buf c))]"
    then have "protocol c' = (protocol c)\<lparr>sy_prod := P_Loop, sy_owner := None, sy_count := Suc (sy_count (protocol c)),
        sy_cons := wake_consumer (sy_cons (protocol c))\<rparr>" "sy_count (protocol c) \<noteq> sy_capacity (protocol c)"
      using t_prod_store frames_count [of _ e] b by (simp_all add: protocol_def packet_capacity_def packet_count_def count_def capacity_def isFull_protocol)
    then show ?thesis using prod_store [of "protocol c"] t_prod_store(2) by simp
  qed (use t_prod_store in simp)
next
  case (t_prod_give_up slot_buf pb)
  show ?thesis
  proof (rule write_after_wait [OF assms(2) t_prod_give_up(2,3)])
    assume "isFull (td_buf c)"
      "packet_write e (td_clock c) slot_buf True (td_stop c) (td_frame_buf c) (of_nat (td_bytes c)) (td_buf c) = Returns (False, td_buf c)"
    then have "protocol c' = (protocol c)\<lparr>sy_prod := P_Done, sy_owner := None\<rparr>" "sy_count (protocol c) = sy_capacity (protocol c)"
      using t_prod_give_up by (simp_all add: protocol_def isFull_protocol)
    then show ?thesis using prod_give_up [of "protocol c"] t_prod_give_up by simp
  qed (use t_prod_give_up in simp)
next
  case (t_cons_take slot_buf filtered fb pb)
  have b: "packet_inv (td_buf c)" using assms(2) by (simp add: threaded_inv_def engine_inv_def)
  obtain ts f fs pb' where "packet_frames e (td_buf c) = (ts, f) # fs" "packet_inv pb'" "packet_frames e pb' = fs"
    "rb_capacity pb' = rb_capacity (td_buf c)"
    "filter_stage e slot_buf True (td_stop c) (td_buf c) (en_frame_buf (td_engine c)) 2040
      = Returns (filter_frame ts f, f @ drop (length f) (en_frame_buf (td_engine c)), pb')"
    by (rule read_after_wait [OF assms(2) t_cons_take(4,3)])
  then have "protocol c' = (protocol c)\<lparr>sy_cons := C_Work, sy_owner := None, sy_count := sy_count (protocol c) - 1,
      sy_prod := wake_producer (sy_prod (protocol c))\<rparr>"
    using t_cons_take frames_count [of _ e] b by (simp add: protocol_def packet_capacity_def packet_count_def count_def capacity_def)
  then show ?thesis using cons_take [of "protocol c"] t_cons_take(2,3) by (simp add: isEmpty_protocol)
next
  case (t_cons_give_up slot_buf filtered fb pb)
  then have "protocol c' = (protocol c)\<lparr>sy_cons := C_Check, sy_owner := None\<rparr>"
    using read_empty [OF assms(2)] by (simp add: protocol_def)
  then show ?thesis using cons_give_up [of "protocol c"] t_cons_give_up by (simp add: isEmpty_protocol)
qed (auto simp: protocol_upd isFull_protocol isEmpty_protocol 
    intro: step.intros [of "protocol c"] sig_data [of "protocol c", simplified] sig_space [of "protocol c", simplified])

lemma in_write_wake [simp]: "in_write (wake_producer p) = in_write p" "wake_producer p = P_Loop \<longleftrightarrow> p = P_Loop"
  "wake_producer p = P_Done \<longleftrightarrow> p = P_Done" "wake_consumer q = C_Work \<longleftrightarrow> q = C_Work"
  by (auto simp: in_write_def wake_producer_def wake_consumer_def)

lemma capture_ok_step:
  assumes "tstep e ips c c'" and "threaded_inv e ips c"
  shows "capture_ok c'"
proof -
  have c: "capture_ok c" using assms(2) by (simp add: threaded_inv_def)
  show ?thesis using assms(1) c by cases (auto simp: capture_ok_def Let_def, auto simp: in_write_def)
qed

text \<open>The frame the pipeline works on is at the start of its buffer.\<close>

lemma frame_in_work:
  assumes "threaded_inv e ips c" and "td_cons c = C_Work"
  obtains ts f rest where "td_filtered c = filter_frame ts f" "length f \<le> 2040" "en_frame_buf (td_engine c) = f @ rest"
  using assms by (auto simp: threaded_inv_def pipeline_ok_def work_ok_def buf_after_append)

lemma engine_stored_step:
  assumes "tstep e ips c c'" and "threaded_inv e ips c"
  shows "engine_inv (td_engine c') \<and> td_stored c' = td_taken c' @ packet_frames e (td_buf c')"
proof -
  have i: "engine_inv (td_engine c)" "td_stored c = td_taken c @ packet_frames e (td_buf c)" using assms(2) by (simp_all add: threaded_inv_def)
  from assms(1) show ?thesis
  proof cases
    case (t_prod_store slot_buf pb)
    show ?thesis
      by (rule write_after_wait [OF assms(2) t_prod_store(2,3)]) (use t_prod_store i in \<open>simp_all add: engine_inv_def\<close>)
  next
    case (t_prod_give_up slot_buf pb)
    show ?thesis
      by (rule write_after_wait [OF assms(2) t_prod_give_up(2,3)]) (use t_prod_give_up i in \<open>simp_all add: engine_inv_def\<close>)
  next
    case (t_cons_take slot_buf filtered fb pb)
    show ?thesis
      by (rule read_after_wait [OF assms(2) t_cons_take(4,3)]) (use t_cons_take i in \<open>simp add: engine_inv_def\<close>)
  next
    case (t_cons_give_up slot_buf filtered fb pb)
    then show ?thesis using read_empty [OF assms(2)] i by (simp add: engine_inv_def)
  next
    case (t_cons_work ff broker en)
    obtain ts f rest where "td_filtered c = filter_frame ts f" "length f \<le> 2040" "en_frame_buf (td_engine c) = f @ rest"
      by (rule frame_in_work [OF assms(2) t_cons_work(2)])
    then have "processed broker (enrich ips ts f rest) (td_engine c) en"
      using process_frame_post [OF i(1), of ts f ff rest ips broker] t_cons_work by auto
    then show ?thesis using t_cons_work i by (simp add: processed_def engine_inv_def)
  qed (use i in simp_all)
qed

lemma pipeline_ok_same:
  assumes "pipeline_ok ips c" and "td_taken c' = td_taken c" and "td_cons c' = C_Work \<longleftrightarrow> td_cons c = C_Work" and "td_filtered c' = td_filtered c"
    and "en_frame_buf (td_engine c') = en_frame_buf (td_engine c)" and "en_flow_table (td_engine c') = en_flow_table (td_engine c)"
    and "en_publisher (td_engine c') = en_publisher (td_engine c)"
  shows "pipeline_ok ips c'"
proof -
  have "work_ok c' work = work_ok c work" for work using assms by (simp add: work_ok_def)
  with assms show ?thesis by (simp add: pipeline_ok_def)
qed

lemma pipeline_ok_take:
  assumes "pipeline_ok ips c" and "td_cons c = C_Act" and "length f \<le> 2040" and "td_taken c' = td_taken c @ [(ts, f)]"
    and "td_cons c' = C_Work" and "td_filtered c' = filter_frame ts f"
    and "en_frame_buf (td_engine c') = f @ drop (length f) (en_frame_buf (td_engine c))"
    and "en_flow_table (td_engine c') = en_flow_table (td_engine c)" and "en_publisher (td_engine c') = en_publisher (td_engine c)"
  shows "pipeline_ok ips c'"
proof -
  have "work_ok c' [(ts, f)]" using assms by (simp add: work_ok_def)
  moreover have "work_ok c work \<longleftrightarrow> work = []" for work using assms(2) by (simp add: work_ok_def)
  then have "en_frame_buf (td_engine c) = buf_after (replicate 2040 0) (td_taken c)"
    "en_flow_table (td_engine c) = fold table_step (enrich_all ips (replicate 2040 0) (td_taken c)) Map.empty"
    "subseq (sent (pub_calls (en_publisher (td_engine c)))) (messages (enrich_all ips (replicate 2040 0) (td_taken c)) Map.empty)"
    "length (sent (pub_calls (en_publisher (td_engine c)))) + dropped_logs (pub_calls (en_publisher (td_engine c)))
       = length (messages (enrich_all ips (replicate 2040 0) (td_taken c)) Map.empty)"
    using assms(1) by (auto simp: pipeline_ok_def)
  ultimately show ?thesis using assms(4-9) unfolding pipeline_ok_def
    by (intro exI [of _ "td_taken c"] exI [of _ "[(ts, f)]"]) (simp add: buf_after_append)
qed

text \<open>When the pipeline has finished with the frame in work, dropped or processed.\<close>

lemma pipeline_ok_done:
  assumes c: "pipeline_ok ips c" and "td_cons c = C_Work" and "td_taken c' = td_taken c" and "td_cons c' \<noteq> C_Work"
    and "en_frame_buf (td_engine c') = en_frame_buf (td_engine c)"
    and en: "\<And>ts f rest. td_filtered c = filter_frame ts f \<Longrightarrow> length f \<le> 2040 \<Longrightarrow> en_frame_buf (td_engine c) = f @ rest \<Longrightarrow>
      \<exists>s broker. processed broker (enrich ips ts f rest) (td_engine c) s
        \<and> en_flow_table (td_engine c') = en_flow_table s \<and> en_publisher (td_engine c') = en_publisher s"
  shows "pipeline_ok ips c'"
proof -
  let ?z = "replicate 2040 0"
  obtain dn ts f where taken: "td_taken c = dn @ [(ts, f)]" "td_filtered c = filter_frame ts f" "length f \<le> 2040"
    and buf: "en_frame_buf (td_engine c) = f @ drop (length f) (buf_after ?z dn)"
    and tbl: "en_flow_table (td_engine c) = fold table_step (enrich_all ips ?z dn) Map.empty"
    and msgs: "subseq (sent (pub_calls (en_publisher (td_engine c)))) (messages (enrich_all ips ?z dn) Map.empty)"
      "length (sent (pub_calls (en_publisher (td_engine c)))) + dropped_logs (pub_calls (en_publisher (td_engine c)))
        = length (messages (enrich_all ips ?z dn) Map.empty)"
    using c assms(2) by (auto simp: pipeline_ok_def work_ok_def buf_after_append)
  let ?en = "enrich ips ts f (drop (length f) (buf_after ?z dn))"
  obtain s broker where pr: "processed broker ?en (td_engine c) s"
    and s: "en_flow_table (td_engine c') = en_flow_table s" "en_publisher (td_engine c') = en_publisher s"
    using en [OF taken(2,3) buf] by blast
  from processed_did [OF pr] obtain ms where
    t: "en_flow_table s = fold table_step (enrich_all ips ?z (dn @ [(ts, f)])) Map.empty"
    and ms: "sent (pub_calls (en_publisher s)) = sent (pub_calls (en_publisher (td_engine c))) @ ms"
      "subseq ms (messages (case ?en of None \<Rightarrow> [] | Some en \<Rightarrow> [en]) (en_flow_table (td_engine c)))"
    using tbl by (auto simp: enrich_all_append)
  have "subseq (sent (pub_calls (en_publisher s))) (messages (enrich_all ips ?z (dn @ [(ts, f)])) Map.empty)"
    using ms msgs(1) tbl by (simp add: enrich_all_append messages_append list_emb_append_mono)
  moreover have "length (sent (pub_calls (en_publisher s))) + dropped_logs (pub_calls (en_publisher s))
      = length (messages (enrich_all ips ?z (dn @ [(ts, f)])) Map.empty)"
    using processed_balance [OF pr] msgs(2) tbl by (simp add: enrich_all_append messages_append)
  moreover have "work_ok c' []" using assms(4) by (simp add: work_ok_def)
  ultimately show ?thesis using s t taken(1) assms(3,5) c unfolding pipeline_ok_def
    by (intro exI [of _ "td_taken c"] exI [of _ "[]"]) auto
qed

lemma pipeline_ok_step:
  assumes "tstep e ips c c'" and "threaded_inv e ips c"
  shows "pipeline_ok ips c'"
proof -
  have c: "pipeline_ok ips c" "engine_inv (td_engine c)" using assms(2) by (simp_all add: threaded_inv_def)
  note same = pipeline_ok_same [OF c(1)]
  from assms(1) show ?thesis
  proof cases
    case (t_cons_take slot_buf filtered fb pb)
    show ?thesis
      by (rule read_after_wait [OF assms(2) t_cons_take(4,3)], rule pipeline_ok_take [OF c(1) t_cons_take(2)])
        (use t_cons_take in simp_all)
  next
    case (t_cons_give_up slot_buf filtered fb pb)
    with read_empty [OF assms(2)] have "td_cons c \<noteq> C_Work" "en_frame_buf (td_engine c') = en_frame_buf (td_engine c)" by simp_all
    then show ?thesis using t_cons_give_up c(1) by (simp add: pipeline_ok_def work_ok_def)
  next
    case (t_cons_work ff broker en)
    show ?thesis
    proof (rule pipeline_ok_done [OF c(1) t_cons_work(2)])
      fix ts f rest
      assume "td_filtered c = filter_frame ts f" "length f \<le> 2040" "en_frame_buf (td_engine c) = f @ rest"
      then show "\<exists>s broker. processed broker (enrich ips ts f rest) (td_engine c) s
          \<and> en_flow_table (td_engine c') = en_flow_table s \<and> en_publisher (td_engine c') = en_publisher s"
        using process_frame_post [OF c(2), of ts f ff rest ips broker] t_cons_work by auto
    qed (use t_cons_work in simp_all)
  next
    case t_cons_drop
    show ?thesis
      by (rule pipeline_ok_done [OF c(1) t_cons_drop(2)])
        (use t_cons_drop c(2) in \<open>auto simp: processed_def enrich_filtered\<close>)
  qed (rule same; simp)+
qed

interpretation threads: simulation "threaded_inv e ips" protocol "tstep e ips" step for e ips
proof unfold_locales
  fix c c'
  assume st: "tstep e ips c c'" and c: "threaded_inv e ips c"
  show sim: "step (protocol c) (protocol c')" by (rule threads_step_sim [OF st c])
  then have "sys_inv (protocol c')" using step_inv [OF sim] c by (simp add: threaded_inv_def)
  then show "threaded_inv e ips c'"
    using engine_stored_step [OF st c] capture_ok_step [OF st c] pipeline_ok_step [OF st c] by (simp add: threaded_inv_def)
qed



subsection \<open>Every step of the protocol is possible\<close>

text \<open>Conversely the engine can follow the protocol; only whether the pipeline goes on with the loop or
  with the check of the stop flag after a frame is decided by the frame.\<close>

lemma work_can_finish:
  assumes "threaded_inv e ips c" and "td_cons c = C_Work"
  shows "\<exists>c'. tstep e ips c c' \<and> td_prod c' = td_prod c \<and> td_cons c' \<in> {C_Loop, C_Check}"
proof -
  obtain ts f rest where f: "td_filtered c = filter_frame ts f" "length f \<le> 2040" "en_frame_buf (td_engine c) = f @ rest"
    by (rule frame_in_work [OF assms])
  show ?thesis
  proof (cases "filter_frame ts f")
    case None
    then show ?thesis using t_cons_drop [of c e ips] assms(2) f by force
  next
    case (Some ff)
    obtain s where "process_frame ips agreeable ff (td_engine c) = Returns s"
      using process_frame_post [OF _ Some f(2,3), of ips agreeable] assms(1) by (auto simp: threaded_inv_def)
    then show ?thesis using t_cons_work [of c ff ips agreeable s e] assms(2) f(1) Some by force
  qed
qed

lemma threads_match:
  assumes st: "step (protocol c) s'" and inv: "threaded_inv e ips c"
  shows "\<exists>c'. tstep e ips c c' \<and> td_prod c' = sy_prod s' \<and> cons_rank (td_cons c') = cons_rank (sy_cons s')"
proof -
  have slot: "length (replicate 2048 (0 :: u8)) = 2048" "length (replicate 2040 (0 :: u8)) = 2040" by simp_all
  have frame: "1 \<le> (1 :: nat)" "1 \<le> (2040 :: nat)" by simp_all
  note full = isFull_protocol [of c, symmetric] isEmpty_protocol [of c, symmetric]
  note m = exI [where P = "\<lambda>c'. tstep e ips c c' \<and> td_prod c' = sy_prod s' \<and> cons_rank (td_cons c') = cons_rank (sy_cons s')", OF conjI]
  from st show ?thesis
  proof cases
    case prod_stop then show ?thesis by (intro m [OF t_prod_stop]) simp_all
  next
    case prod_error then show ?thesis by (intro m [OF t_prod_error]) simp_all
  next
    case prod_frame then show ?thesis by (intro m [OF t_prod_frame [OF _ slot(2) frame]]) simp_all
  next
    case prod_lock then show ?thesis by (intro m [OF t_prod_lock]) simp_all
  next
    case prod_pass then show ?thesis by (intro m [OF t_prod_pass]) (simp_all only: full, simp_all)
  next
    case prod_wait then show ?thesis by (intro m [OF t_prod_wait]) (simp_all only: full, simp_all)
  next
    case prod_block then show ?thesis by (intro m [OF t_prod_block]) simp_all
  next
    case prod_wake then show ?thesis by (intro m [OF t_prod_wake]) simp_all
  next
    case prod_store
    then have a: "td_prod c = P_Act" "\<not> isFull (td_buf c)" unfolding isFull_protocol by simp_all
    show ?thesis
      by (rule write_after_wait [OF inv a(1) slot(1)], rule m [OF t_prod_store [OF a(1) slot(1)]]) (use prod_store a in simp_all)
  next
    case prod_give_up
    then have a: "td_prod c = P_Act" "isFull (td_buf c)" "td_stop c" unfolding isFull_protocol by simp_all
    show ?thesis
      by (rule write_after_wait [OF inv a(1) slot(1)]) (use a in simp, rule m [OF t_prod_give_up [OF a(1) slot(1)]], use prod_give_up a in simp_all)
  next
    case cons_stop then show ?thesis by (intro m [OF t_cons_stop]) simp_all
  next
    case cons_read then show ?thesis by (intro m [OF t_cons_read]) simp_all
  next
    case cons_lock then show ?thesis by (intro m [OF t_cons_lock]) simp_all
  next
    case cons_pass then show ?thesis by (intro m [OF t_cons_pass]) (simp_all only: full, simp_all)
  next
    case cons_wait then show ?thesis by (intro m [OF t_cons_wait]) (simp_all only: full, simp_all)
  next
    case cons_block then show ?thesis by (intro m [OF t_cons_block]) simp_all
  next
    case cons_wake then show ?thesis by (intro m [OF t_cons_wake]) simp_all
  next
    case cons_take
    then have a: "td_cons c = C_Act" "\<not> isEmpty (td_buf c)" unfolding isEmpty_protocol by simp_all
    show ?thesis
      by (rule read_after_wait [OF inv slot(1) a(2)], rule m [OF t_cons_take [OF a slot(1)]]) (use cons_take in simp_all)
  next
    case cons_give_up
    then have a: "td_cons c = C_Act" "isEmpty (td_buf c)" "td_stop c" unfolding isEmpty_protocol by simp_all
    show ?thesis by (rule m [OF t_cons_give_up [OF a slot(1) read_empty [OF inv a(2,3)]]]) (use cons_give_up in simp_all)
  next
    case cons_work then show ?thesis using work_can_finish [OF inv] by auto
  next
    case cons_drop then show ?thesis using work_can_finish [OF inv] by auto
  next
    case cons_break then show ?thesis by (intro m [OF t_cons_break]) simp_all
  next
    case cons_continue then show ?thesis by (intro m [OF t_cons_continue]) simp_all
  next
    case (sig_store n) then show ?thesis by (intro m [OF t_sig_store]) simp_all
  next
    case sig_data then show ?thesis by (intro m [OF t_sig_data]) simp_all
  next
    case sig_space then show ?thesis by (intro m [OF t_sig_space]) simp_all
  qed
qed

lemma threads_end:
  "threaded_inv e ips c \<Longrightarrow> stopping (protocol c) \<Longrightarrow> \<exists>c'. (tstep e ips)\<^sup>*\<^sup>* c c' \<and> td_prod c' = P_Done \<and> td_cons c' = C_Done"
proof (induction "prod_rank (td_prod c) + cons_rank (td_cons c)" arbitrary: c rule: less_induct)
  case less
  show ?case
  proof (cases "td_prod c = P_Done \<and> td_cons c = C_Done")
    case True
    then show ?thesis by blast
  next
    case False
    then obtain s1 where s1: "step (protocol c) s1"
      "prod_rank (sy_prod s1) + cons_rank (sy_cons s1) < prod_rank (td_prod c) + cons_rank (td_cons c)"
      using stopping_advances [OF less.prems(2)] by auto
    obtain c1 where c1: "tstep e ips c c1" "td_prod c1 = sy_prod s1" "cons_rank (td_cons c1) = cons_rank (sy_cons s1)"
      using threads_match [OF s1(1) less.prems(1)] by blast
    have "threaded_inv e ips c1" "stopping (protocol c1)"
      using threads.inv_kept [OF c1(1) less.prems(1)] step_stopping [OF threads.step_sim [OF c1(1) less.prems(1)] less.prems(2)] .
    from less.hyps [OF _ this] s1(2) c1 obtain c' where "(tstep e ips)\<^sup>*\<^sup>* c1 c'" "td_prod c' = P_Done \<and> td_cons c' = C_Done" by auto
    then show ?thesis using c1(1) by (meson converse_rtranclp_into_rtranclp)
  qed
qed


subsection \<open>The life of the engine\<close>

text \<open>The end of \<open>main\<close>: both \<open>join\<close>s have returned, the socket is closed, and the destructor of the publisher
  disconnects; \<open>None\<close> while a thread is still running.\<close>

definition main_finish :: "os_env \<Rightarrow> threaded \<Rightarrow> socket_state \<Rightarrow> (int \<times> RabbitMqPublisher \<times> socket_state) option" where
  "main_finish env c os =
     (if td_prod c = P_Done \<and> td_cons c = C_Done then
        let (rc, os') = main_shutdown env (en_fd (td_engine c)) os in
        Some (rc, destroy_RabbitMqPublisher (en_publisher (td_engine c)), os')
      else None)"

lemma threads_start_inv:
  assumes "main_setup env broker alloc_ok os0 = (Started en, os1)"
  shows "threaded_inv e ips (threads_start en signals)"
    and "protocol (threads_start en signals) = initial (unat (packet_capacity (en_packet_buf en))) signals"
    and "0 < unat (packet_capacity (en_packet_buf en))"
proof -
  note st = main_setup_started [OF assms]
  have pb: "packet_inv (en_packet_buf en)" using st(1) by (simp add: engine_inv_def)
  have cnt: "packet_count (en_packet_buf en) = 0"
    using packet_observers(2) [OF pb, of e] st(2) by (simp add: unat_eq_zero)
  then show start: "protocol (threads_start en signals) = initial (unat (packet_capacity (en_packet_buf en))) signals"
    by (simp add: protocol_def threads_start_def initial_def)
  show cap: "0 < unat (packet_capacity (en_packet_buf en))"
    using pb by (simp add: packet_inv_def ring_inv_def packet_capacity_def capacity_def)
  have "sys_inv (protocol (threads_start en signals))" unfolding start using cap reachable_inv by blast
  then show "threaded_inv e ips (threads_start en signals)"
    using st by (simp add: threaded_inv_def capture_ok_def pipeline_ok_def work_ok_def threads_start_def in_write_def)
qed

lemma threads_reach:
  assumes "main_setup env broker alloc_ok os0 = (Started en, os1)" and "(tstep e ips)\<^sup>*\<^sup>* (threads_start en signals) c"
  shows "threaded_inv e ips c" and "reachable (unat (packet_capacity (en_packet_buf en))) signals (protocol c)"
  using threads.run_sim [OF assms(2) threads_start_inv(1) [OF assms(1)]] threads_start_inv(2) [OF assms(1), of signals] by simp_all

lemma threads_fd: "(tstep e ips)\<^sup>*\<^sup>* c c' \<Longrightarrow> en_fd (td_engine c') = en_fd (td_engine c)"
proof (induction rule: rtranclp_induct)
  case (step c1 c2)
  from step(2) have "en_fd (td_engine c2) = en_fd (td_engine c1)" by cases simp_all
  then show ?case using step(3) by simp
qed simp

lemma main_finish_done:
  assumes "threaded_inv e ips c" and "td_prod c = P_Done" and "td_cons c = C_Done" and "0 \<le> en_fd (td_engine c)"
  shows "\<exists>pub os'. main_finish env c os = Some (0, pub, os') \<and> calls_ok (pub_calls pub) \<and> live (pub_calls pub) = {}
    \<and> open_fds env (st_calls os') = remove1 (en_fd (td_engine c)) (open_fds env (st_calls os))"
proof -
  have "pub_inv (en_publisher (td_engine c))" using assms(1) by (simp add: threaded_inv_def engine_inv_def)
  then have "conn_inv (disconnect (en_publisher (td_engine c)))" "pub_conn (disconnect (en_publisher (td_engine c))) = None"
    using disconnect_inv by (simp_all add: pub_inv_def)
  then show ?thesis using assms(2,3) main_shutdown_fds [OF assms(4), of env os]
    by (auto simp: main_finish_def main_shutdown_def conn_inv_def destroy_RabbitMqPublisher_def)
qed


subsection \<open>Properties\<close>

text \<open>A short run: the capture thread has received \<open>n\<close> bytes and holds the mutex.\<close>

definition one_frame :: "engine \<Rightarrow> u8 list \<Rightarrow> nat \<Rightarrow> threaded" where
  "one_frame en fb n = (threads_start en 1)\<lparr>td_prod := P_Act, td_frame_buf := fb, td_bytes := n, td_clock := 0,
     td_received := [(nowMillis 0, take n fb)], td_owner := Some Prod\<rparr>"

lemma one_frame_reachable:
  assumes "\<not> isFull (en_packet_buf en)" and "length fb = 2040" and "1 \<le> n" and "n \<le> 2040"
  shows "(tstep e ips)\<^sup>*\<^sup>* (threads_start en 1) (one_frame en fb n)"
proof -
  let ?c0 = "threads_start en 1"
  let ?c1 = "?c0\<lparr>td_prod := P_Lock, td_frame_buf := fb, td_bytes := n, td_clock := 0,
      td_received := td_received ?c0 @ [(nowMillis 0, take n fb)]\<rparr>"
  let ?c2 = "?c1\<lparr>td_prod := P_Test, td_owner := Some Prod\<rparr>"
  have s1: "tstep e ips ?c0 ?c1" by (rule t_prod_frame) (use assms in \<open>simp_all add: threads_start_def\<close>)
  have s2: "tstep e ips ?c1 ?c2" by (rule t_prod_lock) (simp_all add: threads_start_def)
  have s3: "tstep e ips ?c2 (?c2\<lparr>td_prod := P_Act\<rparr>)" by (rule t_prod_pass) (use assms in \<open>simp_all add: threads_start_def\<close>)
  have end_state: "?c2\<lparr>td_prod := P_Act\<rparr> = one_frame en fb n"
    by (simp add: one_frame_def threads_start_def)
  have "(tstep e ips)\<^sup>*\<^sup>* ?c0 ?c1" using s1 by (rule r_into_rtranclp)
  then have "(tstep e ips)\<^sup>*\<^sup>* ?c0 ?c2" using s2 by (rule rtranclp.rtrancl_into_rtrancl)
  then have "(tstep e ips)\<^sup>*\<^sup>* ?c0 (?c2\<lparr>td_prod := P_Act\<rparr>)" using s3 by (rule rtranclp.rtrancl_into_rtrancl)
  then show ?thesis unfolding end_state .
qed

text \<open>The same with 60 zero bytes.\<close>

abbreviation zero_frame :: "engine \<Rightarrow> threaded" where
  "zero_frame en \<equiv> one_frame en (replicate 2040 0) 60"

lemma zero_frame_reachable:
  "\<not> isFull (en_packet_buf en) \<Longrightarrow> (tstep e ips)\<^sup>*\<^sup>* (threads_start en 1) (zero_frame en)"
  by (rule one_frame_reachable) simp_all

lemma started_room:
  assumes "main_setup env broker alloc_ok os0 = (Started en, os1)"
  shows "\<not> isFull (en_packet_buf en)"
proof -
  note st = main_setup_started [OF assms]
  have pb: "packet_inv (en_packet_buf en)" "0 < unat (rb_capacity (en_packet_buf en))"
    using st(1) by (simp_all add: engine_inv_def packet_inv_def ring_inv_def)
  then show ?thesis
    using packet_observers(3) [OF pb(1), of Little_Endian] st(2) by (simp add: packet_isFull_def packet_capacity_def capacity_def)
qed

lemma plain_engine_room:
  obtains en os1 where "main_setup plain_os agreeable (\<lambda>_ _. True) boot_state = (Started en, os1)" "\<not> isFull (en_packet_buf en)"
  using plain_engine_starts started_room by metis

text \<open>C11: Nothing that the threads do goes wrong, in any interleaving: after its wait, \<open>PacketBuffer::write\<close>
  returns without leaving a buffer or waiting again, it gives up only when the engine is stopping, the
  read of the pipeline thread returns the oldest frame, and processing a frame always returns.\<close>

theorem threads_never_fault:
  assumes "main_setup env broker alloc_ok os0 = (Started en, os1)" and "(tstep e ips)\<^sup>*\<^sup>* (threads_start en signals) c"
    and "length slot_buf = 2048"
  shows "(td_prod c = P_Act \<longrightarrow> (\<exists>ok pb. packet_write e (td_clock c) slot_buf True (td_stop c) (td_frame_buf c)
        (of_nat (td_bytes c)) (td_buf c) = Returns (ok, pb) \<and> (ok \<or> td_stop c)))
    \<and> (td_cons c = C_Act \<longrightarrow> (\<exists>filtered fb pb. filter_stage e slot_buf True (td_stop c) (td_buf c) (en_frame_buf (td_engine c)) 2040
        = Returns (filtered, fb, pb) \<and> packet_frames e pb = drop 1 (packet_frames e (td_buf c))
        \<and> (packet_frames e (td_buf c) = [] \<longrightarrow> td_stop c \<and> filtered = None)))
    \<and> (td_cons c = C_Work \<longrightarrow> (\<forall>ff broker. td_filtered c = Some ff \<longrightarrow> (\<exists>s. process_frame ips broker ff (td_engine c) = Returns s)))"
proof -
  note inv = threads_reach(1) [OF assms(1,2)]
  have w: "td_prod c = P_Act \<Longrightarrow> \<exists>ok pb. packet_write e (td_clock c) slot_buf True (td_stop c) (td_frame_buf c)
        (of_nat (td_bytes c)) (td_buf c) = Returns (ok, pb) \<and> (ok \<or> td_stop c)"
    using write_after_wait [OF inv _ assms(3)] by metis
  have r: "\<exists>filtered fb pb. filter_stage e slot_buf True (td_stop c) (td_buf c) (en_frame_buf (td_engine c)) 2040
        = Returns (filtered, fb, pb) \<and> packet_frames e pb = drop 1 (packet_frames e (td_buf c))
        \<and> (packet_frames e (td_buf c) = [] \<longrightarrow> td_stop c \<and> filtered = None)" if act: "td_cons c = C_Act"
  proof (cases "isEmpty (td_buf c)")
    case True
    then have "td_stop c" using inv act by (auto simp: threaded_inv_def sys_inv_def isEmpty_protocol)
    moreover have "packet_frames e (td_buf c) = []"
      using True packet_observers(1) [of "td_buf c" e] inv by (simp add: packet_isEmpty_def threaded_inv_def engine_inv_def)
    ultimately show ?thesis using read_empty [OF inv True] by simp
  next
    case False
    then show ?thesis by (rule read_after_wait [OF inv assms(3)]) simp
  qed
  have "\<exists>s. process_frame ips b ff (td_engine c) = Returns s" if work: "td_cons c = C_Work" "td_filtered c = Some ff" for ff b
  proof -
    obtain ts f rest where f: "td_filtered c = filter_frame ts f" "length f \<le> 2040" "en_frame_buf (td_engine c) = f @ rest"
      by (rule frame_in_work [OF inv work(1)])
    have "engine_inv (td_engine c)" using inv by (simp add: threaded_inv_def)
    from process_frame_post [OF this _ f(2,3), of ts ff ips b] f(1) work(2) show ?thesis by auto
  qed
  with w r show ?thesis by blast
qed

theorem threads_never_fault_witness:
  "\<exists>en os1. main_setup plain_os agreeable (\<lambda>_ _. True) boot_state = (Started en, os1)
    \<and> (\<exists>ok pb. packet_write Little_Endian 0 (replicate 2048 0) True False (replicate 2040 0) 60 (en_packet_buf en) = Returns (ok, pb))"
proof -
  obtain en os1 where en: "main_setup plain_os agreeable (\<lambda>_ _. True) boot_state = (Started en, os1)" "\<not> isFull (en_packet_buf en)"
    by (rule plain_engine_room)
  have "length (replicate 2048 (0 :: u8)) = 2048" by simp
  from threads_never_fault [OF en(1) zero_frame_reachable [OF en(2), of Little_Endian "{}"] this] en(1)
  show ?thesis by (auto simp: one_frame_def threads_start_def)
qed

text \<open>C10: Shutting down: from every reachable state of the running engine in which a stop has been
  requested and no thread is in or before its wait, the threads can run to their end whatever
  is in flight, and then \<open>main\<close> returns 0 with the packet socket closed and no broker connection left.\<close>

theorem engine_shuts_down:
  assumes "main_setup env broker alloc_ok os0 = (Started en, os1)" and "(tstep e ips)\<^sup>*\<^sup>* (threads_start en signals) c"
    and "td_stop c" and "awake (protocol c)" and "open_fds env (st_calls os) = en_fd en # fds"
  shows "\<exists>c' pub os'. (tstep e ips)\<^sup>*\<^sup>* c c' \<and> main_finish env c' os = Some (0, pub, os')
    \<and> open_fds env (st_calls os') = fds \<and> calls_ok (pub_calls pub) \<and> live (pub_calls pub) = {}"
proof -
  note inv = threads_reach(1) [OF assms(1,2)]
  have "stopping (protocol c)" using inv assms(3,4) by (simp add: stopping_def threaded_inv_def)
  from threads_end [OF inv this] obtain c' where c': "(tstep e ips)\<^sup>*\<^sup>* c c'" "td_prod c' = P_Done" "td_cons c' = C_Done" by blast
  have fd: "en_fd (td_engine c') = en_fd en"
    using threads_fd [OF c'(1)] threads_fd [OF assms(2)] by (simp add: threads_start_def)
  have "0 \<le> en_fd en" using main_setup_fds [where env = env and broker = broker and alloc_ok = alloc_ok and ?s0.0 = os0] assms(1) by simp
  then have "0 \<le> en_fd (td_engine c')" using fd by simp
  from main_finish_done [OF conjunct1 [OF threads.run_sim [OF c'(1) inv]] c'(2,3) this, of env os] c'(1) fd assms(5)
  show ?thesis by auto
qed

theorem engine_shuts_down_witness:
  "\<exists>en os1 c pub os'. main_setup plain_os agreeable (\<lambda>_ _. True) boot_state = (Started en, os1)
    \<and> (tstep Little_Endian {})\<^sup>*\<^sup>* (threads_start en 1) c \<and> main_finish plain_os c os1 = Some (0, pub, os')
    \<and> open_fds plain_os (st_calls os') = []"
proof -
  obtain en os1 where en: "main_setup plain_os agreeable (\<lambda>_ _. True) boot_state = (Started en, os1)" "\<not> isFull (en_packet_buf en)"
    by (rule plain_engine_room)
  let ?c = "(zero_frame en)\<lparr>td_handler := H_Notify_Data, td_signals := 0, td_stop := True\<rparr>"
  have "tstep Little_Endian {} (zero_frame en) ?c" by (rule t_sig_store) (simp_all add: one_frame_def threads_start_def)
  with zero_frame_reachable [OF en(2)] have r: "(tstep Little_Endian {})\<^sup>*\<^sup>* (threads_start en 1) ?c"
    by (rule rtranclp.rtrancl_into_rtrancl)
  have stop: "td_stop ?c" "awake (protocol ?c)" by (simp_all add: awake_def one_frame_def threads_start_def)
  have "open_fds plain_os (st_calls os1) = en_fd en # []"
    using main_setup_fds [where env = plain_os and broker = agreeable and alloc_ok = "\<lambda>_ _. True" and ?s0.0 = boot_state] en(1)
    by (simp add: boot_state_def)
  from engine_shuts_down [OF en(1) r stop this] r en(1) show ?thesis by (meson rtranclp_trans)
qed

end
