(* ===== verification/Threaded_Progress.thy ===== *)
theory Threaded_Progress
  imports Threaded_Engine
begin

text \<open>
  Progress of the running engine while no stop is requested: whatever the threads are in the middle of,
  every stored frame can still be taken out of the packet buffer, tracked and published. No thread
  is left waiting for a notification that does not come: a thread that holds the mutex can release
  it, and a pipeline thread that sleeps does so only with an empty buffer.
\<close>

subsection \<open>The capture thread can leave the critical section\<close>

definition prod_steps :: "producer \<Rightarrow> nat" where
  "prod_steps p = (case p of P_Test \<Rightarrow> 2 | P_Block \<Rightarrow> 1 | P_Act \<Rightarrow> 1 | _ \<Rightarrow> 0)"

lemma prod_releases_step:
  assumes inv: "threaded_inv e ips c" and own: "prod_owns (td_prod c)" and run: "\<not> td_stop c"
  shows "\<exists>c'. tstep e ips c c' \<and> \<not> td_stop c' \<and> prod_steps (td_prod c') < prod_steps (td_prod c) \<and> prefix (td_stored c) (td_stored c')"
proof -
  have slot: "length (replicate 2048 (0 :: u8)) = 2048" by simp
  consider (1) "td_prod c = P_Test" "isFull (td_buf c)" | (2) "td_prod c = P_Test" "\<not> isFull (td_buf c)"
      | (3) "td_prod c = P_Block" | (4) "td_prod c = P_Act"
    using own by (auto simp: prod_owns_def)
  note cs = this
  note m = exI [where P = "\<lambda>c'. tstep e ips c c' \<and> \<not> td_stop c' \<and> prod_steps (td_prod c') < prod_steps (td_prod c)
      \<and> prefix (td_stored c) (td_stored c')", OF conjI]
  from cs show ?thesis
  proof cases
    case 1 then show ?thesis using run by (intro m [OF t_prod_wait]) (simp_all add: prod_steps_def)
  next
    case 2 then show ?thesis using run by (intro m [OF t_prod_pass]) (simp_all add: prod_steps_def)
  next
    case 3 then show ?thesis using run by (intro m [OF t_prod_block]) (simp_all add: prod_steps_def)
  next
    case 4
    show ?thesis
    proof (rule write_after_wait [OF inv 4 slot])
      fix pb
      assume "packet_write e (td_clock c) (replicate 2048 0) True (td_stop c) (td_frame_buf c) (of_nat (td_bytes c)) (td_buf c) = Returns (True, pb)"
      then show ?thesis using run 4 by (intro m [OF t_prod_store [OF 4 slot]]) (simp_all add: prod_steps_def)
    qed (use run in simp)
  qed
qed

lemma prod_releases:
  assumes "threaded_inv e ips c" and "\<not> td_stop c"
  shows "\<exists>c'. (tstep e ips)\<^sup>*\<^sup>* c c' \<and> \<not> td_stop c' \<and> \<not> prod_owns (td_prod c') \<and> prefix (td_stored c) (td_stored c')"
  using assms
proof (induction "prod_steps (td_prod c)" arbitrary: c rule: less_induct)
  case less
  show ?case
  proof (cases "prod_owns (td_prod c)")
    case False
    then show ?thesis using less.prems by blast
  next
    case True
    from prod_releases_step [OF less.prems(1) True less.prems(2)] obtain c1 where c1: "tstep e ips c c1" "\<not> td_stop c1"
      "prod_steps (td_prod c1) < prod_steps (td_prod c)" "prefix (td_stored c) (td_stored c1)" by blast
    from less.hyps [OF c1(3) threads.inv_kept [OF c1(1) less.prems(1)] c1(2)] obtain c' where
      "(tstep e ips)\<^sup>*\<^sup>* c1 c'" "\<not> td_stop c'" "\<not> prod_owns (td_prod c')" "prefix (td_stored c1) (td_stored c')" by blast
    then show ?thesis using c1 by (meson converse_rtranclp_into_rtranclp prefix_order.trans)
  qed
qed


subsection \<open>One frame through both threads\<close>

lemma frame_is_stored:
  assumes inv: "threaded_inv e ips c" and act: "td_prod c = P_Act" and room: "\<not> isFull (td_buf c)"
  obtains pb where "packet_inv pb" "rb_capacity pb = rb_capacity (td_buf c)"
    "packet_frames e pb = packet_frames e (td_buf c) @ [(nowMillis (td_clock c), take (td_bytes c) (td_frame_buf c))]"
    "tstep e ips c (c\<lparr>td_prod := P_Loop, td_owner := None, td_engine := (td_engine c)\<lparr>en_packet_buf := pb\<rparr>,
      td_cons := wake_consumer (td_cons c),
      td_stored := td_stored c @ [(nowMillis (td_clock c), take (td_bytes c) (td_frame_buf c))]\<rparr>)"
proof -
  have slot: "length (replicate 2048 (0 :: u8)) = 2048" by simp
  show thesis
    by (rule write_after_wait [OF inv act slot]) (use that t_prod_store [OF act slot] room in auto)
qed

text \<open>From the head of its loop the pipeline thread takes the oldest frame.\<close>

lemma frame_in_hand:
  assumes inv: "threaded_inv e ips c" and "td_cons c = C_Loop" and "td_owner c = None" and "\<not> td_stop c"
    and fr: "packet_frames e (td_buf c) = (ts, f) # fs"
  obtains pb where "packet_frames e pb = fs" "rb_capacity pb = rb_capacity (td_buf c)" "length f \<le> 2040"
    "(tstep e ips)\<^sup>*\<^sup>* c (c\<lparr>td_cons := C_Work, td_owner := None, td_prod := wake_producer (td_prod c), td_filtered := filter_frame ts f,
      td_engine := (td_engine c)\<lparr>en_frame_buf := f @ drop (length f) (en_frame_buf (td_engine c)), en_packet_buf := pb\<rparr>,
      td_taken := td_taken c @ [(ts, f)]\<rparr>)"
proof -
  let ?c1 = "c\<lparr>td_cons := C_Lock\<rparr>" and ?c2 = "c\<lparr>td_cons := C_Test, td_owner := Some Cons_Thread\<rparr>"
    and ?c3 = "c\<lparr>td_owner := Some Cons_Thread, td_cons := C_Act\<rparr>"
  have "packet_inv (td_buf c)" using inv by (simp add: threaded_inv_def engine_inv_def)
  then have ne: "\<not> isEmpty (td_buf c)" using packet_observers(1) [of "td_buf c" e] fr by (simp add: packet_isEmpty_def)
  have "tstep e ips c ?c1" using t_cons_read [of c e ips] assms by simp
  then have "(tstep e ips)\<^sup>*\<^sup>* c ?c1" by (rule r_into_rtranclp)
  moreover have "tstep e ips ?c1 ?c2" using t_cons_lock [of ?c1 e ips] assms by simp
  ultimately have "(tstep e ips)\<^sup>*\<^sup>* c ?c2" by (rule rtranclp.rtrancl_into_rtrancl)
  moreover have "tstep e ips ?c2 ?c3" using t_cons_pass [of ?c2 e ips] ne by simp
  ultimately have r3: "(tstep e ips)\<^sup>*\<^sup>* c ?c3" by (rule rtranclp.rtrancl_into_rtrancl)
  have inv3: "threaded_inv e ips ?c3" using threads.run_sim [OF r3 inv] by blast
  have slot: "length (replicate 2048 (0 :: u8)) = 2048" and ne3: "\<not> isEmpty (td_buf ?c3)" using ne by simp_all
  obtain pb where pb: "filter_stage e (replicate 2048 0) True (td_stop ?c3) (td_buf ?c3) (en_frame_buf (td_engine ?c3)) 2040
      = Returns (filter_frame ts f, f @ drop (length f) (en_frame_buf (td_engine c)), pb)" "length f \<le> 2040" "packet_frames e pb = fs"
      "rb_capacity pb = rb_capacity (td_buf c)"
    by (rule read_after_wait [OF inv3 slot ne3]) (use fr in auto)
  let ?c4 = "c\<lparr>td_cons := C_Work, td_owner := None, td_prod := wake_producer (td_prod c), td_filtered := filter_frame ts f,
      td_engine := (td_engine c)\<lparr>en_frame_buf := f @ drop (length f) (en_frame_buf (td_engine c)), en_packet_buf := pb\<rparr>,
      td_taken := td_taken c @ [(ts, f)]\<rparr>"
  have "tstep e ips ?c3 ?c4" using t_cons_take [OF _ ne3 slot pb(1), of ips] fr by simp
  with r3 have "(tstep e ips)\<^sup>*\<^sup>* c ?c4" by (rule rtranclp.rtrancl_into_rtrancl)
  with pb(2-4) show thesis by (intro that)
qed

text \<open>It then processes it, when the filter admits it.\<close>

lemma frame_is_processed:
  assumes inv: "threaded_inv e ips c" and "td_cons c = C_Loop" and "td_owner c = None" and "\<not> td_stop c"
    and fr: "packet_frames e (td_buf c) = (ts, f) # fs" and ff: "filter_frame ts f = Some ff"
  obtains pb en s where "packet_frames e pb = fs" "rb_capacity pb = rb_capacity (td_buf c)"
    "(tstep e ips)\<^sup>*\<^sup>* c (c\<lparr>td_cons := C_Loop, td_owner := None, td_prod := wake_producer (td_prod c), td_filtered := Some ff,
      td_engine := en, td_taken := td_taken c @ [(ts, f)]\<rparr>)" "en_packet_buf en = pb"
    "processed broker (enrich ips ts f (drop (length f) (en_frame_buf (td_engine c)))) s en"
    "en_publisher s = en_publisher (td_engine c)" "en_flow_table s = en_flow_table (td_engine c)"
    "en_frame_buf s = f @ drop (length f) (en_frame_buf (td_engine c))"
proof -
  obtain pb where pb: "packet_frames e pb = fs" "rb_capacity pb = rb_capacity (td_buf c)" "length f \<le> 2040"
    and r: "(tstep e ips)\<^sup>*\<^sup>* c (c\<lparr>td_cons := C_Work, td_owner := None, td_prod := wake_producer (td_prod c), td_filtered := filter_frame ts f,
      td_engine := (td_engine c)\<lparr>en_frame_buf := f @ drop (length f) (en_frame_buf (td_engine c)), en_packet_buf := pb\<rparr>,
      td_taken := td_taken c @ [(ts, f)]\<rparr>)"
    by (rule frame_in_hand [OF assms(1-5)])
  let ?s = "(td_engine c)\<lparr>en_frame_buf := f @ drop (length f) (en_frame_buf (td_engine c)), en_packet_buf := pb\<rparr>"
  let ?c4 = "c\<lparr>td_cons := C_Work, td_owner := None, td_prod := wake_producer (td_prod c), td_filtered := filter_frame ts f,
      td_engine := ?s, td_taken := td_taken c @ [(ts, f)]\<rparr>"
  have "engine_inv (td_engine ?c4)" using threads.run_sim [OF r inv] by (simp add: threaded_inv_def)
  then have "engine_inv ?s" by simp
  from process_frame_post [OF this ff pb(3), of "drop (length f) (en_frame_buf (td_engine c))" ips broker] obtain s' where
    s': "process_frame ips broker ff ?s = Returns s'" "processed broker (enrich ips ts f (drop (length f) (en_frame_buf (td_engine c)))) ?s s'"
    by auto
  let ?en = "?s\<lparr>en_flow_table := en_flow_table s', en_publisher := en_publisher s'\<rparr>"
  let ?c5 = "c\<lparr>td_cons := C_Loop, td_owner := None, td_prod := wake_producer (td_prod c), td_filtered := Some ff,
      td_engine := ?en, td_taken := td_taken c @ [(ts, f)]\<rparr>"
  let ?c = "?c4\<lparr>td_cons := C_Loop, td_engine := (td_engine ?c4)\<lparr>en_flow_table := en_flow_table s', en_publisher := en_publisher s'\<rparr>\<rparr>"
  have c: "?c = ?c5" by (rule threaded.equality) (use ff in simp_all)
  have "tstep e ips ?c4 ?c" by (rule t_cons_work [of _ ff _ broker]) (use s'(1) ff in simp_all)
  with r have r5: "(tstep e ips)\<^sup>*\<^sup>* c ?c5" unfolding c by (rule rtranclp.rtrancl_into_rtrancl)
  have "engine_inv (td_engine ?c5)" using threads.run_sim [OF r5 inv] by (simp add: threaded_inv_def)
  then have "processed broker (enrich ips ts f (drop (length f) (en_frame_buf (td_engine c)))) ?s ?en"
    using s'(2) by (cases "enrich ips ts f (drop (length f) (en_frame_buf (td_engine c)))") (simp_all add: processed_def)
  then show thesis using r5 pb by (intro that [of pb ?en ?s]) simp_all
qed

text \<open>In either case it is back at the head of its loop, with the frame gone from the buffer.\<close>

lemma frame_is_taken:
  assumes inv: "threaded_inv e ips c" and "td_cons c = C_Loop" and "td_owner c = None" and "\<not> td_stop c"
    and fr: "packet_frames e (td_buf c) = (ts, f) # fs"
  obtains ff en where "packet_frames e (en_packet_buf en) = fs" "rb_capacity (en_packet_buf en) = rb_capacity (td_buf c)"
    "(tstep e ips)\<^sup>*\<^sup>* c (c\<lparr>td_cons := C_Loop, td_owner := None, td_prod := wake_producer (td_prod c), td_filtered := ff,
      td_engine := en, td_taken := td_taken c @ [(ts, f)]\<rparr>)"
proof (cases "filter_frame ts f")
  case (Some ff)
  show thesis by (rule frame_is_processed [OF assms Some, where broker = agreeable]) (rule that; simp)
next
  case None
  obtain pb where pb: "packet_frames e pb = fs" "rb_capacity pb = rb_capacity (td_buf c)"
    and r: "(tstep e ips)\<^sup>*\<^sup>* c (c\<lparr>td_cons := C_Work, td_owner := None, td_prod := wake_producer (td_prod c), td_filtered := filter_frame ts f,
      td_engine := (td_engine c)\<lparr>en_frame_buf := f @ drop (length f) (en_frame_buf (td_engine c)), en_packet_buf := pb\<rparr>,
      td_taken := td_taken c @ [(ts, f)]\<rparr>)"
    by (rule frame_in_hand [OF assms])
  let ?s = "(td_engine c)\<lparr>en_frame_buf := f @ drop (length f) (en_frame_buf (td_engine c)), en_packet_buf := pb\<rparr>"
  let ?c = "\<lambda>q. c\<lparr>td_cons := q, td_owner := None, td_prod := wake_producer (td_prod c), td_filtered := None,
      td_engine := ?s, td_taken := td_taken c @ [(ts, f)]\<rparr>"
  have c: "(?c q)\<lparr>td_cons := q'\<rparr> = ?c q'" for q q' by (rule threaded.equality) simp_all
  have "tstep e ips (?c C_Work) ((?c C_Work)\<lparr>td_cons := C_Check\<rparr>)" by (rule t_cons_drop) simp_all
  then have "tstep e ips (?c C_Work) (?c C_Check)" unfolding c .
  with r None have "(tstep e ips)\<^sup>*\<^sup>* c (?c C_Check)" by (simp add: rtranclp.rtrancl_into_rtrancl)
  moreover have "tstep e ips (?c C_Check) ((?c C_Check)\<lparr>td_cons := C_Loop\<rparr>)" by (rule t_cons_continue) (use assms(4) in simp_all)
  ultimately have "(tstep e ips)\<^sup>*\<^sup>* c (?c C_Loop)" unfolding c by (rule rtranclp.rtrancl_into_rtrancl)
  with pb show thesis by (intro that [of ?s None]) simp_all
qed


subsection \<open>The pipeline thread empties the buffer\<close>

definition cons_steps :: "consumer \<Rightarrow> nat" where
  "cons_steps q = (case q of C_Work \<Rightarrow> 7 | C_Check \<Rightarrow> 6 | C_Loop \<Rightarrow> 5 | C_Lock \<Rightarrow> 4 | C_Woken \<Rightarrow> 4 | C_Test \<Rightarrow> 3 | C_Act \<Rightarrow> 2 | _ \<Rightarrow> 0)"

definition frames_left :: "byte_order \<Rightarrow> threaded \<Rightarrow> nat" where
  "frames_left e c = 8 * length (packet_frames e (td_buf c)) + cons_steps (td_cons c)"

definition all_done :: "byte_order \<Rightarrow> threaded \<Rightarrow> bool" where
  "all_done e c \<longleftrightarrow> packet_frames e (td_buf c) = [] \<and> td_cons c \<noteq> C_Work"

text \<open>The capture thread rests outside of the critical section.\<close>

definition resting :: "threaded \<Rightarrow> bool" where
  "resting c \<longleftrightarrow> \<not> td_stop c \<and> \<not> prod_owns (td_prod c)"

lemma work_finishes:
  assumes inv: "threaded_inv e ips c" and "td_cons c = C_Work" and "resting c"
  shows "\<exists>c'. tstep e ips c c' \<and> resting c' \<and> td_stored c' = td_stored c \<and> frames_left e c' < frames_left e c"
proof -
  obtain ts f rest where f: "td_filtered c = filter_frame ts f" "length f \<le> 2040" "en_frame_buf (td_engine c) = f @ rest"
    by (rule frame_in_work [OF assms(1,2)])
  note m = exI [where P = "\<lambda>c'. tstep e ips c c' \<and> resting c' \<and> td_stored c' = td_stored c \<and> frames_left e c' < frames_left e c", OF conjI]
  note simps = resting_def frames_left_def cons_steps_def
  show ?thesis
  proof (cases "filter_frame ts f")
    case None
    with f assms show ?thesis by (intro m [OF t_cons_drop]) (simp_all add: simps)
  next
    case (Some ff)
    have "engine_inv (td_engine c)" using inv by (simp add: threaded_inv_def)
    from process_frame_post [OF this Some f(2,3), of ips agreeable]
    obtain s where "process_frame ips agreeable ff (td_engine c) = Returns s" by blast
    with f Some assms show ?thesis by (intro m [OF t_cons_work]) (simp_all add: simps)
  qed
qed

lemma pipeline_advances:
  assumes inv: "threaded_inv e ips c" and rest: "resting c" and more: "\<not> all_done e c"
  shows "\<exists>c'. tstep e ips c c' \<and> resting c' \<and> td_stored c' = td_stored c \<and> frames_left e c' < frames_left e c"
proof (cases "td_cons c = C_Work")
  case True
  then show ?thesis by (rule work_finishes [OF inv _ rest])
next
  case False
  have slot: "length (replicate 2048 (0 :: u8)) = 2048" by simp
  have b: "packet_inv (td_buf c)" "packet_frames e (td_buf c) \<noteq> []" using inv more False by (simp_all add: threaded_inv_def engine_inv_def all_done_def)
  then have ne: "\<not> isEmpty (td_buf c)" using packet_observers(1) [of "td_buf c" e] by (simp add: packet_isEmpty_def)
  have sy: "sys_inv (protocol c)" using inv by (simp add: threaded_inv_def)
  have run: "\<not> td_stop c" "td_owner c \<noteq> Some Prod" using rest sy by (simp_all add: resting_def sys_inv_def)
  have idle: "td_owner c = None" if "\<not> cons_owns (td_cons c)"
    using that sy run thread.exhaust by (cases "td_owner c") (auto simp: sys_inv_def)
  have awake: "td_cons c \<notin> {C_Block, C_Asleep, C_Done}" using sy ne run by (auto simp: sys_inv_def isEmpty_protocol)
  note m = exI [where P = "\<lambda>c'. tstep e ips c c' \<and> resting c' \<and> td_stored c' = td_stored c \<and> frames_left e c' < frames_left e c", OF conjI]
  note simps = resting_def frames_left_def cons_steps_def
  show ?thesis
  proof (cases "td_cons c")
    case C_Loop then show ?thesis using rest run by (intro m [OF t_cons_read]) (simp_all add: simps)
  next
    case C_Lock then show ?thesis using rest run idle by (intro m [OF t_cons_lock]) (simp_all add: simps cons_owns_def)
  next
    case C_Test then show ?thesis using rest run ne by (intro m [OF t_cons_pass]) (simp_all add: simps)
  next
    case C_Woken then show ?thesis using rest run idle by (intro m [OF t_cons_wake]) (simp_all add: simps cons_owns_def)
  next
    case C_Check then show ?thesis using rest run by (intro m [OF t_cons_continue]) (simp_all add: simps)
  next
    case C_Act
    show ?thesis
    proof (rule read_after_wait [OF inv slot ne])
      fix ts f fs pb
      assume a: "packet_frames e (td_buf c) = (ts, f) # fs" "packet_frames e pb = fs"
        "filter_stage e (replicate 2048 0) True (td_stop c) (td_buf c) (en_frame_buf (td_engine c)) 2040
          = Returns (filter_frame ts f, f @ drop (length f) (en_frame_buf (td_engine c)), pb)"
      show ?thesis using rest C_Act a(1,2)
        by (intro m [OF t_cons_take [OF C_Act ne slot a(3)]]) (simp_all add: simps prod_owns_def wake_producer_def)
    qed
  qed (use awake False in simp_all)
qed

lemma pipeline_drains:
  "threaded_inv e ips c \<Longrightarrow> resting c \<Longrightarrow>
    \<exists>c'. (tstep e ips)\<^sup>*\<^sup>* c c' \<and> all_done e c' \<and> \<not> td_stop c' \<and> td_stored c' = td_stored c"
proof (induction "frames_left e c" arbitrary: c rule: less_induct)
  case less
  show ?case
  proof (cases "all_done e c")
    case True
    then show ?thesis using less.prems by (auto simp: resting_def)
  next
    case False
    from pipeline_advances [OF less.prems False] obtain c1 where c1: "tstep e ips c c1" "resting c1" "td_stored c1 = td_stored c"
      "frames_left e c1 < frames_left e c" by blast
    from less.hyps [OF c1(4) threads.inv_kept [OF c1(1) less.prems(1)] c1(2)] c1 show ?thesis
      by (metis converse_rtranclp_into_rtranclp)
  qed
qed


subsection \<open>Properties\<close>

text \<open>C8: No stored frame is ever stranded: from every reachable state of the running engine in which no stop
  has been requested, wherever the two threads are, a run exists at whose end all frames stored so far
  have been taken, in order, and tracked, so that every flow record is the summary of all stored
  frames of its flow. In particular no notification that a thread needs is lost.\<close>

theorem stored_frames_delivered:
  assumes "main_setup env broker alloc_ok os0 = (Started en, os1)" and "(tstep e ips)\<^sup>*\<^sup>* (threads_start en signals) c"
    and "\<not> td_stop c"
  shows "\<exists>c'. (tstep e ips)\<^sup>*\<^sup>* c c' \<and> \<not> td_stop c' \<and> prefix (td_stored c) (td_stored c') \<and> td_taken c' = td_stored c'
    \<and> (let ens = enrich_all ips (replicate 2040 0) (td_stored c') in
        (\<forall>k. FlowTable_get (en_flow_table (td_engine c')) k =
           (let own = filter (\<lambda>f. ef_flow_key f = k) ens in if own = [] then new_FlowRecord else flow_summary own)))"
proof -
  note inv = threads_reach(1) [OF assms(1,2)]
  obtain c1 where c1: "(tstep e ips)\<^sup>*\<^sup>* c c1" "resting c1" "prefix (td_stored c) (td_stored c1)"
    using prod_releases [OF inv assms(3)] by (auto simp: resting_def)
  have inv1: "threaded_inv e ips c1" using threads.run_sim [OF c1(1) inv] by blast
  obtain c2 where c2: "(tstep e ips)\<^sup>*\<^sup>* c1 c2" "all_done e c2" "\<not> td_stop c2" "td_stored c2 = td_stored c1"
    using pipeline_drains [OF inv1 c1(2)] by blast
  have inv2: "threaded_inv e ips c2" using threads.run_sim [OF c2(1) inv1] by blast
  have t: "td_taken c2 = td_stored c2" using inv2 c2(2) by (simp add: threaded_inv_def all_done_def)
  moreover have "en_flow_table (td_engine c2) = fold table_step (enrich_all ips (replicate 2040 0) (td_taken c2)) Map.empty"
    using inv2 c2(2) by (auto simp: threaded_inv_def pipeline_ok_def work_ok_def all_done_def)
  ultimately show ?thesis
    using rtranclp_trans [OF c1(1) c2(1)] c1(3) c2(3,4) enriched_summaries [of ips "replicate 2040 0" "td_taken c2"]
    unfolding Let_def by (intro exI [of _ c2]) simp
qed

theorem stored_frames_delivered_witness:
  "\<exists>en os1 c c'. main_setup plain_os agreeable (\<lambda>_ _. True) boot_state = (Started en, os1)
    \<and> (tstep Little_Endian {})\<^sup>*\<^sup>* (threads_start en 1) c \<and> td_stored c = [(nowMillis 0, replicate 60 0)]
    \<and> (tstep Little_Endian {})\<^sup>*\<^sup>* c c' \<and> prefix [(nowMillis 0, replicate 60 0)] (td_taken c')"
proof -
  obtain en os1 where en: "main_setup plain_os agreeable (\<lambda>_ _. True) boot_state = (Started en, os1)" "\<not> isFull (en_packet_buf en)"
    by (rule plain_engine_room)
  note r = zero_frame_reachable [OF en(2), of Little_Endian "{}"]
  have act: "td_prod (zero_frame en) = P_Act" "\<not> isFull (td_buf (zero_frame en))" using en(2) by (simp_all add: one_frame_def threads_start_def)
  let ?x = "(nowMillis 0, replicate 60 0) :: u64 \<times> u8 list"
  have x: "td_stored (zero_frame en) @ [(nowMillis (td_clock (zero_frame en)), take (td_bytes (zero_frame en)) (td_frame_buf (zero_frame en)))] = [?x]"
    "\<not> td_stop (zero_frame en)"
    by (simp_all add: one_frame_def threads_start_def)
  obtain c where c: "tstep Little_Endian {} (zero_frame en) c" "td_stored c = [?x]" "\<not> td_stop c"
    by (rule frame_is_stored [OF threads_reach(1) [OF en(1) r] act]) (use x in auto)
  note rc = rtranclp.rtrancl_into_rtrancl [OF r c(1)]
  from stored_frames_delivered [OF en(1) rc c(3)] obtain c' where
    "(tstep Little_Endian {})\<^sup>*\<^sup>* c c'" "prefix (td_stored c) (td_stored c')" "td_taken c' = td_stored c'" by blast
  with c(2) rc en(1) show ?thesis by (intro exI [of _ en] exI [of _ os1] exI [of _ c] exI [of _ c']) simp
qed

end
