(* ===== verification/Capture_Thread.thy ===== *)
theory Capture_Thread
  imports Threaded_Progress
begin

text \<open>
  The capture thread of the running engine is \<open>captureLoop\<close>: whatever the kernel answers and however many frames
  the consumer takes, each run of \<open>captureLoop\<close> of \<open>Capture_Session\<close>, with its epoll loop, its batches and its early
  exits, is a run of the interleaved engine in which the same frames are received, stored and taken. So the
  properties of \<open>Threaded_Engine\<close> hold for the loop that the code has. The consumer that \<open>Capture_Session\<close> leaves to
  the environment is the pipeline thread here. It may also take frames after the stop flag was set, as the real one does
  with a frame for which it already is in \<open>read\<close>; the run of the engine then has the signal at the end, when
  the capture thread leaves its loop.
\<close>

text \<open>The same frames so far.\<close>

definition same_frames :: "byte_order \<Rightarrow> capture \<Rightarrow> threaded \<Rightarrow> bool" where
  "same_frames e s c \<longleftrightarrow> packet_frames e (td_buf c) = packet_frames e (cap_packet_buf s)
     \<and> map snd (td_received c) = cap_received s \<and> td_stored c = cap_stored s \<and> td_taken c = cap_delivered s"

text \<open>Between two frames: the capture thread at the head of its loop, the pipeline thread too, and a signal still
  to come unless the flag is set.\<close>

definition at_rest :: "threaded \<Rightarrow> bool" where
  "at_rest c \<longleftrightarrow> td_prod c = P_Loop \<and> td_cons c = C_Loop \<and> td_owner c = None \<and> td_handler c = H_Idle
     \<and> (\<not> td_stop c \<longrightarrow> 0 < td_signals c)"

definition capture_sim :: "kernel_env \<Rightarrow> LocalIpSet \<Rightarrow> threaded \<Rightarrow> capture \<Rightarrow> threaded \<Rightarrow> bool" where
  "capture_sim env ips c0 s c \<longleftrightarrow> (tstep (ke_order env) ips)\<^sup>*\<^sup>* c0 c \<and> threaded_inv (ke_order env) ips c \<and> at_rest c
     \<and> \<not> td_stop c
     \<and> length (cap_frame_buf s) = FRAME_BUF_SIZE \<and> packet_inv (cap_packet_buf s)
     \<and> rb_capacity (td_buf c) = rb_capacity (cap_packet_buf s) \<and> same_frames (ke_order env) s c"

definition capture_done :: "kernel_env \<Rightarrow> LocalIpSet \<Rightarrow> threaded \<Rightarrow> capture \<Rightarrow> threaded \<Rightarrow> bool" where
  "capture_done env ips c0 s c \<longleftrightarrow> (tstep (ke_order env) ips)\<^sup>*\<^sup>* c0 c \<and> td_prod c = P_Done \<and> same_frames (ke_order env) s c
     \<and> td_stop c = ke_stop env (cap_calls s)"

text \<open>Asleep in a write, with the frame at hand received and not stored.\<close>

definition capture_asleep :: "kernel_env \<Rightarrow> LocalIpSet \<Rightarrow> threaded \<Rightarrow> capture \<Rightarrow> threaded \<Rightarrow> bool" where
  "capture_asleep env ips c0 s c \<longleftrightarrow> (tstep (ke_order env) ips)\<^sup>*\<^sup>* c0 c \<and> td_prod c = P_Asleep \<and> same_frames (ke_order env) s c
     \<and> isFull (td_buf c) \<and> \<not> td_stop c \<and> td_frame_buf c = cap_frame_buf s"

lemma same_frames_emit [simp]: "same_frames e (cap_emit x s) c = same_frames e s c"
  by (simp add: same_frames_def)

lemma capture_sim_emit: "capture_sim env ips c0 s c \<Longrightarrow> capture_sim env ips c0 (cap_emit x s) c"
  by (simp add: capture_sim_def)

lemma capture_done_emit:
  "env_ok env \<Longrightarrow> ke_stop env (cap_calls s) \<Longrightarrow> capture_done env ips c0 s c \<Longrightarrow> capture_done env ips c0 (cap_emit x s) c"
  by (simp add: capture_done_def env_ok_def)

lemma isFull_frames: "packet_inv pb \<Longrightarrow> isFull pb \<longleftrightarrow> length (packet_frames e pb) = unat (rb_capacity pb)"
  using isFull_iff [of pb] by (simp add: packet_inv_def packet_frames_def)

lemma capture_sim_full:
  assumes "capture_sim env ips c0 s c"
  shows "isFull (td_buf c) \<longleftrightarrow> isFull (cap_packet_buf s)"
proof -
  have "packet_inv (td_buf c)" using assms by (simp add: capture_sim_def threaded_inv_def engine_inv_def)
  then show ?thesis using assms isFull_frames [of _ "ke_order env"] by (simp add: capture_sim_def same_frames_def)
qed

lemma run_inv: "(tstep e ips)\<^sup>*\<^sup>* c c' \<Longrightarrow> threaded_inv e ips c \<Longrightarrow> threaded_inv e ips c'"
  using threads.run_sim by blast


subsection \<open>The pipeline thread takes frames\<close>

lemma consume_one:
  assumes "capture_sim env ips c0 s c"
    and "packet_frames (ke_order env) (cap_packet_buf s) = f # packet_frames (ke_order env) pb" and "packet_inv pb"
    and "unat (rb_capacity pb) = unat (rb_capacity (cap_packet_buf s))"
  shows "\<exists>c'. capture_sim env ips c0 (s\<lparr>cap_packet_buf := pb, cap_delivered := cap_delivered s @ [f]\<rparr>) c'"
proof -
  note i = assms(1) [unfolded capture_sim_def at_rest_def same_frames_def]
  obtain ts d where f: "f = (ts, d)" by (cases f)
  have fr: "packet_frames (ke_order env) (td_buf c) = (ts, d) # packet_frames (ke_order env) pb" using i assms(2) f by simp
  from i have st: "threaded_inv (ke_order env) ips c" "td_cons c = C_Loop" "td_owner c = None" "\<not> td_stop c" by simp_all
  show ?thesis
  proof (rule frame_is_taken [OF st fr])
    fix ff en
    let ?c = "c\<lparr>td_cons := C_Loop, td_owner := None, td_prod := wake_producer (td_prod c), td_filtered := ff,
      td_engine := en, td_taken := td_taken c @ [(ts, d)]\<rparr>"
    assume en: "packet_frames (ke_order env) (en_packet_buf en) = packet_frames (ke_order env) pb"
      "rb_capacity (en_packet_buf en) = rb_capacity (td_buf c)" and r: "(tstep (ke_order env) ips)\<^sup>*\<^sup>* c ?c"
    have "(tstep (ke_order env) ips)\<^sup>*\<^sup>* c0 ?c" using i r by (meson rtranclp_trans)
    moreover have "rb_capacity pb = rb_capacity (cap_packet_buf s)" using assms(4) by (simp add: word_unat_eq_iff)
    ultimately have "capture_sim env ips c0 (s\<lparr>cap_packet_buf := pb, cap_delivered := cap_delivered s @ [f]\<rparr>) ?c"
      using i en assms(3) run_inv [OF r st(1)] f
      by (simp add: capture_sim_def at_rest_def same_frames_def wake_producer_def)
    then show ?thesis by blast
  qed
qed

lemma consume_sim:
  "capture_sim env ips c0 s c \<Longrightarrow> consume (ke_order env) n (cap_packet_buf s) = (fs, pb) \<Longrightarrow>
    \<exists>c'. capture_sim env ips c0 (s\<lparr>cap_packet_buf := pb, cap_delivered := cap_delivered s @ fs\<rparr>) c'"
proof (induction n arbitrary: s c fs)
  case 0
  then show ?case by (intro exI [of _ c]) auto
next
  case (Suc n)
  have "packet_inv (cap_packet_buf s)" using Suc.prems(1) by (simp add: capture_sim_def)
  then show ?case
  proof (cases rule: pbq.get_cases [where e = "ke_order env"])
    case 1
    then show ?thesis using Suc.prems by (intro exI [of _ c]) auto
  next
    case (2 f q)
    obtain gs where gs: "consume (ke_order env) n q = (gs, pb)" "fs = f # gs" using Suc.prems(2) 2(1) by (auto split: prod.splits)
    obtain c1 where "capture_sim env ips c0 (s\<lparr>cap_packet_buf := q, cap_delivered := cap_delivered s @ [f]\<rparr>) c1"
      using consume_one [OF Suc.prems(1) 2(3,2,4)] by blast
    from Suc.IH [OF this] gs show ?thesis by simp
  qed
qed


subsection \<open>Signals and frames\<close>

text \<open>A signal, when no thread is asleep.\<close>

lemma signal_arrives:
  assumes "td_handler c = H_Idle" and "0 < td_signals c" and "td_prod c \<noteq> P_Asleep" and "td_cons c \<noteq> C_Asleep"
  obtains n where "(tstep e ips)\<^sup>*\<^sup>* c (c\<lparr>td_signals := n, td_stop := True\<rparr>)"
proof -
  obtain n where n: "td_signals c = Suc n" using assms(2) by (cases "td_signals c") auto
  let ?c1 = "c\<lparr>td_handler := H_Notify_Data, td_signals := n, td_stop := True\<rparr>"
  let ?c2 = "?c1\<lparr>td_handler := H_Notify_Space, td_cons := wake_consumer (td_cons ?c1)\<rparr>"
  let ?c3 = "?c2\<lparr>td_handler := H_Idle, td_prod := wake_producer (td_prod ?c2)\<rparr>"
  have "tstep e ips c ?c1" by (rule t_sig_store) (use assms n in simp_all)
  then have "(tstep e ips)\<^sup>*\<^sup>* c ?c1" by (rule r_into_rtranclp)
  moreover have "tstep e ips ?c1 ?c2" by (rule t_sig_data) simp
  ultimately have "(tstep e ips)\<^sup>*\<^sup>* c ?c2" by (rule rtranclp.rtrancl_into_rtrancl)
  moreover have "tstep e ips ?c2 ?c3" by (rule t_sig_space) simp
  ultimately have "(tstep e ips)\<^sup>*\<^sup>* c ?c3" by (rule rtranclp.rtrancl_into_rtrancl)
  moreover have "?c3 = c\<lparr>td_signals := n, td_stop := True\<rparr>"
    by (rule threaded.equality) (use assms in \<open>simp_all add: wake_consumer_def wake_producer_def\<close>)
  ultimately show thesis using that by simp
qed

lemma stop_requested:
  assumes "capture_sim env ips c0 s c"
  obtains c' where "(tstep (ke_order env) ips)\<^sup>*\<^sup>* c0 c'" "threaded_inv (ke_order env) ips c'" "at_rest c'" "td_stop c'"
    "same_frames (ke_order env) s c'" "td_engine c' = td_engine c"
proof -
  note i = assms [unfolded capture_sim_def at_rest_def same_frames_def]
  obtain n where r: "(tstep (ke_order env) ips)\<^sup>*\<^sup>* c (c\<lparr>td_signals := n, td_stop := True\<rparr>)"
    by (rule signal_arrives [of c]) (use i in simp_all)
  have "threaded_inv (ke_order env) ips c" using i by simp
  from run_inv [OF r this] rtranclp_trans [OF conjunct1 [OF i] r] show thesis
    by (intro that [of "c\<lparr>td_signals := n, td_stop := True\<rparr>"]) (use i in \<open>simp_all add: at_rest_def same_frames_def\<close>)
qed

text \<open>The loop is left at its head, because of a stop request or of an error.\<close>

lemma loop_exit:
  assumes "capture_sim env ips c0 s c"
  shows "\<exists>c'. capture_done env ips c0 s c'"
proof (cases "ke_stop env (cap_calls s)")
  case True
  obtain c1 where c1: "(tstep (ke_order env) ips)\<^sup>*\<^sup>* c0 c1" "at_rest c1" "td_stop c1" "same_frames (ke_order env) s c1"
    by (rule stop_requested [OF assms])
  have "tstep (ke_order env) ips c1 (c1\<lparr>td_prod := P_Done\<rparr>)" by (rule t_prod_stop) (use c1 in \<open>simp_all add: at_rest_def\<close>)
  with c1(1) have "(tstep (ke_order env) ips)\<^sup>*\<^sup>* c0 (c1\<lparr>td_prod := P_Done\<rparr>)" by (rule rtranclp.rtrancl_into_rtrancl)
  then show ?thesis using c1 True by (intro exI [of _ "c1\<lparr>td_prod := P_Done\<rparr>"]) (simp add: capture_done_def same_frames_def)
next
  case False
  note i = assms [unfolded capture_sim_def at_rest_def]
  have "tstep (ke_order env) ips c (c\<lparr>td_prod := P_Done\<rparr>)" by (rule t_prod_error) (use i in simp)
  then have "(tstep (ke_order env) ips)\<^sup>*\<^sup>* c0 (c\<lparr>td_prod := P_Done\<rparr>)" using i by (meson rtranclp.rtrancl_into_rtrancl)
  then show ?thesis using i False by (intro exI [of _ "c\<lparr>td_prod := P_Done\<rparr>"]) (simp add: capture_done_def same_frames_def)
qed

text \<open>A frame is received and the capture thread has the mutex, before it tests for room.\<close>

definition frame_at_hand :: "threaded \<Rightarrow> u8 list \<Rightarrow> nat \<Rightarrow> int \<Rightarrow> threaded" where
  "frame_at_hand c fb n clock = c\<lparr>td_frame_buf := fb, td_bytes := n, td_clock := clock,
     td_received := td_received c @ [(nowMillis clock, take n fb)], td_prod := P_Test, td_owner := Some Prod\<rparr>"

lemma frame_arrives:
  assumes "at_rest c" and "length fb = 2040" and "1 \<le> n" and "n \<le> 2040"
  shows "(tstep e ips)\<^sup>*\<^sup>* c (frame_at_hand c fb n clock)"
proof -
  let ?c1 = "c\<lparr>td_prod := P_Lock, td_frame_buf := fb, td_bytes := n, td_clock := clock,
      td_received := td_received c @ [(nowMillis clock, take n fb)]\<rparr>"
  let ?c2 = "?c1\<lparr>td_prod := P_Test, td_owner := Some Prod\<rparr>"
  have "tstep e ips c ?c1" by (rule t_prod_frame) (use assms in \<open>simp_all add: at_rest_def\<close>)
  then have "(tstep e ips)\<^sup>*\<^sup>* c ?c1" by (rule r_into_rtranclp)
  moreover have "tstep e ips ?c1 ?c2" by (rule t_prod_lock) (use assms in \<open>simp_all add: at_rest_def\<close>)
  ultimately have "(tstep e ips)\<^sup>*\<^sup>* c ?c2" by (rule rtranclp.rtrancl_into_rtrancl)
  moreover have "?c2 = frame_at_hand c fb n clock" by (rule threaded.equality) (simp_all add: frame_at_hand_def)
  ultimately show ?thesis by simp
qed

text \<open>The outcomes of the write that follows.\<close>

lemma hand_fields [simp]:
  "td_engine (frame_at_hand c fb n clock) = td_engine c" "td_stop (frame_at_hand c fb n clock) = td_stop c"
  "td_prod (frame_at_hand c fb n clock) = P_Test"
  by (simp_all add: frame_at_hand_def)

lemma frame_goes_in:
  assumes inv: "threaded_inv e ips c" and rest: "at_rest c" and room: "\<not> isFull (td_buf c)"
    and n: "1 \<le> n" "n \<le> 2040" and fb: "length fb = 2040"
  obtains c' q where "(tstep e ips)\<^sup>*\<^sup>* c c'" "at_rest c'" "td_engine c' = (td_engine c)\<lparr>en_packet_buf := q\<rparr>"
    "packet_frames e q = packet_frames e (td_buf c) @ [(nowMillis clock, take n fb)]" "rb_capacity q = rb_capacity (td_buf c)"
    "td_stop c' = td_stop c" "td_taken c' = td_taken c" "td_stored c' = td_stored c @ [(nowMillis clock, take n fb)]"
    "td_received c' = td_received c @ [(nowMillis clock, take n fb)]"
proof -
  let ?c1 = "frame_at_hand c fb n clock"
  let ?c2 = "?c1\<lparr>td_prod := P_Act\<rparr>"
  have "tstep e ips ?c1 ?c2" by (rule t_prod_pass) (use room in simp_all)
  with frame_arrives [OF rest fb n] have r2: "(tstep e ips)\<^sup>*\<^sup>* c ?c2" by (rule rtranclp.rtrancl_into_rtrancl)
  note inv2 = run_inv [OF r2 inv]
  have c2: "td_prod ?c2 = P_Act" "\<not> isFull (td_buf ?c2)" using room by simp_all
  show thesis
  proof (rule frame_is_stored [OF inv2 c2])
    fix q
    let ?c3 = "?c2\<lparr>td_prod := P_Loop, td_owner := None, td_engine := (td_engine ?c2)\<lparr>en_packet_buf := q\<rparr>,
      td_cons := wake_consumer (td_cons ?c2),
      td_stored := td_stored ?c2 @ [(nowMillis (td_clock ?c2), take (td_bytes ?c2) (td_frame_buf ?c2))]\<rparr>"
    assume q: "rb_capacity q = rb_capacity (td_buf ?c2)" "packet_frames e q = packet_frames e (td_buf ?c2)
        @ [(nowMillis (td_clock ?c2), take (td_bytes ?c2) (td_frame_buf ?c2))]" and st: "tstep e ips ?c2 ?c3"
    have "(tstep e ips)\<^sup>*\<^sup>* c ?c3" using r2 st by (rule rtranclp.rtrancl_into_rtrancl)
    then show thesis by (rule that [where q = q]) (use q rest in \<open>simp_all add: frame_at_hand_def at_rest_def wake_consumer_def\<close>)
  qed
qed

lemma write_stores:
  assumes sim: "capture_sim env ips c0 s c" and room: "\<not> isFull (cap_packet_buf s)" and n: "1 \<le> n" "n \<le> 2040" and fb: "length fb = 2040"
    and pb: "packet_inv pb" "packet_frames (ke_order env) pb = packet_frames (ke_order env) (cap_packet_buf s) @ [(nowMillis clock, take n fb)]"
      "rb_capacity pb = rb_capacity (cap_packet_buf s)"
    and s': "cap_packet_buf s' = pb" "cap_stored s' = cap_stored s @ [(nowMillis clock, take n fb)]" "cap_delivered s' = cap_delivered s"
      "cap_received s' = cap_received s @ [take n fb]" "length (cap_frame_buf s') = 2040"
  shows "\<exists>c'. capture_sim env ips c0 s' c'"
proof -
  note i = sim [unfolded capture_sim_def same_frames_def]
  have nf: "\<not> isFull (td_buf c)" using capture_sim_full [OF sim] room by simp
  have st: "threaded_inv (ke_order env) ips c" "at_rest c" using i by simp_all
  obtain c' q where r: "(tstep (ke_order env) ips)\<^sup>*\<^sup>* c c'" and c': "at_rest c'" "td_engine c' = (td_engine c)\<lparr>en_packet_buf := q\<rparr>"
    "packet_frames (ke_order env) q = packet_frames (ke_order env) (td_buf c) @ [(nowMillis clock, take n fb)]" "rb_capacity q = rb_capacity (td_buf c)"
    "td_stop c' = td_stop c" "td_taken c' = td_taken c" "td_stored c' = td_stored c @ [(nowMillis clock, take n fb)]"
    "td_received c' = td_received c @ [(nowMillis clock, take n fb)]"
    by (rule frame_goes_in [OF st nf n fb, of clock])
  from run_inv [OF r st(1)] rtranclp_trans [OF conjunct1 [OF i] r] have "capture_sim env ips c0 s' c'"
    using i c' pb s' by (simp add: capture_sim_def same_frames_def FRAME_BUF_SIZE_def)
  then show ?thesis by blast
qed

lemma write_blocks:
  assumes sim: "capture_sim env ips c0 s c" and full: "isFull (cap_packet_buf s)" and n: "1 \<le> n" "n \<le> 2040" and fb: "length fb = 2040"
    and s': "cap_packet_buf s' = cap_packet_buf s" "cap_stored s' = cap_stored s" "cap_delivered s' = cap_delivered s"
      "cap_received s' = cap_received s @ [take n fb]" "cap_frame_buf s' = fb"
  shows "\<exists>c'. capture_asleep env ips c0 s' c'"
proof -
  let ?e = "ke_order env" and ?c1 = "frame_at_hand c fb n 0"
  let ?c2 = "?c1\<lparr>td_prod := P_Block\<rparr>"
  let ?c3 = "?c2\<lparr>td_prod := P_Asleep, td_owner := None\<rparr>"
  note i = sim [unfolded capture_sim_def same_frames_def]
  have rest: "at_rest c" using i by simp
  have fl: "isFull (td_buf ?c1)" using capture_sim_full [OF sim] full by simp
  then have s2: "tstep ?e ips ?c1 ?c2" by (intro t_prod_wait) (use i in simp_all)
  have "(tstep ?e ips)\<^sup>*\<^sup>* c0 ?c1" using i frame_arrives [OF rest fb n] by (meson rtranclp_trans)
  with s2 have "(tstep ?e ips)\<^sup>*\<^sup>* c0 ?c2" by (simp add: rtranclp.rtrancl_into_rtrancl)
  moreover have "tstep ?e ips ?c2 ?c3" by (rule t_prod_block) simp
  ultimately have "(tstep ?e ips)\<^sup>*\<^sup>* c0 ?c3" by (rule rtranclp.rtrancl_into_rtrancl)
  then have "capture_asleep env ips c0 s' ?c3" using i s' fl by (simp add: capture_asleep_def same_frames_def frame_at_hand_def)
  then show ?thesis by blast
qed

lemma write_gives_up:
  assumes sim: "capture_sim env ips c0 s c" and full: "isFull (cap_packet_buf s)" and n: "1 \<le> n" "n \<le> 2040" and fb: "length fb = 2040"
    and s': "cap_packet_buf s' = cap_packet_buf s" "cap_stored s' = cap_stored s" "cap_delivered s' = cap_delivered s"
      "cap_received s' = cap_received s @ [take n fb]" "ke_stop env (cap_calls s')"
  shows "\<exists>c'. capture_done env ips c0 s' c'"
proof -
  let ?e = "ke_order env"
  obtain c1 where c1: "(tstep ?e ips)\<^sup>*\<^sup>* c0 c1" "threaded_inv ?e ips c1" "at_rest c1" "td_stop c1" "same_frames ?e s c1"
    "td_engine c1 = td_engine c" by (rule stop_requested [OF sim])
  let ?c2 = "(frame_at_hand c1 fb n 0)\<lparr>td_prod := P_Act\<rparr>"
  have fl: "isFull (td_buf ?c2)" using capture_sim_full [OF sim] full c1(6) by simp
  have "tstep ?e ips (frame_at_hand c1 fb n 0) ?c2" by (rule t_prod_pass) (use c1(4) in simp_all)
  with frame_arrives [OF c1(3) fb n] have r2: "(tstep ?e ips)\<^sup>*\<^sup>* c1 ?c2" by (rule rtranclp.rtrancl_into_rtrancl)
  have inv2: "threaded_inv ?e ips ?c2" by (rule run_inv [OF r2 c1(2)])
  have act: "td_prod ?c2 = P_Act" and slot: "length (replicate 2048 (0 :: u8)) = 2048" by simp_all
  have w: "packet_write ?e (td_clock ?c2) (replicate 2048 0) True (td_stop ?c2) (td_frame_buf ?c2) (of_nat (td_bytes ?c2)) (td_buf ?c2)
      = Returns (False, td_buf ?c2)"
    by (rule write_after_wait [OF inv2 act slot]) (use fl in simp_all)
  let ?c3 = "?c2\<lparr>td_prod := P_Done, td_owner := None, td_engine := (td_engine ?c2)\<lparr>en_packet_buf := td_buf ?c2\<rparr>\<rparr>"
  have "tstep ?e ips ?c2 ?c3" by (rule t_prod_give_up [OF act slot w]) (use c1(4) in simp)
  with r2 have "(tstep ?e ips)\<^sup>*\<^sup>* c1 ?c3" by (rule rtranclp.rtrancl_into_rtrancl)
  with c1(1) have "(tstep ?e ips)\<^sup>*\<^sup>* c0 ?c3" by (rule rtranclp_trans)
  then have "capture_done env ips c0 s' ?c3" using c1(4,5) s' by (simp add: capture_done_def same_frames_def frame_at_hand_def)
  then show ?thesis by blast
qed


subsection \<open>The whole loop\<close>

lemma receive_sim:
  assumes env: "env_ok env" and sim0: "capture_sim env ips c0 s c" and n: "n = min (length data) FRAME_BUF_SIZE" "n \<noteq> 0"
  shows "case capture_write env n (frame_received n data (cap_emit Recvfrom s)) of
      Waits s' \<Rightarrow> (\<exists>c'. capture_asleep env ips c0 s' c') | Faults \<Rightarrow> False
    | Ends (ok, s') \<Rightarrow> if ok then \<exists>c'. capture_sim env ips c0 s' c'
        else (\<exists>c'. capture_done env ips c0 s' c') \<and> ke_stop env (cap_calls s')"
proof -
  let ?e = "ke_order env" and ?t = "cap_emit Recvfrom s"
  let ?h = "cap_calls ?t" and ?fb = "take n data @ drop n (cap_frame_buf s)"
  note sim = capture_sim_emit [OF sim0, of Recvfrom]
  have mono: "ke_stop env h \<Longrightarrow> ke_stop env (x # h)" and slot: "length (ke_slot env h) = 2048" for h x
    using env by (simp_all add: env_ok_def)
  have len: "length ?fb = 2040" "1 \<le> n" "n \<le> 2040" "take n ?fb = take n data"
    using sim0 n by (simp_all add: capture_sim_def FRAME_BUF_SIZE_def Suc_le_eq)
  obtain fs pb where c: "consume ?e (ke_taken env ?h) (cap_packet_buf s) = (fs, pb)" by fastforce
  let ?s1 = "?t\<lparr>cap_packet_buf := pb, cap_delivered := cap_delivered s @ fs\<rparr>"
  obtain c1 where c1: "capture_sim env ips c0 ?s1 c1" using consume_sim [OF sim, of "ke_taken env ?h" fs pb] c by auto
  let ?sw = "ke_stop env (Write_Wait # ?h)" and ?sa = "ke_stop env (Write_Check # Write_Wait # ?h)" and ?clock = "ke_clock env ?h"
  have pb: "packet_inv pb" using c1 by (simp add: capture_sim_def)
  have u: "unat (of_nat n :: size_t) = n" using len by (simp add: unat_of_nat take_bit_nat_eq_self)
  have sz: "1 \<le> unat (of_nat n :: size_t)" "unat (of_nat n :: size_t) \<le> 2040" "unat (of_nat n :: size_t) \<le> length ?fb" using len u by simp_all
  let ?w = "\<lambda>pb' calls stored. \<lparr>cap_frame_buf = ?fb, cap_packet_buf = pb', cap_calls = calls, cap_received = cap_received s @ [take n data],
    cap_stored = stored, cap_delivered = cap_delivered s @ fs\<rparr>"
  have w: "capture_write env n (frame_received n data ?t) =
    (case packet_write ?e ?clock (ke_slot env ?h) ?sw ?sa ?fb (of_nat n) pb of
       Blocks \<Rightarrow> Waits (?w pb (Write_Wait # ?h) (cap_stored s)) | Undefined \<Rightarrow> Faults
     | Returns (ok, pb') \<Rightarrow> Ends (ok, ?w pb' (Write_Check # Write_Wait # ?h)
         (if ok then cap_stored s @ [(nowMillis ?clock, take n ?fb)] else cap_stored s)))"
    by (cases s) (use c in \<open>simp add: capture_write_def frame_received_def Let_def cap_emit_def split: outcome.splits\<close>)
  have m: "?sw \<longrightarrow> ?sa" using mono by blast
  from packet_write_outcome [OF pb slot [of ?h] sz m, of ?e ?clock]
  consider (stored) pb' where "\<not> isFull pb" "packet_write ?e ?clock (ke_slot env ?h) ?sw ?sa ?fb (of_nat n) pb = Returns (True, pb')" "packet_inv pb'"
      "packet_frames ?e pb' = packet_frames ?e pb @ [(nowMillis ?clock, take n ?fb)]" "rb_capacity pb' = rb_capacity pb"
    | (blocked) "isFull pb" "packet_write ?e ?clock (ke_slot env ?h) ?sw ?sa ?fb (of_nat n) pb = Blocks"
    | (given_up) "isFull pb" ?sw "packet_write ?e ?clock (ke_slot env ?h) ?sw ?sa ?fb (of_nat n) pb = Returns (False, pb)"
    unfolding u by blast
  then show ?thesis
  proof cases
    case stored
    have "\<exists>c'. capture_sim env ips c0 (?w pb' (Write_Check # Write_Wait # ?h) (cap_stored s @ [(nowMillis ?clock, take n ?fb)])) c'"
      by (rule write_stores [OF c1 _ len(2,3,1) stored(3), where clock = ?clock]) (use stored len in simp_all)
    then show ?thesis unfolding w stored(2) by simp
  next
    case blocked
    have "\<exists>c'. capture_asleep env ips c0 (?w pb (Write_Wait # ?h) (cap_stored s)) c'"
      by (rule write_blocks [OF c1 _ len(2,3,1)]) (use blocked(1) len in simp_all)
    then show ?thesis unfolding w blocked(2) by simp
  next
    case given_up
    have "\<exists>c'. capture_done env ips c0 (?w pb (Write_Check # Write_Wait # ?h) (cap_stored s)) c'"
      by (rule write_gives_up [OF c1 _ len(2,3,1)]) (use given_up(1,2) len m in simp_all)
    then show ?thesis unfolding w given_up(3) using given_up(2) mono by simp
  qed
qed

interpretation cap_thread: capture_run env "\<lambda>s. env_ok env \<and> (\<exists>c. capture_sim env ips c0 s c)"
    "\<lambda>s. env_ok env \<and> ke_stop env (cap_calls s) \<and> (\<exists>c. capture_done env ips c0 s c)"
    "\<lambda>s. \<exists>c. capture_asleep env ips c0 s c" for env ips c0
proof unfold_locales
  fix s n and data :: "u8 list"
  assume a: "env_ok env \<and> (\<exists>c. capture_sim env ips c0 s c)" and n: "n = min (length data) FRAME_BUF_SIZE" "n \<noteq> 0"
  from a obtain c where "capture_sim env ips c0 s c" by blast
  from receive_sim [OF conjunct1 [OF a] this n] a
  show "case capture_write env n (frame_received n data (cap_emit Recvfrom s)) of
      Waits s' \<Rightarrow> \<exists>c. capture_asleep env ips c0 s' c | Faults \<Rightarrow> False
    | Ends (ok, s') \<Rightarrow> if ok then env_ok env \<and> (\<exists>c. capture_sim env ips c0 s' c)
        else (env_ok env \<and> ke_stop env (cap_calls s') \<and> (\<exists>c. capture_done env ips c0 s' c)) \<and> ke_stop env (Stop_Load # cap_calls s')"
    by (auto simp: env_ok_def split: ending.splits if_splits)
next
  fix s x
  assume "env_ok env \<and> ke_stop env (cap_calls s) \<and> (\<exists>c. capture_done env ips c0 s c)"
  then show "env_ok env \<and> ke_stop env (cap_calls (cap_emit x s)) \<and> (\<exists>c. capture_done env ips c0 (cap_emit x s) c)"
    using capture_done_emit [of env s ips c0 _ x] by (force simp: env_ok_def)
qed (auto intro: capture_sim_emit)

text \<open>How \<open>captureLoop\<close> starts in the engine.\<close>

definition capture_start :: "engine \<Rightarrow> capture" where
  "capture_start en = \<lparr>cap_frame_buf = replicate 2040 0, cap_packet_buf = en_packet_buf en, cap_calls = [], cap_received = [],
     cap_stored = [], cap_delivered = []\<rparr>"

lemma capture_start_sim:
  assumes "main_setup env0 broker alloc_ok os0 = (Started en, os1)" and "0 < signals"
  shows "capture_sim env ips (threads_start en signals) (capture_start en) (threads_start en signals)"
proof -
  have "engine_inv en" using main_setup_started(1) [OF assms(1)] .
  then show ?thesis
    using threads_start_inv(1) [OF assms(1), of "ke_order env" ips signals] main_setup_started(2) [OF assms(1), of "ke_order env"] assms(2)
    by (simp add: capture_sim_def at_rest_def same_frames_def threads_start_def capture_start_def FRAME_BUF_SIZE_def engine_inv_def)
qed


subsection \<open>Properties\<close>

text \<open>C6: Thread 1 of the running engine is \<open>captureLoop\<close>: started on the packet buffer of the engine, with any
  kernel, clock and arrival of a stop request and with a consumer that takes any number of frames
  before each write (also after the stop request), it does nothing undefined. When it returns, a run of the
  interleaved engine ends with the capture thread finished, exactly the same frames received, stored, taken and left
  in the buffer, and the stop flag set exactly if it is set for the loop. When it waits in a write, such a run leads
  to the capture thread asleep in \<open>PacketBuffer::write\<close>, with the same frames and the same frame at hand, a full
  buffer and no stop request. The stop flag of the environment never goes back to false, and its \<open>slot_buf\<close> has
  2048 bytes (\<open>env_ok\<close>).\<close>

theorem captureLoop_is_thread:
  assumes "main_setup env0 broker alloc_ok os0 = (Started en, os1)" and "env_ok env" and "0 < signals"
    and "captureLoop env fuel fd (capture_start en) = Some r"
  shows "case r of
      Ends s \<Rightarrow> \<exists>c. (tstep (ke_order env) ips)\<^sup>*\<^sup>* (threads_start en signals) c \<and> td_prod c = P_Done
        \<and> map snd (td_received c) = cap_received s \<and> td_stored c = cap_stored s \<and> td_taken c = cap_delivered s
        \<and> packet_frames (ke_order env) (td_buf c) = packet_frames (ke_order env) (cap_packet_buf s)
        \<and> td_stop c = ke_stop env (cap_calls s)
    | Waits s \<Rightarrow> \<exists>c. (tstep (ke_order env) ips)\<^sup>*\<^sup>* (threads_start en signals) c \<and> td_prod c = P_Asleep
        \<and> map snd (td_received c) = cap_received s \<and> td_stored c = cap_stored s \<and> td_taken c = cap_delivered s
        \<and> packet_frames (ke_order env) (td_buf c) = packet_frames (ke_order env) (cap_packet_buf s)
        \<and> td_frame_buf c = cap_frame_buf s \<and> isFull (td_buf c) \<and> \<not> td_stop c
    | Faults \<Rightarrow> False"
proof -
  let ?c0 = "threads_start en signals"
  have "env_ok env \<and> (\<exists>c. capture_sim env ips ?c0 (capture_start en) c)"
    using assms(2) capture_start_sim [OF assms(1,3)] by blast
  note post = cap_thread.captureLoop_post [OF this, of fuel fd, unfolded assms(4)]
  show ?thesis
  proof (cases r)
    case (Ends s)
    then have "(\<exists>c. capture_sim env ips ?c0 s c) \<or> (\<exists>c. capture_done env ips ?c0 s c)" using post by auto
    then obtain c where "capture_done env ips ?c0 s c" using loop_exit by blast
    then show ?thesis unfolding Ends by (auto simp: capture_done_def same_frames_def)
  next
    case (Waits s)
    then obtain c where "capture_asleep env ips ?c0 s c" using post by auto
    then show ?thesis unfolding Waits by (auto simp: capture_asleep_def same_frames_def)
  qed (use post in simp)
qed

text \<open>The pipeline of \<open>busy_kernel\<close> goes on taking frames after the stop request.\<close>

theorem captureLoop_is_thread_witness:
  "\<exists>en os1 s c. main_setup plain_os agreeable (\<lambda>_ _. True) boot_state = (Started en, os1)
    \<and> captureLoop busy_kernel (Suc 100) 3 (capture_start en) = Some (Ends s)
    \<and> (tstep Little_Endian {})\<^sup>*\<^sup>* (threads_start en 1) c \<and> td_prod c = P_Done \<and> td_stored c = cap_stored s"
proof -
  obtain en os1 where en: "main_setup plain_os agreeable (\<lambda>_ _. True) boot_state = (Started en, os1)" by (rule plain_engine_starts)
  have pb: "packet_inv (en_packet_buf en)" using main_setup_started(1) [OF en] by (simp add: engine_inv_def)
  obtain r where r: "captureLoop busy_kernel (Suc 100) 3 (capture_start en) = Some r"
    using captureLoop_returns [OF busy_kernel_ok(2)] by blast
  have "r \<noteq> Waits s" for s using busy_kernel_never_waits [OF _ _ _ _ _ r, of s] pb by (simp add: capture_start_def)
  with captureLoop_is_thread [OF en busy_kernel_ok(1) _ r, of 1 "{}"] obtain s c where "r = Ends s"
    "(tstep Little_Endian {})\<^sup>*\<^sup>* (threads_start en 1) c" "td_prod c = P_Done" "td_stored c = cap_stored s"
    by (cases r) (auto simp: busy_kernel_def)
  with en r show ?thesis by blast
qed

end
