(* ===== verification/Pipeline_Thread.thy ===== *)
theory Pipeline_Thread
  imports Capture_Thread
begin

text \<open>
  The pipeline thread of the running engine is the loop of thread 2 in \<open>src/main.cpp\<close>: each run of
  \<open>pipeline_loop\<close> of \<open>Engine\<close>, for any turns, is a run of the interleaved engine that takes the same frames
  and leaves the same flow table, the same calls to the broker and the same frame buffer. The frames
  that arrive before a turn are written by the capture thread.
\<close>

text \<open>Within a turn the stop flag is not cleared.\<close>

definition turn_mono :: "turn \<Rightarrow> bool" where
  "turn_mono t \<longleftrightarrow> turn_ok t \<and> (tn_stop_wait t \<longrightarrow> tn_stop_check t)"

definition same_engine :: "byte_order \<Rightarrow> engine \<Rightarrow> engine \<Rightarrow> bool" where
  "same_engine e s s' \<longleftrightarrow> engine_inv s \<and> packet_frames e (en_packet_buf s') = packet_frames e (en_packet_buf s)
     \<and> rb_capacity (en_packet_buf s') = rb_capacity (en_packet_buf s) \<and> en_frame_buf s' = en_frame_buf s
     \<and> en_flow_table s' = en_flow_table s \<and> en_publisher s' = en_publisher s"

text \<open>Between two turns no stop has been requested.\<close>

definition pipeline_sim :: "byte_order \<Rightarrow> LocalIpSet \<Rightarrow> threaded \<Rightarrow> engine \<Rightarrow> threaded \<Rightarrow> bool" where
  "pipeline_sim e ips c0 s c \<longleftrightarrow> (tstep e ips)\<^sup>*\<^sup>* c0 c \<and> threaded_inv e ips c \<and> at_rest c \<and> \<not> td_stop c \<and> same_engine e s (td_engine c)"

definition pipeline_done :: "byte_order \<Rightarrow> LocalIpSet \<Rightarrow> threaded \<Rightarrow> engine \<Rightarrow> threaded \<Rightarrow> bool" where
  "pipeline_done e ips c0 s c \<longleftrightarrow> (tstep e ips)\<^sup>*\<^sup>* c0 c \<and> td_cons c = C_Done \<and> same_engine e s (td_engine c)"

lemma same_engine_buf: "same_engine e s s' \<Longrightarrow> engine_inv s' \<Longrightarrow> isFull (en_packet_buf s') \<longleftrightarrow> isFull (en_packet_buf s)"
  using isFull_frames [of _ e] by (simp add: same_engine_def engine_inv_def)


subsection \<open>Frames arrive\<close>

lemma arrive_one:
  assumes "pipeline_sim e ips c0 s c" and "packet_put e x (en_packet_buf s) = Some pb"
  shows "\<exists>c'. pipeline_sim e ips c0 (s\<lparr>en_packet_buf := pb\<rparr>) c'"
proof -
  note i = assms(1) [unfolded pipeline_sim_def same_engine_def]
  have pbi: "packet_inv (en_packet_buf s)" using i by (simp add: engine_inv_def)
  from pbi obtain ps: "packet_inv pb" "packet_frames e pb = packet_frames e (en_packet_buf s) @ [x]"
    "unat (rb_capacity pb) = unat (rb_capacity (en_packet_buf s))" "capture_sized x"
    by (cases rule: pbq.put_cases [where e = e and f = x]) (use assms(2) in auto)
  have inv: "threaded_inv e ips c" "at_rest c" "engine_inv (td_engine c)" using i by (simp_all add: threaded_inv_def)
  have "length (packet_frames e pb) \<le> unat (rb_capacity pb)" using pbq.inv_bound [OF ps(1)] .
  then have "\<not> isFull (en_packet_buf s)" using isFull_frames [OF pbi, of e] ps(2,3) by simp
  then have room: "\<not> isFull (td_buf c)" using same_engine_buf [of e s "td_engine c"] assms(1) inv(3) by (simp add: pipeline_sim_def)
  obtain ts f where x: "x = (ts, f)" by (cases x)
  let ?fb = "f @ replicate (2040 - length f) 0" and ?clock = "uint ts * 1000000"
  have f: "1 \<le> length f" "length f \<le> 2040" "length ?fb = 2040" using ps(4) x by (simp_all add: capture_sized_def)
  have y: "(nowMillis ?clock, take (length f) ?fb) = x" by (simp add: nowMillis_def x)
  obtain c' q where r: "(tstep e ips)\<^sup>*\<^sup>* c c'" and c': "at_rest c'" "td_engine c' = (td_engine c)\<lparr>en_packet_buf := q\<rparr>"
    "packet_frames e q = packet_frames e (td_buf c) @ [(nowMillis ?clock, take (length f) ?fb)]" "rb_capacity q = rb_capacity (td_buf c)" "td_stop c' = td_stop c"
    by (rule frame_goes_in [OF inv(1,2) room f, of ?clock])
  from run_inv [OF r inv(1)] rtranclp_trans [OF conjunct1 [OF i] r]
  have "pipeline_sim e ips c0 (s\<lparr>en_packet_buf := pb\<rparr>) c'"
    using i c' ps(1,2,3) y by (simp add: pipeline_sim_def same_engine_def engine_inv_def word_unat_eq_iff)
  then show ?thesis by blast
qed

lemma arrive_sim:
  "pipeline_sim e ips c0 s c \<Longrightarrow> \<exists>c'. pipeline_sim e ips c0 (s\<lparr>en_packet_buf := arrive e xs (en_packet_buf s)\<rparr>) c'"
proof (induction xs arbitrary: s c)
  case (Cons x xs)
  show ?case
  proof (cases "packet_put e x (en_packet_buf s)")
    case None
    then show ?thesis using Cons.IH [OF Cons.prems] by simp
  next
    case (Some pb)
    from arrive_one [OF Cons.prems Some] obtain c' where "pipeline_sim e ips c0 (s\<lparr>en_packet_buf := pb\<rparr>) c'" by blast
    from Cons.IH [OF this] Some show ?thesis by simp
  qed
qed auto


subsection \<open>One turn\<close>

text \<open>A stop request ends the loop, at its head or at the check of an empty result.\<close>

lemma stops:
  assumes "(tstep e ips)\<^sup>*\<^sup>* c0 c" and "same_engine e s (td_engine c)" and "td_cons c \<in> {C_Loop, C_Check}"
    and "td_handler c = H_Idle" "td_prod c = P_Loop" "\<not> td_stop c \<longrightarrow> 0 < td_signals c"
  shows "\<exists>c'. pipeline_done e ips c0 s c'"
proof -
  obtain c1 where r1: "(tstep e ips)\<^sup>*\<^sup>* c c1" and c1: "td_stop c1" "td_cons c1 = td_cons c" "td_engine c1 = td_engine c"
  proof (cases "td_stop c")
    case True
    then show thesis using that [of c] by simp
  next
    case False
    show thesis by (rule signal_arrives [of c e ips]) (use assms False in \<open>auto intro!: that\<close>)
  qed
  have "tstep e ips c1 (c1\<lparr>td_cons := C_Done\<rparr>)" using t_cons_stop [of c1 e ips] t_cons_break [of c1 e ips] c1(1,2) assms(3) by auto
  with r1 have "(tstep e ips)\<^sup>*\<^sup>* c (c1\<lparr>td_cons := C_Done\<rparr>)" by (rule rtranclp.rtrancl_into_rtrancl)
  with assms(1) have "(tstep e ips)\<^sup>*\<^sup>* c0 (c1\<lparr>td_cons := C_Done\<rparr>)" by (rule rtranclp_trans)
  then show ?thesis using assms(2) c1(3) by (intro exI [of _ "c1\<lparr>td_cons := C_Done\<rparr>"]) (simp add: pipeline_done_def)
qed

text \<open>The pipeline thread holds the mutex, before it tests for a frame; a signal may come in between.\<close>

lemma empty_blocks:
  assumes sim: "pipeline_sim e ips c0 s c" and "packet_frames e (en_packet_buf s) = []"
  shows "\<exists>c'. (tstep e ips)\<^sup>*\<^sup>* c0 c' \<and> td_cons c' = C_Asleep"
proof -
  note i = sim [unfolded pipeline_sim_def same_engine_def at_rest_def]
  have emp: "isEmpty (td_buf c)" using packet_observers(1) [of "td_buf c" e] i assms(2) by (simp add: packet_isEmpty_def threaded_inv_def engine_inv_def)
  let ?c1 = "c\<lparr>td_cons := C_Lock\<rparr>"
  let ?c2 = "?c1\<lparr>td_cons := C_Test, td_owner := Some Cons_Thread\<rparr>"
  let ?c3 = "?c2\<lparr>td_cons := C_Block\<rparr>"
  let ?c4 = "?c3\<lparr>td_cons := C_Asleep, td_owner := None\<rparr>"
  have "tstep e ips c ?c1" by (rule t_cons_read) (use i in simp_all)
  with conjunct1 [OF i] have "(tstep e ips)\<^sup>*\<^sup>* c0 ?c1" by (rule rtranclp.rtrancl_into_rtrancl)
  moreover have "tstep e ips ?c1 ?c2" by (rule t_cons_lock) (use i in simp_all)
  ultimately have "(tstep e ips)\<^sup>*\<^sup>* c0 ?c2" by (rule rtranclp.rtrancl_into_rtrancl)
  moreover have "tstep e ips ?c2 ?c3" by (rule t_cons_wait) (use i emp in simp_all)
  ultimately have "(tstep e ips)\<^sup>*\<^sup>* c0 ?c3" by (rule rtranclp.rtrancl_into_rtrancl)
  moreover have "tstep e ips ?c3 ?c4" by (rule t_cons_block) simp
  ultimately have "(tstep e ips)\<^sup>*\<^sup>* c0 ?c4" by (rule rtranclp.rtrancl_into_rtrancl)
  then show ?thesis by (intro exI [of _ ?c4]) simp
qed

lemma empty_stops:
  assumes sim: "pipeline_sim e ips c0 s c" and "packet_frames e (en_packet_buf s) = []"
  shows "\<exists>c'. pipeline_done e ips c0 s c'"
proof -
  note i = sim [unfolded pipeline_sim_def same_engine_def at_rest_def]
  have emp: "isEmpty (td_buf c)" using packet_observers(1) [of "td_buf c" e] i assms(2) by (simp add: packet_isEmpty_def threaded_inv_def engine_inv_def)
  let ?c1 = "c\<lparr>td_cons := C_Lock\<rparr>"
  have "tstep e ips c ?c1" by (rule t_cons_read) (use i in simp_all)
  with conjunct1 [OF i] have r1: "(tstep e ips)\<^sup>*\<^sup>* c0 ?c1" by (rule rtranclp.rtrancl_into_rtrancl)
  obtain n where "(tstep e ips)\<^sup>*\<^sup>* ?c1 (?c1\<lparr>td_signals := n, td_stop := True\<rparr>)" by (rule signal_arrives [of ?c1]) (use i in simp_all)
  with r1 have r2: "(tstep e ips)\<^sup>*\<^sup>* c0 (?c1\<lparr>td_signals := n, td_stop := True\<rparr>)" by (rule rtranclp_trans)
  let ?c2 = "?c1\<lparr>td_signals := n, td_stop := True\<rparr>"
  let ?c3 = "?c2\<lparr>td_cons := C_Test, td_owner := Some Cons_Thread\<rparr>"
  let ?c4 = "?c3\<lparr>td_cons := C_Act\<rparr>"
  have "tstep e ips ?c2 ?c3" by (rule t_cons_lock) (use i in simp_all)
  with r2 have "(tstep e ips)\<^sup>*\<^sup>* c0 ?c3" by (rule rtranclp.rtrancl_into_rtrancl)
  moreover have "tstep e ips ?c3 ?c4" by (rule t_cons_pass) simp_all
  ultimately have r4: "(tstep e ips)\<^sup>*\<^sup>* c0 ?c4" by (rule rtranclp.rtrancl_into_rtrancl)
  have "packet_frames e (td_buf c) = []" using i assms(2) by simp
  from filter_stage_empty [OF this, of True "td_stop ?c4"] have w: "filter_stage e (replicate 2048 0) True (td_stop ?c4) (td_buf ?c4) (en_frame_buf (td_engine ?c4)) 2040
      = Returns (None, en_frame_buf (td_engine c), td_buf c)" by simp
  have act: "td_cons ?c4 = C_Act" "isEmpty (td_buf ?c4)" "td_stop ?c4" "length (replicate 2048 (0 :: u8)) = 2048" using emp by simp_all
  have r5: "(tstep e ips)\<^sup>*\<^sup>* c0 (?c4\<lparr>td_cons := C_Check, td_owner := None, td_filtered := None,
      td_engine := (td_engine ?c4)\<lparr>en_frame_buf := en_frame_buf (td_engine c), en_packet_buf := td_buf c\<rparr>\<rparr>)"
    using r4 t_cons_give_up [OF act w, of ips] by (rule rtranclp.rtrancl_into_rtrancl)
  show ?thesis by (rule stops [OF r5]) (use i in \<open>simp_all add: same_engine_def\<close>)
qed

lemma processed_unique:
  assumes "processed broker x s s'" and "processed broker x t t'"
    and "en_flow_table t = en_flow_table s" and "en_publisher t = en_publisher s" and "en_frame_buf t = en_frame_buf s"
  shows "en_flow_table t' = en_flow_table s' \<and> en_publisher t' = en_publisher s' \<and> en_frame_buf t' = en_frame_buf s'"
  using assms by (cases x) (auto simp: processed_def)

text \<open>A frame that the filter admits, and one that it drops.\<close>

lemma admitted_turn:
  assumes sim: "pipeline_sim e ips c0 s c" and fr: "packet_frames e (en_packet_buf s) = (ts, f) # fs" and ff: "filter_frame ts f = Some ff"
    and pr: "processed broker (enrich ips ts f (drop (length f) (en_frame_buf s)))
      (s\<lparr>en_frame_buf := f @ drop (length f) (en_frame_buf s), en_packet_buf := pb\<rparr>) s'"
    and pb: "packet_frames e pb = fs" "rb_capacity pb = rb_capacity (en_packet_buf s)"
  shows "\<exists>c'. pipeline_sim e ips c0 s' c'"
proof -
  note i = sim [unfolded pipeline_sim_def same_engine_def at_rest_def]
  have st: "threaded_inv e ips c" "td_cons c = C_Loop" "td_owner c = None" "\<not> td_stop c" "packet_frames e (td_buf c) = (ts, f) # fs" using i fr by simp_all
  show ?thesis
  proof (rule frame_is_processed [OF st ff, where broker = broker])
    fix q en s0
    let ?c = "c\<lparr>td_cons := C_Loop, td_owner := None, td_prod := wake_producer (td_prod c), td_filtered := Some ff,
      td_engine := en, td_taken := td_taken c @ [(ts, f)]\<rparr>"
    assume q: "packet_frames e q = fs" "rb_capacity q = rb_capacity (td_buf c)" "en_packet_buf en = q" and r: "(tstep e ips)\<^sup>*\<^sup>* c ?c"
      and p: "processed broker (enrich ips ts f (drop (length f) (en_frame_buf (td_engine c)))) s0 en"
        "en_publisher s0 = en_publisher (td_engine c)" "en_flow_table s0 = en_flow_table (td_engine c)"
        "en_frame_buf s0 = f @ drop (length f) (en_frame_buf (td_engine c))"
    have u: "en_flow_table en = en_flow_table s' \<and> en_publisher en = en_publisher s' \<and> en_frame_buf en = en_frame_buf s'"
      by (rule processed_unique [OF pr]) (use p i in simp_all)
    have s': "engine_inv s'" "en_packet_buf s' = pb" using pr by (simp_all add: processed_def)
    from run_inv [OF r st(1)] rtranclp_trans [OF conjunct1 [OF i] r] have "pipeline_sim e ips c0 s' ?c"
      using i u s' q pb by (simp add: pipeline_sim_def same_engine_def at_rest_def wake_producer_def)
    then show ?thesis by blast
  qed
qed

lemma dropped_turn:
  assumes sim: "pipeline_sim e ips c0 s c" and fr: "packet_frames e (en_packet_buf s) = (ts, f) # fs" and ff: "filter_frame ts f = None"
    and s': "engine_inv s'" "packet_frames e (en_packet_buf s') = fs" "rb_capacity (en_packet_buf s') = rb_capacity (en_packet_buf s)"
      "en_frame_buf s' = f @ drop (length f) (en_frame_buf s)" "en_flow_table s' = en_flow_table s" "en_publisher s' = en_publisher s"
  shows "\<exists>c'. if stop then pipeline_done e ips c0 s' c' else pipeline_sim e ips c0 s' c'"
proof -
  note i = sim [unfolded pipeline_sim_def same_engine_def at_rest_def]
  have st: "threaded_inv e ips c" "td_cons c = C_Loop" "td_owner c = None" "\<not> td_stop c" "packet_frames e (td_buf c) = (ts, f) # fs" using i fr by simp_all
  obtain pb where pb: "packet_frames e pb = fs" "rb_capacity pb = rb_capacity (td_buf c)"
    and r: "(tstep e ips)\<^sup>*\<^sup>* c (c\<lparr>td_cons := C_Work, td_owner := None, td_prod := wake_producer (td_prod c), td_filtered := filter_frame ts f,
      td_engine := (td_engine c)\<lparr>en_frame_buf := f @ drop (length f) (en_frame_buf (td_engine c)), en_packet_buf := pb\<rparr>,
      td_taken := td_taken c @ [(ts, f)]\<rparr>)"
    by (rule frame_in_hand [OF st])
  let ?c1 = "c\<lparr>td_cons := C_Work, td_owner := None, td_prod := wake_producer (td_prod c), td_filtered := filter_frame ts f,
      td_engine := (td_engine c)\<lparr>en_frame_buf := f @ drop (length f) (en_frame_buf (td_engine c)), en_packet_buf := pb\<rparr>,
      td_taken := td_taken c @ [(ts, f)]\<rparr>"
  let ?c2 = "?c1\<lparr>td_cons := C_Check\<rparr>"
  have "tstep e ips ?c1 ?c2" by (rule t_cons_drop) (use ff in simp_all)
  with r have r2: "(tstep e ips)\<^sup>*\<^sup>* c ?c2" by (rule rtranclp.rtrancl_into_rtrancl)
  with conjunct1 [OF i] have r02: "(tstep e ips)\<^sup>*\<^sup>* c0 ?c2" by (rule rtranclp_trans)
  show ?thesis
  proof (cases stop)
    case True
    have "\<exists>c'. pipeline_done e ips c0 s' c'"
      by (rule stops [OF r02]) (use i s' pb in \<open>simp_all add: same_engine_def wake_producer_def\<close>)
    then show ?thesis using True by simp
  next
    case False
    let ?c3 = "?c2\<lparr>td_cons := C_Loop\<rparr>"
    have s3: "tstep e ips ?c2 ?c3" by (rule t_cons_continue) (use st(4) in simp_all)
    note r3 = rtranclp.rtrancl_into_rtrancl [OF r2 s3]
    from run_inv [OF r3 st(1)] rtranclp.rtrancl_into_rtrancl [OF r02 s3] have "pipeline_sim e ips c0 s' ?c3"
      using i s' pb by (simp add: pipeline_sim_def same_engine_def at_rest_def wake_producer_def)
    then show ?thesis using False by (intro exI [of _ ?c3]) simp
  qed
qed

definition turn_post :: "byte_order \<Rightarrow> LocalIpSet \<Rightarrow> threaded \<Rightarrow> (loop_next \<times> engine) outcome \<Rightarrow> bool" where
  "turn_post e ips c0 r \<longleftrightarrow> (case r of Blocks \<Rightarrow> \<exists>c. (tstep e ips)\<^sup>*\<^sup>* c0 c \<and> td_cons c = C_Asleep | Undefined \<Rightarrow> False
     | Returns (nxt, s) \<Rightarrow> \<exists>c. if nxt = Break then pipeline_done e ips c0 s c else pipeline_sim e ips c0 s c)"

lemma turn_sim:
  assumes sim: "pipeline_sim e ips c0 s c" and slot: "length slot_buf = 2048" and mono: "sw \<longrightarrow> sa \<and> sc"
  shows "turn_post e ips c0 (pipeline_iteration e slot_buf sw sa sc ips broker s)"
proof (cases "packet_frames e (en_packet_buf s)")
  case Nil
  from mono have "sw \<longrightarrow> sa" by blast
  note it = pipeline_iteration_empty [OF Nil this, of slot_buf sc ips broker]
  show ?thesis unfolding it turn_post_def using empty_blocks [OF sim Nil] empty_stops [OF sim Nil] mono by simp
next
  case (Cons x fs)
  obtain ts f where x: "x = (ts, f)" by (cases x)
  have fr: "packet_frames e (en_packet_buf s) = (ts, f) # fs" using Cons x by simp
  have inv: "engine_inv s" using sim by (simp add: pipeline_sim_def same_engine_def)
  from pipeline_iteration_frame [OF inv fr slot, of sw sa sc ips broker] obtain nxt pb s' where
    it: "pipeline_iteration e slot_buf sw sa sc ips broker s = Returns (nxt, s')" and pb: "packet_frames e pb = fs" "rb_capacity pb = rb_capacity (en_packet_buf s)"
    and pr: "processed broker (enrich ips ts f (drop (length f) (en_frame_buf s)))
      (s\<lparr>en_frame_buf := f @ drop (length f) (en_frame_buf s), en_packet_buf := pb\<rparr>) s'"
    and nxt: "filter_frame ts f \<noteq> None \<longrightarrow> nxt = Continue" by blast
  show ?thesis
  proof (cases "filter_frame ts f")
    case (Some ff)
    then show ?thesis unfolding it turn_post_def using admitted_turn [OF sim fr Some pr pb] nxt by simp
  next
    case None
    have "\<exists>c'. if nxt = Break then pipeline_done e ips c0 s' c' else pipeline_sim e ips c0 s' c'"
      by (rule dropped_turn [OF sim fr None]) (use pr pb in \<open>simp_all add: processed_def enrich_filtered [OF None]\<close>)
    then show ?thesis unfolding it turn_post_def by simp
  qed
qed


subsection \<open>The whole loop\<close>

lemma pipeline_loop_sim:
  "pipeline_sim e ips c0 s c \<Longrightarrow> \<forall>t \<in> set turns. turn_mono t \<Longrightarrow>
    (case pipeline_loop e ips turns s of Blocks \<Rightarrow> \<exists>c. (tstep e ips)\<^sup>*\<^sup>* c0 c \<and> td_cons c = C_Asleep | Undefined \<Rightarrow> False
     | Returns (left, s') \<Rightarrow> \<exists>c. if left then pipeline_done e ips c0 s' c else pipeline_sim e ips c0 s' c)"
proof (induction turns arbitrary: s c)
  case Nil
  then show ?case by auto
next
  case (Cons t turns)
  let ?s = "s\<lparr>en_packet_buf := arrive e (tn_arrivals t) (en_packet_buf s)\<rparr>"
  obtain c1 where c1: "pipeline_sim e ips c0 ?s c1" using arrive_sim [OF Cons.prems(1)] by blast
  have t: "length (tn_slot_buf t) = 2048" "tn_stop_wait t \<longrightarrow> tn_stop_after t \<and> tn_stop_check t"
    using Cons.prems(2) by (simp_all add: turn_mono_def turn_ok_def)
  let ?r = "pipeline_iteration e (tn_slot_buf t) (tn_stop_wait t) (tn_stop_after t) (tn_stop_check t) ips (tn_broker t) ?s"
  note post = turn_sim [OF c1 t, of "tn_broker t"]
  show ?case
  proof (cases "tn_stop_head t")
    case True
    have "\<exists>c'. pipeline_done e ips c0 ?s c'"
      by (rule stops [of e ips c0 c1]) (use c1 in \<open>simp_all add: pipeline_sim_def at_rest_def\<close>)
    then show ?thesis using True by (simp add: Let_def)
  next
    case False
    show ?thesis
    proof (cases ?r)
      case (Returns x)
      obtain nxt s' where x: "x = (nxt, s')" by fastforce
      show ?thesis
      proof (cases nxt)
        case Break
        then show ?thesis using False Returns x post by (simp add: Let_def turn_post_def)
      next
        case Continue
        then obtain c2 where "pipeline_sim e ips c0 s' c2" using post Returns x by (auto simp: turn_post_def)
        from Cons.IH [OF this] Cons.prems(2) have ih: "case pipeline_loop e ips turns s' of Blocks \<Rightarrow> \<exists>c. (tstep e ips)\<^sup>*\<^sup>* c0 c \<and> td_cons c = C_Asleep
          | Undefined \<Rightarrow> False | Returns (left, s') \<Rightarrow> \<exists>c. if left then pipeline_done e ips c0 s' c else pipeline_sim e ips c0 s' c" by simp
        have "pipeline_loop e ips (t # turns) s = pipeline_loop e ips turns s'" using False Returns x Continue by (simp add: Let_def)
        with ih show ?thesis by (simp only:)
      qed
    qed (use False post in \<open>auto simp: Let_def turn_post_def\<close>)
  qed
qed


subsection \<open>Properties\<close>

text \<open>C7: Thread 2 of the running engine is the loop of \<open>main.cpp\<close>: started on the engine, for any number of turns,
  any arriving frames, any broker and a stop flag that is not cleared within a turn, the loop does nothing
  undefined; where it has got to or ended, a run of the interleaved engine leads to a pipeline thread at the
  head of its loop or finished, with the same frames in the packet buffer, the same flow table, the same
  history of calls to the broker and the same frame buffer; and when it waits, to a pipeline thread asleep in
  \<open>PacketBuffer::read\<close>.\<close>

theorem pipeline_loop_is_thread:
  assumes "main_setup env broker alloc_ok os0 = (Started en, os1)" and "\<forall>t \<in> set turns. turn_mono t" and "0 < signals"
  shows "case pipeline_loop e ips turns en of
      Returns (left, s) \<Rightarrow> \<exists>c. (tstep e ips)\<^sup>*\<^sup>* (threads_start en signals) c \<and> td_cons c = (if left then C_Done else C_Loop)
        \<and> packet_frames e (td_buf c) = packet_frames e (en_packet_buf s) \<and> en_flow_table (td_engine c) = en_flow_table s
        \<and> en_publisher (td_engine c) = en_publisher s \<and> en_frame_buf (td_engine c) = en_frame_buf s
    | Blocks \<Rightarrow> \<exists>c. (tstep e ips)\<^sup>*\<^sup>* (threads_start en signals) c \<and> td_cons c = C_Asleep
    | Undefined \<Rightarrow> False"
proof -
  let ?c0 = "threads_start en signals"
  have "pipeline_sim e ips ?c0 en ?c0"
    using threads_start_inv(1) [OF assms(1), of e ips signals] main_setup_started(1) [OF assms(1)] assms(3)
    by (simp add: pipeline_sim_def same_engine_def at_rest_def threads_start_def)
  from pipeline_loop_sim [OF this assms(2)] show ?thesis
    by (auto simp: pipeline_sim_def pipeline_done_def same_engine_def at_rest_def split: outcome.splits if_splits)
qed

theorem pipeline_loop_is_thread_witness:
  "\<exists>en os1 c. main_setup plain_os agreeable (\<lambda>_ _. True) boot_state = (Started en, os1)
    \<and> turn_mono (quiet_turn []) \<and> pipeline_loop Little_Endian {} [quiet_turn []] en = Blocks
    \<and> (tstep Little_Endian {})\<^sup>*\<^sup>* (threads_start en 1) c \<and> td_cons c = C_Asleep"
proof -
  obtain en os1 where en: "main_setup plain_os agreeable (\<lambda>_ _. True) boot_state = (Started en, os1)" by (rule plain_engine_starts)
  have t: "\<forall>t \<in> set [quiet_turn []]. turn_mono t" using quiet_turn_ok by (simp add: turn_mono_def quiet_turn_def)
  have b: "pipeline_loop Little_Endian {} [quiet_turn []] en = Blocks"
    using pipeline_iteration_empty [OF main_setup_started(2) [OF en]] by (simp add: quiet_turn_def)
  from pipeline_loop_is_thread [OF en t, of 1 Little_Endian "{}"] b t en show ?thesis by auto
qed

end
