(* ===== verification/Logger_Threads.thy ===== *)
theory Logger_Threads
  imports Logger
begin

text \<open>
  The one \<open>Logger\<close> of \<open>src/utils/logger.cpp\<close> as its threads use it: \<open>Logger::instance\<close> gives every thread
  the same object, whose \<open>Impl\<close> holds a mutex. \<open>Logger::log\<close> compares the level before it takes the mutex,
  reads the clock, and composes and writes its line under the mutex; \<open>Logger::setLevel\<close> stores the level
  under it. Standard output receives the line character by character, so that a line stays in one
  piece is a consequence of the mutex and not of the model.
\<close>

datatype log_call = Log_Call LogLevel string | Set_Level LogLevel

text \<open>Where a thread is: \<open>L_Clock\<close> after the test of the level, \<open>L_Lock\<close> before the mutex, \<open>L_Write\<close> holding it
  with the rest of the line still to be written; \<open>S_Lock\<close>, \<open>S_Write\<close> and \<open>S_Unlock\<close> within \<open>setLevel\<close>.\<close>

datatype log_pc = L_Idle | L_Clock LogLevel string | L_Lock nat LogLevel string | L_Write string
  | S_Lock LogLevel | S_Write LogLevel | S_Unlock

record log_threads =
  lt_level :: LogLevel
  lt_out :: string
  lt_owner :: "nat option"
  lt_pc :: "nat \<Rightarrow> log_pc"
  lt_todo :: "nat \<Rightarrow> log_call list"

definition log_start :: "LogLevel \<Rightarrow> (nat \<Rightarrow> log_call list) \<Rightarrow> log_threads" where
  "log_start level prog = \<lparr>lt_level = level, lt_out = [], lt_owner = None, lt_pc = (\<lambda>_. L_Idle), lt_todo = prog\<rparr>"

inductive log_step :: "(nat \<Rightarrow> string) \<Rightarrow> log_threads \<Rightarrow> log_threads \<Rightarrow> bool" for lt where
  log_below: "lt_pc s t = L_Idle \<Longrightarrow> lt_todo s t = Log_Call l m # cs \<Longrightarrow> l < lt_level s \<Longrightarrow>
    log_step lt s (s\<lparr>lt_todo := (lt_todo s)(t := cs)\<rparr>)"
| log_pass: "lt_pc s t = L_Idle \<Longrightarrow> lt_todo s t = Log_Call l m # cs \<Longrightarrow> \<not> l < lt_level s \<Longrightarrow>
    log_step lt s (s\<lparr>lt_pc := (lt_pc s)(t := L_Clock l m), lt_todo := (lt_todo s)(t := cs)\<rparr>)"
| log_clock: "lt_pc s t = L_Clock l m \<Longrightarrow> log_step lt s (s\<lparr>lt_pc := (lt_pc s)(t := L_Lock now l m)\<rparr>)"
| log_lock: "lt_pc s t = L_Lock now l m \<Longrightarrow> lt_owner s = None \<Longrightarrow>
    log_step lt s (s\<lparr>lt_pc := (lt_pc s)(t := L_Write (log_line lt now l m)), lt_owner := Some t\<rparr>)"
| log_write: "lt_pc s t = L_Write (c # cs) \<Longrightarrow>
    log_step lt s (s\<lparr>lt_out := lt_out s @ [c], lt_pc := (lt_pc s)(t := L_Write cs)\<rparr>)"
| log_unlock: "lt_pc s t = L_Write [] \<Longrightarrow> log_step lt s (s\<lparr>lt_pc := (lt_pc s)(t := L_Idle), lt_owner := None\<rparr>)"
| set_call: "lt_pc s t = L_Idle \<Longrightarrow> lt_todo s t = Set_Level l # cs \<Longrightarrow>
    log_step lt s (s\<lparr>lt_pc := (lt_pc s)(t := S_Lock l), lt_todo := (lt_todo s)(t := cs)\<rparr>)"
| set_lock: "lt_pc s t = S_Lock l \<Longrightarrow> lt_owner s = None \<Longrightarrow>
    log_step lt s (s\<lparr>lt_pc := (lt_pc s)(t := S_Write l), lt_owner := Some t\<rparr>)"
| set_write: "lt_pc s t = S_Write l \<Longrightarrow> log_step lt s (s\<lparr>lt_level := l, lt_pc := (lt_pc s)(t := S_Unlock)\<rparr>)"
| set_unlock: "lt_pc s t = S_Unlock \<Longrightarrow> log_step lt s (s\<lparr>lt_pc := (lt_pc s)(t := L_Idle), lt_owner := None\<rparr>)"


subsection \<open>The mutex\<close>

fun in_section :: "log_pc \<Rightarrow> bool" where
  "in_section (L_Write _) = True"
| "in_section (S_Write _) = True"
| "in_section S_Unlock = True"
| "in_section _ = False"

definition owner_ok :: "nat option \<Rightarrow> (nat \<Rightarrow> log_pc) \<Rightarrow> bool" where
  "owner_ok ow pc \<longleftrightarrow> (\<forall>t. in_section (pc t) \<longleftrightarrow> ow = Some t)"

definition mutex_inv :: "log_threads \<Rightarrow> bool" where
  "mutex_inv s \<longleftrightarrow> owner_ok (lt_owner s) (lt_pc s)"

lemma owner_stays: "owner_ok ow pc \<Longrightarrow> in_section p = in_section (pc t) \<Longrightarrow> owner_ok ow (pc(t := p))"
  by (simp add: owner_ok_def)

lemma owner_enters: "owner_ok None pc \<Longrightarrow> in_section p \<Longrightarrow> owner_ok (Some t) (pc(t := p))"
  by (auto simp: owner_ok_def)

lemma owner_leaves: "owner_ok ow pc \<Longrightarrow> in_section (pc t) \<Longrightarrow> \<not> in_section p \<Longrightarrow> owner_ok None (pc(t := p))"
  by (auto simp: owner_ok_def)

lemma owner_unique: "owner_ok ow pc \<Longrightarrow> in_section (pc t) \<Longrightarrow> ow = Some t"
  by (simp add: owner_ok_def)

lemma not_owner: "owner_ok ow pc \<Longrightarrow> \<not> in_section (pc t) \<Longrightarrow> ow \<noteq> Some t"
  by (auto simp: owner_ok_def)

lemma log_step_mutex: "log_step lt s s' \<Longrightarrow> mutex_inv s \<Longrightarrow> mutex_inv s'"
  by (induction rule: log_step.induct) (simp_all add: mutex_inv_def owner_stays owner_enters owner_leaves)

lemma log_run_mutex: "(log_step lt)\<^sup>*\<^sup>* s s' \<Longrightarrow> mutex_inv s \<Longrightarrow> mutex_inv s'"
  by (induction rule: rtranclp_induct) (auto dest: log_step_mutex)

lemma log_start_mutex: "mutex_inv (log_start level prog)"
  by (simp add: mutex_inv_def owner_ok_def log_start_def)

definition log_finished :: "log_threads \<Rightarrow> bool" where
  "log_finished s \<longleftrightarrow> (\<forall>t. lt_pc s t = L_Idle \<and> lt_todo s t = [])"

text \<open>The holder of the mutex can always go on, and without one every thread can.\<close>

lemma section_moves: "in_section (lt_pc s t) \<Longrightarrow> \<exists>s'. log_step lt s s'"
proof (cases "lt_pc s t")
  case (L_Write cs)
  then show ?thesis by (cases cs) (blast intro: log_write log_unlock)+
qed (auto intro: set_write set_unlock)

lemma outside_moves:
  assumes "lt_owner s = None" and "lt_pc s t \<noteq> L_Idle \<or> lt_todo s t \<noteq> []" and "\<not> in_section (lt_pc s t)"
  shows "\<exists>s'. log_step lt s s'"
proof (cases "lt_pc s t")
  case L_Idle
  then obtain c cs where "lt_todo s t = c # cs" using assms(2) by (cases "lt_todo s t") auto
  with L_Idle show ?thesis by (cases c) (blast intro: log_below log_pass set_call)+
qed (use assms in \<open>auto intro: log_clock log_lock set_lock\<close>)

lemma log_not_stuck: "mutex_inv s \<Longrightarrow> \<not> log_finished s \<Longrightarrow> \<exists>s'. log_step lt s s'"
  using section_moves [of s] outside_moves [of s] unfolding mutex_inv_def owner_ok_def log_finished_def
  by (metis not_None_eq option.distinct(1))


subsection \<open>The lines\<close>

type_synonym made_call = "nat \<times> nat \<times> LogLevel \<times> string"

definition log_all :: "(nat \<Rightarrow> string) \<Rightarrow> LogLevel \<Rightarrow> made_call list \<Rightarrow> Logger" where
  "log_all lt level calls = fold (\<lambda>(t, now, l, m). Logger_log lt now l m) calls (setLevel level new_Logger)"

definition calls_of :: "nat \<Rightarrow> made_call list \<Rightarrow> log_call list" where
  "calls_of t calls = map (\<lambda>(_, _, l, m). Log_Call l m) (filter (\<lambda>c. fst c = t) calls)"

lemma log_all_snoc: "log_all lt level (calls @ [(t, now, l, m)]) = Logger_log lt now l m (log_all lt level calls)"
  by (simp add: log_all_def)

lemma log_all_Nil [simp]: "lg_out (log_all lt level []) = []"
  by (simp add: log_all_def setLevel_def new_Logger_def)

lemma log_all_level [simp]: "lg_level (log_all lt level calls) = level"
proof (induction calls rule: rev_induct)
  case Nil
  then show ?case by (simp add: log_all_def setLevel_def)
next
  case (snoc c calls)
  then show ?case by (cases c) (simp add: log_all_snoc)
qed

lemma calls_of_Nil [simp]: "calls_of t [] = []"
  by (simp add: calls_of_def)

lemma calls_of_snoc: "calls_of t (calls @ [(i, now, l, m)]) = calls_of t calls @ (if i = t then [Log_Call l m] else [])"
  by (simp add: calls_of_def)

text \<open>What a thread has begun but not yet put into the order of the lines.\<close>

fun in_hand :: "log_pc \<Rightarrow> log_call list" where
  "in_hand (L_Clock l m) = [Log_Call l m]"
| "in_hand (L_Lock _ l m) = [Log_Call l m]"
| "in_hand _ = []"

fun unwritten :: "log_pc \<Rightarrow> string" where
  "unwritten (L_Write cs) = cs"
| "unwritten _ = []"

fun passed :: "LogLevel \<Rightarrow> log_pc \<Rightarrow> bool" where
  "passed level (L_Clock l m) = (\<not> l < level)"
| "passed level (L_Lock _ l m) = (\<not> l < level)"
| "passed level (L_Write _) = True"
| "passed level L_Idle = True"
| "passed level _ = False"

definition only_logs :: "log_call list \<Rightarrow> bool" where
  "only_logs cs \<longleftrightarrow> (\<forall>l. Set_Level l \<notin> set cs)"

definition held_back :: "nat option \<Rightarrow> (nat \<Rightarrow> log_pc) \<Rightarrow> string" where
  "held_back ow pc = (case ow of None \<Rightarrow> [] | Some t \<Rightarrow> unwritten (pc t))"

definition book_ok :: "LogLevel \<Rightarrow> log_call list \<Rightarrow> log_call list \<Rightarrow> log_pc \<Rightarrow> log_call list \<Rightarrow> bool" where
  "book_ok level all done p todo \<longleftrightarrow> passed level p \<and> only_logs todo \<and> done @ in_hand p @ todo = all"

definition lines_inv :: "(nat \<Rightarrow> string) \<Rightarrow> LogLevel \<Rightarrow> (nat \<Rightarrow> log_call list) \<Rightarrow> made_call list \<Rightarrow> log_threads \<Rightarrow> bool" where
  "lines_inv lt level prog calls s \<longleftrightarrow> mutex_inv s \<and> lt_level s = level
     \<and> lt_out s @ held_back (lt_owner s) (lt_pc s) = lg_out (log_all lt level calls)
     \<and> (\<forall>t. book_ok level (prog t) (calls_of t calls) (lt_pc s t) (lt_todo s t))"

lemma held_back_other [simp]: "ow \<noteq> Some t \<Longrightarrow> held_back ow (pc(t := p)) = held_back ow pc"
  by (auto simp: held_back_def split: option.splits)

lemma held_back_simps [simp]: "held_back None pc = []" "held_back (Some t) pc = unwritten (pc t)"
  by (simp_all add: held_back_def)

text \<open>A step of thread \<open>t\<close> concerns the book of \<open>t\<close> alone.\<close>

lemma lines_step:
  assumes "lines_inv lt level prog calls s" and "log_step lt s s'"
    and "lt_level s' = level" "lt_out s' @ held_back (lt_owner s') (lt_pc s') = lg_out (log_all lt level calls')"
    and "lt_pc s' = (lt_pc s)(t := p)" "lt_todo s' = (lt_todo s)(t := cs)"
    and "book_ok level (prog t) (calls_of t calls') p cs" "\<And>i. i \<noteq> t \<Longrightarrow> calls_of i calls' = calls_of i calls"
  shows "\<exists>calls'. lines_inv lt level prog calls' s'"
  using assms log_step_mutex [OF assms(2)] unfolding lines_inv_def by (intro exI [of _ calls']) (simp add: fun_upd_def)

lemma log_step_lines:
  assumes "log_step lt s s'" and inv: "lines_inv lt level prog calls s"
  shows "\<exists>calls'. lines_inv lt level prog calls' s'"
proof -
  note i = inv [unfolded lines_inv_def mutex_inv_def]
  note step = lines_step [OF inv assms(1)]
  have ok: "owner_ok (lt_owner s) (lt_pc s)" and book: "\<And>t. book_ok level (prog t) (calls_of t calls) (lt_pc s t) (lt_todo s t)" using i by simp_all
  have no_set: "\<And>t l. lt_pc s t \<noteq> S_Lock l \<and> lt_pc s t \<noteq> S_Write l \<and> lt_pc s t \<noteq> S_Unlock \<and> Set_Level l \<notin> set (lt_todo s t)"
    using book by (metis book_ok_def only_logs_def passed.simps(5-7))
  from assms(1) show ?thesis
  proof (cases rule: log_step.cases)
    case (log_below t l m cs)
    show ?thesis
      by (rule step [of "calls @ [(t, 0, l, m)]" t L_Idle cs])
        (use i log_below book [of t] in \<open>simp_all add: log_all_snoc calls_of_snoc Logger_log_def book_ok_def only_logs_def fun_upd_idem\<close>)
  next
    case (log_pass t l m cs)
    show ?thesis
      by (rule step [of calls t "L_Clock l m" cs])
        (use i log_pass book [of t] not_owner [OF ok, of t] in \<open>simp_all add: book_ok_def only_logs_def\<close>)
  next
    case (log_clock t l m now)
    show ?thesis
      by (rule step [of calls t "L_Lock now l m" "lt_todo s t"])
        (use i log_clock book [of t] not_owner [OF ok, of t] in \<open>simp_all add: book_ok_def\<close>)
  next
    case (log_lock t now l m)
    show ?thesis
      by (rule step [of "calls @ [(t, now, l, m)]" t "L_Write (log_line lt now l m)" "lt_todo s t"])
        (use i log_lock book [of t] in \<open>simp_all add: log_all_snoc calls_of_snoc Logger_log_def book_ok_def\<close>)
  next
    case (log_write t c cs)
    show ?thesis
      by (rule step [of calls t "L_Write cs" "lt_todo s t"])
        (use i log_write book [of t] owner_unique [OF ok, of t] in \<open>simp_all add: book_ok_def\<close>)
  next
    case (log_unlock t)
    show ?thesis
      by (rule step [of calls t L_Idle "lt_todo s t"])
        (use i log_unlock book [of t] owner_unique [OF ok, of t] in \<open>simp_all add: book_ok_def\<close>)
  qed (simp_all, (metis no_set list.set_intros(1))+)
qed

lemma log_run_lines:
  "(log_step lt)\<^sup>*\<^sup>* s s' \<Longrightarrow> lines_inv lt level prog calls s \<Longrightarrow> \<exists>calls'. lines_inv lt level prog calls' s'"
proof (induction rule: rtranclp_induct)
  case base
  then show ?case by blast
next
  case (step y z)
  then show ?case using log_step_lines by blast
qed

lemma log_start_lines: "\<forall>t. only_logs (prog t) \<Longrightarrow> lines_inv lt level prog [] (log_start level prog)"
  by (simp add: lines_inv_def log_start_mutex, simp add: log_start_def book_ok_def)


subsection \<open>A call that is not disturbed\<close>

lemma log_write_all:
  "lt_pc s t = L_Write cs \<Longrightarrow> (log_step lt)\<^sup>*\<^sup>* s (s\<lparr>lt_out := lt_out s @ cs, lt_pc := (lt_pc s)(t := L_Write [])\<rparr>)"
proof (induction cs arbitrary: s)
  case Nil
  then have "s\<lparr>lt_out := lt_out s @ [], lt_pc := (lt_pc s)(t := L_Write [])\<rparr> = s" by (simp add: fun_upd_idem)
  then show ?case by (simp only: rtranclp.rtrancl_refl)
next
  case (Cons c cs)
  let ?s1 = "s\<lparr>lt_out := lt_out s @ [c], lt_pc := (lt_pc s)(t := L_Write cs)\<rparr>"
  have "log_step lt s ?s1" using Cons.prems by (rule log_write)
  moreover have "(log_step lt)\<^sup>*\<^sup>* ?s1 (?s1\<lparr>lt_out := lt_out ?s1 @ cs, lt_pc := (lt_pc ?s1)(t := L_Write [])\<rparr>)" by (rule Cons.IH) simp
  ultimately have "(log_step lt)\<^sup>*\<^sup>* s (?s1\<lparr>lt_out := lt_out ?s1 @ cs, lt_pc := (lt_pc ?s1)(t := L_Write [])\<rparr>)" by (rule converse_rtranclp_into_rtranclp)
  moreover have "?s1\<lparr>lt_out := lt_out ?s1 @ cs, lt_pc := (lt_pc ?s1)(t := L_Write [])\<rparr> = s\<lparr>lt_out := lt_out s @ c # cs, lt_pc := (lt_pc s)(t := L_Write [])\<rparr>"
    by (rule log_threads.equality) (simp_all add: fun_eq_iff)
  ultimately show ?case by (simp only:)
qed

text \<open>On its own, a call does what \<open>Logger_log\<close> does.\<close>

lemma log_call_alone:
  assumes idle: "lt_pc s t = L_Idle" "lt_owner s = None" and todo: "lt_todo s t = Log_Call l m # cs"
  shows "(log_step lt)\<^sup>*\<^sup>* s (s\<lparr>lt_out := lg_out (Logger_log lt now l m \<lparr>lg_level = lt_level s, lg_out = lt_out s\<rparr>), lt_todo := (lt_todo s)(t := cs)\<rparr>)"
proof (cases "l < lt_level s")
  case True
  then show ?thesis using log_below [OF idle(1) todo True, of lt] by (simp add: Logger_log_def)
next
  case False
  let ?s1 = "s\<lparr>lt_pc := (lt_pc s)(t := L_Clock l m), lt_todo := (lt_todo s)(t := cs)\<rparr>"
  let ?s2 = "?s1\<lparr>lt_pc := (lt_pc ?s1)(t := L_Lock now l m)\<rparr>"
  let ?s3 = "?s2\<lparr>lt_pc := (lt_pc ?s2)(t := L_Write (log_line lt now l m)), lt_owner := Some t\<rparr>"
  let ?s4 = "?s3\<lparr>lt_out := lt_out ?s3 @ log_line lt now l m, lt_pc := (lt_pc ?s3)(t := L_Write [])\<rparr>"
  let ?s5 = "?s4\<lparr>lt_pc := (lt_pc ?s4)(t := L_Idle), lt_owner := None\<rparr>"
  have "log_step lt s ?s1" using idle(1) todo False by (rule log_pass)
  then have "(log_step lt)\<^sup>*\<^sup>* s ?s1" by (rule r_into_rtranclp)
  moreover have "log_step lt ?s1 ?s2" by (rule log_clock) simp
  ultimately have "(log_step lt)\<^sup>*\<^sup>* s ?s2" by (rule rtranclp.rtrancl_into_rtrancl)
  moreover have "log_step lt ?s2 ?s3" by (rule log_lock) (simp_all add: idle)
  ultimately have "(log_step lt)\<^sup>*\<^sup>* s ?s3" by (rule rtranclp.rtrancl_into_rtrancl)
  moreover have "(log_step lt)\<^sup>*\<^sup>* ?s3 ?s4" by (rule log_write_all) simp
  ultimately have "(log_step lt)\<^sup>*\<^sup>* s ?s4" by (rule rtranclp_trans)
  moreover have "log_step lt ?s4 ?s5" by (rule log_unlock) simp
  ultimately have r: "(log_step lt)\<^sup>*\<^sup>* s ?s5" by (rule rtranclp.rtrancl_into_rtrancl)
  have "?s5 = s\<lparr>lt_out := lg_out (Logger_log lt now l m \<lparr>lg_level = lt_level s, lg_out = lt_out s\<rparr>), lt_todo := (lt_todo s)(t := cs)\<rparr>"
    by (rule log_threads.equality) (use idle False in \<open>simp_all add: Logger_log_def fun_upd_idem\<close>)
  with r show ?thesis by (simp only:)
qed


subsection \<open>Properties\<close>

text \<open>C22: The threads may log at the same time: as long as none of them changes the level, no run blocks before all
  of them are done; and what standard output has received when they are done is what one thread would
  have written that made all their calls one after the other, those of each thread in its order. So
  every line is whole, no message at or above the level is lost and none is written twice.\<close>

theorem concurrent_log_lines:
  assumes "(log_step lt)\<^sup>*\<^sup>* (log_start level prog) s" and "\<forall>t. only_logs (prog t)"
  shows "if log_finished s
    then \<exists>calls. lt_out s = lg_out (fold (\<lambda>(t, now, l, m). Logger_log lt now l m) calls (setLevel level new_Logger))
      \<and> (\<forall>t. calls_of t calls = prog t)
    else \<exists>s'. log_step lt s s'"
proof (cases "log_finished s")
  case True
  from log_run_lines [OF assms(1) log_start_lines [OF assms(2)]] obtain calls where i: "lines_inv lt level prog calls s" by blast
  have "\<not> in_section (lt_pc s t)" for t using True by (simp add: log_finished_def)
  then have "lt_owner s = None" using i by (cases "lt_owner s") (auto simp: lines_inv_def mutex_inv_def owner_ok_def)
  then show ?thesis using True i by (auto simp: lines_inv_def log_finished_def book_ok_def log_all_def intro!: exI [of _ calls])
next
  case False
  then show ?thesis using log_not_stuck [OF log_run_mutex [OF assms(1) log_start_mutex] False] by simp
qed

definition two_loggers :: "nat \<Rightarrow> log_call list" where
  "two_loggers = (\<lambda>_. [])(1 := [Log_Call WARN ''a''], 2 := [Log_Call INFO ''b''])"

theorem concurrent_log_lines_witness:
  "\<exists>s calls. (log_step (\<lambda>_. ''T''))\<^sup>*\<^sup>* (log_start INFO two_loggers) s \<and> log_finished s
    \<and> lt_out s = lg_out (fold (\<lambda>(t, now, l, m). Logger_log (\<lambda>_. ''T'') now l m) calls (setLevel INFO new_Logger))
    \<and> lt_out s \<noteq> [] \<and> calls_of 1 calls = [Log_Call WARN ''a''] \<and> calls_of 2 calls = [Log_Call INFO ''b'']"
proof -
  let ?lt = "\<lambda>_ :: nat. ''T''" and ?s0 = "log_start INFO two_loggers"
  have s0: "lt_pc ?s0 1 = L_Idle" "lt_owner ?s0 = None" "lt_todo ?s0 1 = Log_Call WARN ''a'' # []" by (simp_all add: log_start_def two_loggers_def)
  let ?s1 = "?s0\<lparr>lt_out := lg_out (Logger_log ?lt 5 WARN ''a'' \<lparr>lg_level = lt_level ?s0, lg_out = lt_out ?s0\<rparr>), lt_todo := (lt_todo ?s0)(1 := [])\<rparr>"
  have r1: "(log_step ?lt)\<^sup>*\<^sup>* ?s0 ?s1" by (rule log_call_alone [OF s0])
  have s1: "lt_pc ?s1 2 = L_Idle" "lt_owner ?s1 = None" "lt_todo ?s1 2 = Log_Call INFO ''b'' # []" by (simp_all add: log_start_def two_loggers_def)
  let ?s2 = "?s1\<lparr>lt_out := lg_out (Logger_log ?lt 4 INFO ''b'' \<lparr>lg_level = lt_level ?s1, lg_out = lt_out ?s1\<rparr>), lt_todo := (lt_todo ?s1)(2 := [])\<rparr>"
  have "(log_step ?lt)\<^sup>*\<^sup>* ?s1 ?s2" by (rule log_call_alone [OF s1])
  with r1 have r: "(log_step ?lt)\<^sup>*\<^sup>* ?s0 ?s2" by (rule rtranclp_trans)
  have fin: "log_finished ?s2" by (simp add: log_finished_def log_start_def two_loggers_def)
  have out: "lt_out ?s2 \<noteq> []" by (simp add: log_start_def Logger_log_def log_line_def less_LogLevel_def)
  have "\<forall>t. only_logs (two_loggers t)" by (simp add: only_logs_def two_loggers_def)
  from concurrent_log_lines [OF r this] fin obtain calls where
    "lt_out ?s2 = lg_out (fold (\<lambda>(t, now, l, m). Logger_log ?lt now l m) calls (setLevel INFO new_Logger))" "\<forall>t. calls_of t calls = two_loggers t"
    by auto
  then show ?thesis using r fin out by (intro exI [of _ ?s2] exI [of _ calls]) (simp add: two_loggers_def)
qed

end
