(* ===== verification/Message_Schema.thy ===== *)
theory Message_Schema
  imports Engine
begin

text \<open>
  The contract between the engine and the database: \<open>infra/mongo/init-collections.js\<close> creates the
  collection \<open>traffic_flows\<close> with a validator, and a document that does not pass it is rejected. The
  validator is the table \<open>traffic_flows\<close> below. It tells \<open>int\<close> from \<open>long\<close>, but a message of the engine is a
  JSON text, whose numbers have no such type: which BSON type a number gets is decided by the
  service that stores the message, which is not part of the repository and is the parameter \<open>conv\<close>
  here, a function of the member's name and the number. A message passes exactly when all its
  numbers get the types declared in the validator; everything else the validator asks for always holds.
\<close>

datatype bson_type = B_String | B_Bool | B_Int | B_Long | B_Double

datatype bson = Bs_String string | Bs_Bool bool | Bs_Null | Bs_Num bson_type nat

record field_rule =
  fr_type :: bson_type
  fr_nullable :: bool
  fr_enum :: "bson list option"
  fr_minimum :: "nat option"
  fr_maximum :: "nat option"

definition field :: "bson_type \<Rightarrow> field_rule" where
  "field t = \<lparr>fr_type = t, fr_nullable = False, fr_enum = None, fr_minimum = None, fr_maximum = None\<rparr>"

definition optional_field :: "bson_type \<Rightarrow> field_rule" where
  "optional_field t = (field t)\<lparr>fr_nullable := True\<rparr>"

definition traffic_flows_required :: "string list" where
  "traffic_flows_required = [''src_ip'', ''dst_ip'', ''protocol'', ''timestamp'', ''flow_key'']"

definition traffic_flows :: "(string \<times> field_rule) list" where
  "traffic_flows =
    [(''src_ip'', field B_String), (''dst_ip'', field B_String),
     (''protocol'', (field B_String)\<lparr>fr_enum := Some [Bs_String ''TCP'', Bs_String ''UDP'', Bs_String ''ICMP'', Bs_String ''ARP'']\<rparr>),
     (''timestamp'', field B_Long), (''flow_key'', field B_String),
     (''packet_size'', (optional_field B_Int)\<lparr>fr_minimum := Some 0, fr_maximum := Some 65535\<rparr>),
     (''direction'', (optional_field B_String)\<lparr>fr_enum := Some [Bs_String ''inbound'', Bs_String ''outbound'', Bs_Null]\<rparr>),
     (''flags'', optional_field B_Int),
     (''src_port'', (optional_field B_Int)\<lparr>fr_minimum := Some 0, fr_maximum := Some 65535\<rparr>),
     (''dst_port'', (optional_field B_Int)\<lparr>fr_minimum := Some 0, fr_maximum := Some 65535\<rparr>),
     (''seq_num'', optional_field B_Long), (''ttl'', optional_field B_Int),
     (''src_mac'', optional_field B_String), (''dst_mac'', optional_field B_String),
     (''checksum_valid'', optional_field B_Bool), (''is_retransmit'', optional_field B_Bool),
     (''first_seen'', optional_field B_Long), (''last_seen'', optional_field B_Long), (''total_bytes'', optional_field B_Long),
     (''inbound_bytes'', optional_field B_Long), (''outbound_bytes'', optional_field B_Long),
     (''syn_count'', optional_field B_Int), (''syn_ack_count'', optional_field B_Int), (''rst_count'', optional_field B_Int),
     (''arp_opcode'', optional_field B_Int), (''arp_sender_ip'', optional_field B_String),
     (''arp_sender_mac'', optional_field B_String), (''arp_target_ip'', optional_field B_String),
     (''icmp_type'', optional_field B_Int), (''icmp_code'', optional_field B_Int)]"

text \<open>What the validator checks of a value and of a document. A number of type \<open>int\<close> or \<open>long\<close> is one that fits 32 or
  64 bits.\<close>

fun has_type :: "bson_type \<Rightarrow> bson \<Rightarrow> bool" where
  "has_type t (Bs_String s) = (t = B_String)"
| "has_type t (Bs_Bool b) = (t = B_Bool)"
| "has_type t Bs_Null = False"
| "has_type t (Bs_Num u n) = (t = u \<and> (u = B_Int \<and> n < 2 ^ 31 \<or> u = B_Long \<and> n < 2 ^ 63 \<or> u = B_Double))"

definition value_passes :: "field_rule \<Rightarrow> bson \<Rightarrow> bool" where
  "value_passes r v \<longleftrightarrow> (has_type (fr_type r) v \<or> fr_nullable r \<and> v = Bs_Null)
     \<and> (case fr_enum r of None \<Rightarrow> True | Some vs \<Rightarrow> v \<in> set vs)
     \<and> (case (fr_minimum r, v) of (Some n, Bs_Num _ x) \<Rightarrow> n \<le> x | _ \<Rightarrow> True)
     \<and> (case (fr_maximum r, v) of (Some n, Bs_Num _ x) \<Rightarrow> x \<le> n | _ \<Rightarrow> True)"

definition member_passes :: "string \<times> bson \<Rightarrow> bool" where
  "member_passes kv = (case map_of traffic_flows (fst kv) of None \<Rightarrow> True | Some r \<Rightarrow> value_passes r (snd kv))"

text \<open>The document that a storing service makes of a message.\<close>

type_synonym number_typing = "string \<Rightarrow> nat \<Rightarrow> bson_type"

fun stored_value :: "number_typing \<Rightarrow> string \<Rightarrow> jval \<Rightarrow> bson" where
  "stored_value conv k (JStr s) = Bs_String s"
| "stored_value conv k (JNum n) = Bs_Num (conv k n) n"
| "stored_value conv k (JBool b) = Bs_Bool b"
| "stored_value conv k JNull = Bs_Null"

definition stored_member :: "number_typing \<Rightarrow> string \<times> jval \<Rightarrow> string \<times> bson" where
  "stored_member conv kv = (fst kv, stored_value conv (fst kv) (snd kv))"

definition passes_validator :: "number_typing \<Rightarrow> string \<Rightarrow> bool" where
  "passes_validator conv json = (case parse_object json of None \<Rightarrow> False
     | Some ms \<Rightarrow> list_all (\<lambda>k. k \<in> set (map fst ms)) traffic_flows_required \<and> list_all (\<lambda>kv. member_passes (stored_member conv kv)) ms)"

text \<open>Each number of a message gets the type that the validator declares for its member.\<close>

definition declared_type :: number_typing where
  "declared_type k n = (case map_of traffic_flows k of None \<Rightarrow> B_Int | Some r \<Rightarrow> fr_type r)"

definition typed_as_declared :: "number_typing \<Rightarrow> string \<times> jval \<Rightarrow> bool" where
  "typed_as_declared conv kv = (case snd kv of JNum n \<Rightarrow> map_of traffic_flows (fst kv) \<noteq> None \<longrightarrow> conv (fst kv) n = declared_type (fst kv) n
     | _ \<Rightarrow> True)"

definition numbers_as_declared :: "number_typing \<Rightarrow> string \<Rightarrow> bool" where
  "numbers_as_declared conv json = (case parse_object json of None \<Rightarrow> False | Some ms \<Rightarrow> list_all (typed_as_declared conv) ms)"


subsection \<open>A message and the flow it carries\<close>

text \<open>The ranges that the counters of a flow have to be in.\<close>

definition flow_in_range :: "FlowRecord \<Rightarrow> bool" where
  "flow_in_range r \<longleftrightarrow> unat (fl_first_seen_ms r) < 2 ^ 63 \<and> unat (fl_last_seen_ms r) < 2 ^ 63 \<and> unat (fl_total_bytes r) < 2 ^ 63
     \<and> unat (fl_inbound_bytes r) < 2 ^ 63 \<and> unat (fl_outbound_bytes r) < 2 ^ 63
     \<and> unat (fl_syn_count r) < 2 ^ 31 \<and> unat (fl_syn_ack_count r) < 2 ^ 31 \<and> unat (fl_rst_count r) < 2 ^ 31"

lemma small_words [simp]:
  "unat (b :: u8) < 2147483648" "unat (h :: u16) < 2147483648" "unat (w :: u32) < 9223372036854775808" "unat (h :: u16) \<le> 65535"
  using unat_u8_less [of b] unat_u16_less [of h] unsigned_less [of w, where 'a = nat] by simp_all

text \<open>The rules, by the kind of value that a member has.\<close>

lemma value_passes_field [simp]:
  "value_passes (field B_String) (Bs_String s)"
  "value_passes (field B_Long) (Bs_Num t n) \<longleftrightarrow> t = B_Long \<and> n < 2 ^ 63"
  "value_passes (optional_field B_String) (Bs_String s)" "value_passes (optional_field B_Bool) (Bs_Bool b)"
  "value_passes (optional_field B_Int) (Bs_Num t n) \<longleftrightarrow> t = B_Int \<and> n < 2 ^ 31"
  "value_passes (optional_field B_Long) (Bs_Num t n) \<longleftrightarrow> t = B_Long \<and> n < 2 ^ 63"
  "value_passes ((optional_field B_Int)\<lparr>fr_minimum := Some 0, fr_maximum := Some m\<rparr>) (Bs_Num t n) \<longleftrightarrow> t = B_Int \<and> n < 2 ^ 31 \<and> n \<le> m"
  "value_passes ((field B_String)\<lparr>fr_enum := Some vs\<rparr>) (Bs_String s) \<longleftrightarrow> Bs_String s \<in> set vs"
  by (auto simp: value_passes_def field_def optional_field_def)

lemma fr_type_simps [simp]:
  "fr_type (field t) = t" "fr_type (optional_field t) = t"
  by (simp_all add: field_def optional_field_def)

lemma direction_passes [simp]:
  "value_passes ((optional_field B_String)\<lparr>fr_enum := Some [Bs_String ''inbound'', Bs_String ''outbound'', Bs_Null]\<rparr>)
     (stored_value conv k (direction_value d))"
  by (cases d) (simp_all add: value_passes_def field_def optional_field_def direction_value_def)

lemma direction_no_number [simp]: "(case direction_value d of JNum n \<Rightarrow> P n | _ \<Rightarrow> True)"
  by (cases d) (simp_all add: direction_value_def)

lemma protocol_listed:
  "published f \<Longrightarrow> Bs_String (protocolToStr (ef_protocol f)) \<in> set [Bs_String ''TCP'', Bs_String ''UDP'', Bs_String ''ICMP'', Bs_String ''ARP'']"
  by (auto simp: published_def protocolToStr_def)

text \<open>A member passes exactly when its number, if it is one, has the declared type.\<close>

lemma members_pass:
  assumes "published f" and "unat (ef_timestamp f) < 2 ^ 63" and "flow_in_range flow"
  shows "list_all (\<lambda>kv. member_passes (stored_member conv kv) \<longleftrightarrow> typed_as_declared conv kv) (json_members f flow rt)"
  using assms(2,3) protocol_listed [OF assms(1)]
  by (simp only: json_members_def list.pred_inject member_passes_def stored_member_def typed_as_declared_def declared_type_def
      fst_conv snd_conv traffic_flows_def map_of.simps)
    (simp add: flow_in_range_def)

lemma message_passes:
  assumes "str_ok (ef_flow_key f)" and "published f" and "unat (ef_timestamp f) < 2 ^ 63" and "flow_in_range flow"
  shows "passes_validator conv (buildJson f flow rt) \<longleftrightarrow> numbers_as_declared conv (buildJson f flow rt)"
    and "numbers_as_declared declared_type (buildJson f flow rt)"
proof -
  have "list_all (\<lambda>k. k \<in> set (map fst (json_members f flow rt))) traffic_flows_required"
    by (simp add: json_members_def traffic_flows_required_def)
  moreover have "list_all (\<lambda>kv. member_passes (stored_member conv kv)) (json_members f flow rt)
      \<longleftrightarrow> list_all (typed_as_declared conv) (json_members f flow rt)"
    using members_pass [OF assms(2-4), of conv rt] unfolding list_all_iff by blast
  ultimately show "passes_validator conv (buildJson f flow rt) \<longleftrightarrow> numbers_as_declared conv (buildJson f flow rt)"
    by (simp only: passes_validator_def numbers_as_declared_def buildJson_parses [OF assms(1)] option.case simp_thms)
  have "typed_as_declared declared_type kv" for kv by (simp add: typed_as_declared_def split: jval.split)
  then show "numbers_as_declared declared_type (buildJson f flow rt)"
    by (simp add: numbers_as_declared_def buildJson_parses [OF assms(1)] list_all_iff)
qed

lemma count_if_le: "unat (count_if P xs) \<le> length xs"
proof -
  have "unat (count_if P xs) \<le> length (filter P xs)" unfolding count_if_def unat_of_nat by (rule mod_less_eq_dividend)
  then show ?thesis using length_filter_le [of P xs] by linarith
qed

lemma sum_sizes_le: "(\<Sum>f\<leftarrow>fs. unat (ef_packet_size f)) \<le> length fs * 65535"
proof (induction fs)
  case (Cons f fs)
  then show ?case using unat_u16_less [of "ef_packet_size f"] by simp
qed simp

lemma summary_in_range:
  assumes "fs \<noteq> []" and "length fs < 2 ^ 31" and "\<forall>f \<in> set fs. unat (ef_timestamp f) < 2 ^ 63"
  shows "flow_in_range (flow_summary fs)"
proof -
  have n: "length fs < 2 ^ 48" using assms(2) by simp
  have "unat (all_bytes fs) < 2 ^ 63" using summary_bytes(1) [OF n] sum_sizes_le [of fs] assms(2) by simp
  moreover have "unat (dir_bytes Inbound fs) + unat (dir_bytes Outbound fs) < 2 ^ 63"
    using summary_bytes(2) [OF n] sum_sizes_le [of "filter (\<lambda>f. ef_direction f \<noteq> Unknown) fs"]
      le_less_trans [OF length_filter_le [of "\<lambda>f. ef_direction f \<noteq> Unknown" fs] assms(2)] by simp
  moreover have "unat (count_if P fs) < 2 ^ 31" for P using count_if_le [of P fs] assms(2) by linarith
  ultimately show ?thesis using assms(1,3) by (simp add: flow_in_range_def flow_summary_def)
qed

text \<open>Each message of a run is about one of its frames, with the summary of the frames of the flow up to it.\<close>

lemma message_of_frame:
  assumes "json \<in> set (messages fs Map.empty)" and "\<forall>f \<in> set fs. ef_flow_key f \<noteq> []"
  shows "\<exists>a f b rt. fs = a @ f # b \<and> published f
    \<and> json = buildJson f (flow_summary (filter (\<lambda>g. ef_flow_key g = ef_flow_key f) a @ [f])) rt"
  using assms
proof (induction fs rule: rev_induct)
  case (snoc f fs)
  let ?t = "fold table_step fs Map.empty"
  have sm: "fst (update_record f (FlowTable_get ?t (ef_flow_key f))) = flow_summary (filter (\<lambda>g. ef_flow_key g = ef_flow_key f) fs @ [f])"
    using flow_run_get [OF snoc.prems(2), of "ef_flow_key f"] flows.lookup_same [of f ?t] by simp
  show ?case
  proof (cases "json \<in> set (messages fs Map.empty)")
    case True
    with snoc obtain a g b rt where "fs = a @ g # b" "published g"
      "json = buildJson g (flow_summary (filter (\<lambda>h. ef_flow_key h = ef_flow_key g) a @ [g])) rt" by auto
    then show ?thesis by (intro exI [of _ a] exI [of _ g] exI [of _ "b @ [f]"] exI [of _ rt]) simp
  next
    case False
    then have "published f" "json = buildJson f (flow_summary (filter (\<lambda>g. ef_flow_key g = ef_flow_key f) fs @ [f]))
        (snd (update_record f (FlowTable_get ?t (ef_flow_key f))))"
      using snoc.prems(1) sm by (auto simp: messages_append flow_tracker_result split: if_splits)
    then show ?thesis by (intro exI [of _ fs] exI [of _ f] exI [of _ "[]"] exI) simp
  qed
qed simp

lemma enrich_facts:
  assumes "enrich ips ts f rest = Some en"
  shows "ef_timestamp en = ts" and "str_ok (ef_flow_key en)"
proof -
  from assms obtain ff d where d: "filter_frame ts f = Some ff" "dissector_stage (f @ rest) ff ips = Some (Some d)" "stats_stage d = Some en"
    by (auto simp: enrich_def split: option.splits)
  have "ef_timestamp en = ff_capture_ts_ms ff"
    using dissector_stage_from [OF d(2)] d(3) by (cases d) (auto simp: dissected_from_def stats_stage_def)
  then show "ef_timestamp en = ts" using d(1) by (auto simp: filter_frame_def split: if_splits)
  show "str_ok (ef_flow_key en)" using d(3) by (rule str_ok_key)
qed

lemma enrich_all_facts:
  "length (enrich_all ips buf fs) \<le> length fs
    \<and> (\<forall>en \<in> set (enrich_all ips buf fs). str_ok (ef_flow_key en) \<and> ef_timestamp en \<in> fst ` set fs)"
proof (induction ips buf fs rule: enrich_all.induct)
  case (2 ips buf ts f fs)
  then show ?case using enrich_facts [of ips ts f "drop (length f) buf"]
    by (cases "enrich ips ts f (drop (length f) buf)") auto
qed simp

lemma messages_pass:
  assumes "length fs < 2 ^ 31" and "\<forall>(ts, f) \<in> set fs. unat ts < 2 ^ 63"
    and "json \<in> set (messages (enrich_all ips buf fs) Map.empty)"
  shows "(passes_validator conv json \<longleftrightarrow> numbers_as_declared conv json) \<and> passes_validator declared_type json"
proof -
  let ?ens = "enrich_all ips buf fs"
  note ok = enrich_all_facts [of ips buf fs]
  obtain a f b rt where f: "?ens = a @ f # b" "published f"
    "json = buildJson f (flow_summary (filter (\<lambda>g. ef_flow_key g = ef_flow_key f) a @ [f])) rt"
    using message_of_frame [OF assms(3)] enrich_all_keys by blast
  let ?own = "filter (\<lambda>g. ef_flow_key g = ef_flow_key f) a @ [f]"
  have ts: "\<forall>en \<in> set ?ens. unat (ef_timestamp en) < 2 ^ 63" using ok assms(2) by fastforce
  have "length ?own \<le> length ?ens" using length_filter_le [of "\<lambda>g. ef_flow_key g = ef_flow_key f" a] by (simp add: f(1) trans_le_add1)
  then have "length ?own < 2 ^ 31" using ok assms(1) by linarith
  then have r: "flow_in_range (flow_summary ?own)" using ts f(1) by (intro summary_in_range) auto
  have k: "str_ok (ef_flow_key f)" "unat (ef_timestamp f) < 2 ^ 63" using ok ts f(1) by simp_all
  show ?thesis unfolding f(3) using message_passes [OF k(1) f(2) k(2) r] by blast
qed


subsection \<open>Properties\<close>

text \<open>C40: The validator cannot be met by typing numbers by their value: a message about a frame that is no
  TCP segment (so also every ARP message) has the number 0 both as \<open>flags\<close>, which has to be an \<open>int\<close>, and as \<open>seq_num\<close>,
  which has to be a \<open>long\<close>. Whatever type a service gives to 0 when it does not look at the member's name,
  the database rejects the document.\<close>

theorem untyped_numbers_rejected:
  assumes "dissector_stage m ff local_ips = Some (Some fr)" and "stats_stage fr = Some f" and "ef_protocol f \<noteq> 6"
  shows "\<not> passes_validator (\<lambda>_. g) (buildJson f flow rt)"
proof -
  have z: "ef_flags f = 0" "ef_seq_num f = 0" using stats_stage_tcp_only(2) [OF dissector_stage_ok [OF assms(1)] assms(2,3)] by simp_all
  have "(''flags'', JNum 0) \<in> set (json_members f flow rt)" "(''seq_num'', JNum 0) \<in> set (json_members f flow rt)"
    by (simp_all add: json_members_def z)
  moreover have "member_passes (''flags'', Bs_Num (g 0) 0) \<longleftrightarrow> g 0 = B_Int" "member_passes (''seq_num'', Bs_Num (g 0) 0) \<longleftrightarrow> g 0 = B_Long"
    by (simp_all add: member_passes_def traffic_flows_def)
  ultimately show ?thesis using buildJson_parses [OF str_ok_key [OF assms(2)], of flow rt]
    by (auto simp: passes_validator_def list_all_iff stored_member_def dest!: bspec)
qed

theorem untyped_numbers_rejected_witness:
  "\<exists>fr e. dissector_stage arp_request arp_request_filtered {} = Some (Some fr) \<and> stats_stage fr = Some e
     \<and> \<not> passes_validator (\<lambda>_ n. if n < 2 ^ 31 then B_Int else B_Long) (buildJson e new_FlowRecord False)"
proof -
  obtain fr e where fr: "dissector_stage arp_request arp_request_filtered {} = Some (Some fr)" "stats_stage fr = Some e"
    by (rule arp_request_dissected)
  have "is_arp_frame fr" using dissector_stage_is_arp [OF fr(1)] arp_request_filtered_ok(2) by simp
  then have "ef_protocol e \<noteq> 6"
    using stats_stage_tcp_only(1) [OF dissector_stage_ok [OF fr(1)] fr(2)] by (auto simp: is_arp_frame_def)
  with untyped_numbers_rejected [OF fr] fr show ?thesis by blast
qed

end
