(* ===== verification/Wire_Packets.thy ===== *)
theory Wire_Packets
  imports Engine
begin

unbundle bit_operations_syntax

text \<open>
  What the pipeline makes of each kind of traffic, from the bytes on the wire to the \<open>EnrichedFrame\<close>:
  a frame is described by its headers (\<open>wire_packet\<close>), laid out as bytes (\<open>wire_frame\<close>), and the
  composition of \<open>filter_stage\<close>, \<open>dissector_stage\<close> and \<open>stats_stage\<close> is shown to yield exactly the record with the
  values of these headers (\<open>wire_enriched\<close>), whatever earlier frames have left in the frame buffer.
\<close>

datatype transport =
    Tcp tcp_segment
  | Udp u16 u16 u16 "u8 list"
  | Icmp u8 u8 u16 u32 "u8 list"
  | Other_Protocol u8 "u8 list"

datatype wire_packet = Ip ip_packet transport | Arp ArpPacket

fun transport_bytes :: "transport \<Rightarrow> u8 list" where
  "transport_bytes (Tcp g) = tcp_wire g"
| "transport_bytes (Udp s d c payload) = udp_wire s d c payload"
| "transport_bytes (Icmp type code c header payload) = icmp_wire type code c header payload"
| "transport_bytes (Other_Protocol p payload) = payload"

fun transport_protocol :: "transport \<Rightarrow> u8" where
  "transport_protocol (Tcp g) = 6"
| "transport_protocol (Udp s d c payload) = 17"
| "transport_protocol (Icmp type code c header payload) = 1"
| "transport_protocol (Other_Protocol p payload) = p"

fun transport_wf :: "transport \<Rightarrow> bool" where
  "transport_wf (Tcp g) = tcp_segment_wf g"
| "transport_wf (Other_Protocol p payload) = (p \<notin> {1, 6, 17})"
| "transport_wf _ = True"

definition arp_frame :: "MACAddress \<Rightarrow> MACAddress \<Rightarrow> ArpPacket \<Rightarrow> u8 list \<Rightarrow> u8 list" where
  "arp_frame dst src a padding = ethernet_wire dst src ETHERTYPE_ARP @ arp_wire a @ padding"

text \<open>A frame that fits into a slot of the packet buffer: at most 2026 bytes behind the Ethernet header.\<close>

fun wire_wf :: "wire_packet \<Rightarrow> u8 list \<Rightarrow> bool" where
  "wire_wf (Ip k t) padding \<longleftrightarrow> ip_packet_wf k \<and> pk_protocol k = transport_protocol t \<and> pk_data k = transport_bytes t
     \<and> transport_wf t \<and> ip_packet_len k + length padding \<le> 2026"
| "wire_wf (Arp a) padding \<longleftrightarrow> arp_wf a \<and> 28 + length padding \<le> 2026"

fun wire_frame :: "MACAddress \<Rightarrow> MACAddress \<Rightarrow> wire_packet \<Rightarrow> u8 list \<Rightarrow> u8 list" where
  "wire_frame dst src (Ip k t) padding = packet_frame dst src k padding"
| "wire_frame dst src (Arp a) padding = arp_frame dst src a padding"

text \<open>The expected record: the part common to all IPv4 packets, and what each kind adds.\<close>

definition ip_enriched :: "LocalIpSet \<Rightarrow> u64 \<Rightarrow> MACAddress \<Rightarrow> MACAddress \<Rightarrow> ip_packet \<Rightarrow> EnrichedFrame" where
  "ip_enriched local_ips ts dst src k = new_EnrichedFrame
     \<lparr>ef_timestamp := ts, ef_src_ip := pk_src k, ef_dst_ip := pk_dst k, ef_protocol := pk_protocol k,
      ef_packet_size := of_nat (ip_packet_len k), ef_direction := resolveDirection (pk_src k) (pk_dst k) local_ips,
      ef_ttl := pk_ttl k, ef_src_mac := src, ef_dst_mac := dst, ef_checksum_valid := ip_checksum_valid (ip_wire_header k)\<rparr>"

fun wire_enriched :: "LocalIpSet \<Rightarrow> u64 \<Rightarrow> MACAddress \<Rightarrow> MACAddress \<Rightarrow> wire_packet \<Rightarrow> EnrichedFrame" where
  "wire_enriched ips ts dst src (Ip k (Tcp g)) = (ip_enriched ips ts dst src k)
     \<lparr>ef_src_port := sg_src_port g, ef_dst_port := sg_dst_port g, ef_flags := sg_flag_byte g AND 0x3F, ef_seq_num := sg_seq g,
      ef_flow_key := makeFlowKey (pk_src k) (sg_src_port g) (pk_dst k) (sg_dst_port g)\<rparr>"
| "wire_enriched ips ts dst src (Ip k (Udp s d c payload)) = (ip_enriched ips ts dst src k)
     \<lparr>ef_src_port := s, ef_dst_port := d, ef_flow_key := makeFlowKey (pk_src k) s (pk_dst k) d\<rparr>"
| "wire_enriched ips ts dst src (Ip k (Icmp type code c header payload)) = (ip_enriched ips ts dst src k)
     \<lparr>ef_icmp_type := type, ef_icmp_code := code, ef_flow_key := makeFlowKey (pk_src k) 0 (pk_dst k) 0\<rparr>"
| "wire_enriched ips ts dst src (Ip k (Other_Protocol p payload)) = (ip_enriched ips ts dst src k)
     \<lparr>ef_flow_key := makeFlowKey (pk_src k) 0 (pk_dst k) 0\<rparr>"
| "wire_enriched ips ts dst src (Arp a) = new_EnrichedFrame
     \<lparr>ef_timestamp := ts, ef_src_ip := arp_sender_ip a, ef_dst_ip := arp_target_ip a, ef_src_mac := src, ef_dst_mac := dst,
      ef_arp_sender_ip := arp_sender_ip a, ef_arp_sender_mac := arp_sender_mac a, ef_arp_target_ip := arp_target_ip a,
      ef_arp_opcode := arp_oper a, ef_flow_key := makeArpFlowKey (arp_sender_ip a)\<rparr>"


subsection \<open>IPv4 packets\<close>

lemma transport_dissected:
  assumes wf: "wire_wf (Ip k t) padding" and mac: "length dst = 6" "length src = 6"
  shows "\<exists>d. dissect_transport (packet_frame dst src k padding @ rest) eth (packet_ip_header k ips) ts = Some (Some d)
    \<and> (eth_src_mac eth = src \<longrightarrow> eth_dst_mac eth = dst \<longrightarrow> stats_stage d = Some (wire_enriched ips ts dst src (Ip k t)))"
proof -
  define before where "before = ethernet_wire dst src ETHERTYPE_IPV4 @ ip_wire_header k"
  let ?len = "of_nat (length (pk_data k)) :: size_t"
  have k: "ip_packet_wf k" "pk_protocol k = transport_protocol t" "pk_data k = transport_bytes t" "transport_wf t" using wf by simp_all
  have split: "packet_frame dst src k padding @ rest = before @ transport_bytes t @ (padding @ rest)"
    and q: "14 + 4 * unat (pk_ihl k) = length before"
    using mac k by (simp_all add: before_def packet_frame_def ethernet_wire_def bytes_be16_def length_ip_wire_header [OF k(1)])
  have len: "unat ?len = length (transport_bytes t)"
    using wf k(3) by (simp add: unat_of_nat take_bit_nat_eq_self ip_packet_len_def)
  note simps = dissect_transport_def packet_ip_header_def stats_stage_def ip_enriched_def k(2) q
  let ?goal = "\<exists>d. dissect_transport (before @ transport_bytes t @ padding @ rest) eth (packet_ip_header k ips) ts = Some (Some d)
      \<and> (eth_src_mac eth = src \<longrightarrow> eth_dst_mac eth = dst \<longrightarrow> stats_stage d = Some (wire_enriched ips ts dst src (Ip k t)))"
  have ?goal
  proof (cases t)
    case (Tcp g)
    have "unat ?len = length (tcp_wire g)" "tcp_segment_wf g" using len k(4) Tcp by simp_all
    from tcp_of_segment [OF this(2,1), of before "padding @ rest"] show ?goal by (simp add: Tcp simps)
  next
    case (Udp s d c payload)
    have l: "unat ?len = 8 + length payload + length ([] :: u8 list)" "8 + length payload < 65536"
      using len Udp wf k(3) by (simp_all add: udp_wire_def bytes_be16_def ip_packet_len_def)
    from udp_of_datagram [OF l(2,1), of before s d c "padding @ rest"] show ?goal by (simp add: Udp simps)
  next
    case (Icmp type code c header payload)
    have "unat ?len = 8 + length payload" using len Icmp by (simp add: icmp_wire_def bytes_be16_def bytes_be32_def)
    from icmp_of_message [OF this, of before type code c header "padding @ rest"] show ?goal by (simp add: Icmp simps)
  next
    case (Other_Protocol p payload)
    then show ?goal using k(4) by (simp add: simps)
  qed
  then show ?thesis unfolding split .
qed

lemma ip_packet_enriched:
  assumes "wire_wf (Ip k t) padding" and mac: "length dst = 6" "length src = 6"
  shows "enrich ips ts (packet_frame dst src k padding) rest = Some (wire_enriched ips ts dst src (Ip k t))"
proof -
  have k: "ip_packet_wf k" "ip_packet_len k + length padding \<le> 2026" using assms(1) by simp_all
  note ff = packet_frame_filtered [OF k(1) mac, of ts padding]
  obtain d where d: "dissect_transport (packet_frame dst src k padding @ rest) \<lparr>eth_dst_mac = dst, eth_src_mac = src,
      eth_ethertype = ETHERTYPE_IPV4, eth_payload = Ptr 14, eth_payload_size = of_nat (ip_packet_len k + length padding),
      eth_valid = True\<rparr> (packet_ip_header k ips) ts = Some (Some d)" "stats_stage d = Some (wire_enriched ips ts dst src (Ip k t))"
    using transport_dissected [OF assms] by fastforce
  show ?thesis
    using dissector_packet_frame [OF k(1) mac k(2) ff, of rest ips] d ff
    by (simp add: enrich_def packet_ip_header_def)
qed


subsection \<open>ARP packets\<close>

lemma length_arp_wire: "arp_wf a \<Longrightarrow> length (arp_wire a) = 28"
  by (simp add: arp_wire_def arp_wf_def bytes_be16_def bytes_be32_def)

lemma arp_frame_filtered:
  assumes "arp_wf a" and "length dst = 6" and "length src = 6"
  shows "filter_frame ts (arp_frame dst src a padding) = Some \<lparr>ff_eth = \<lparr>eth_dst_mac = dst, eth_src_mac = src,
      eth_ethertype = ETHERTYPE_ARP, eth_payload = Ptr 14, eth_payload_size = of_nat (28 + length padding),
      eth_valid = True\<rparr>, ff_capture_ts_ms = ts\<rparr>"
proof -
  let ?f = "arp_frame dst src a padding"
  have "length ?f = 14 + (28 + length padding)"
    using assms by (simp add: arp_frame_def ethernet_wire_def bytes_be16_def length_arp_wire)
  moreover have "?f ! 12 = ucast (drop_bit 8 ETHERTYPE_ARP)" "?f ! 13 = ucast ETHERTYPE_ARP" "take 6 ?f = dst" "take 6 (drop 6 ?f) = src"
    using assms by (simp_all add: arp_frame_def ethernet_wire_def bytes_be16_def nth_append)
  ultimately show ?thesis by (simp add: filter_frame_def eth_of_frame_def)
qed

lemma arp_packet_enriched:
  assumes "wire_wf (Arp a) padding" and mac: "length dst = 6" "length src = 6"
  shows "enrich ips ts (arp_frame dst src a padding) rest = Some (wire_enriched ips ts dst src (Arp a))"
proof -
  define before where "before = ethernet_wire dst src ETHERTYPE_ARP"
  have a: "arp_wf a" "length padding \<le> 1998" using assms(1) by simp_all
  have q: "(14 :: nat) = length before" and split: "arp_frame dst src a padding @ rest = before @ arp_wire a @ (padding @ rest)"
    using mac by (simp_all add: before_def arp_frame_def ethernet_wire_def bytes_be16_def)
  have "unat (of_nat (28 + length padding) :: size_t) = 28 + length padding" using a(2) by (simp only: unat_of_nat take_bit_nat_eq_self_iff) simp
  then have "parseArpPacket (before @ arp_wire a @ padding @ rest) (Ptr (length before)) (of_nat (28 + length padding)) = Some (Some a)"
    by (intro arp_of_packet [OF a(1)]) simp_all
  then show ?thesis
    using arp_frame_filtered [OF a(1) mac, of ts padding]
    by (simp add: enrich_def dissector_stage_arp split stats_stage_def flip: q)
qed


subsection \<open>All kinds of packets\<close>

text \<open>From the wire to the flow tracker: fields that the protocol of a packet does not have keep their
  defaults, and bytes behind the frame in the buffer have no effect.\<close>

lemma wire_enriched_of:
  assumes "wire_wf w padding" and "length dst = 6" and "length src = 6"
  shows "enrich ips ts (wire_frame dst src w padding) rest = Some (wire_enriched ips ts dst src w)"
  using assms by (cases w) (simp_all only: wire_frame.simps ip_packet_enriched arp_packet_enriched)

lemma str_ok_wire: "str_ok (ef_flow_key (wire_enriched ips ts dst src w))"
proof (cases w)
  case (Ip k t)
  then show ?thesis by (cases t) (simp_all add: makeFlowKey_def)
qed (simp add: makeArpFlowKey_def)

text \<open>A DNS query from 10.0.0.1 to 10.0.0.2.\<close>

definition dns_query :: wire_packet where
  "dns_query = Ip \<lparr>pk_ihl = 5, pk_tos = 0, pk_id = 1, pk_frag = 0, pk_ttl = 64, pk_protocol = 17, pk_checksum = 0,
     pk_src = 0x0A000001, pk_dst = 0x0A000002, pk_options = [], pk_data = udp_wire 50000 53 0 [1, 2]\<rparr> (Udp 50000 53 0 [1, 2])"

lemma dns_query_wf: "wire_wf dns_query [0]"
  by (simp add: dns_query_def ip_packet_wf_def ip_packet_len_def udp_wire_def bytes_be16_def)

lemma dns_query_length: "length (wire_frame (replicate 6 1) (replicate 6 2) dns_query [0]) = 45"
  by (simp add: dns_query_def packet_frame_def ethernet_wire_def ip_wire_header_def udp_wire_def bytes_be16_def bytes_be32_def)

end
