(* ===== verification/Hex_Dump.thy ===== *)
theory Hex_Dump
  imports Logger Ethernet_Parser
begin

unbundle bit_operations_syntax

text \<open>
  \<open>include/utils/hex_dump.h\<close> and \<open>src/utils/hex_dump.cpp\<close>: the hex dump of a byte range and the
  one-line summary of a frame, both written through the logger. The offsets of the dump are
  natural numbers: no object is large enough for \<open>offset + 16\<close> to wrap around. The dump is shown
  to be lossless.
\<close>

definition formatMAC :: "mem \<Rightarrow> ptr \<Rightarrow> string option" where
  "formatMAC m bytes = map_option
     (\<lambda>bs. concat (map (\<lambda>i. (if i > 0 then '':'' else []) @ hex2 (bs ! i)) [0..<6])) (load_bytes m bytes 0 6)"

definition isprint :: "u8 \<Rightarrow> bool" where
  "isprint b \<longleftrightarrow> 0x20 \<le> unat b \<and> unat b < 0x7F"

text \<open>One iteration of the loop over \<open>offset\<close>, given the bytes of the row.\<close>

definition dump_row :: "nat \<Rightarrow> u8 list \<Rightarrow> string" where
  "dump_row offset row =
     ''  '' @ setw 4 CHR ''0'' (hex_string offset) @ ''  ''
     @ concat (map (\<lambda>i. (if i < length row then hex2 (row ! i) @ '' '' else ''   '')
         @ (if i = 7 then '' '' else [])) [0..<16])
     @ '' |'' @ map (\<lambda>b. if isprint b then char_of (unat b) else CHR ''.'') row @ ''|'' @ [CHR 0x0A]"

function dump_rows :: "mem \<Rightarrow> ptr \<Rightarrow> nat \<Rightarrow> nat \<Rightarrow> string option" where
  "dump_rows m data len offset =
     (if offset < len then do {
        row \<leftarrow> load_bytes m data offset (min 16 (len - offset));
        rest \<leftarrow> dump_rows m data len (offset + 16);
        Some (dump_row offset row @ rest) }
      else Some [])"
  by auto
termination by (relation "measure (\<lambda>(m, data, len, offset). len - offset)") auto

declare dump_rows.simps [simp del]

definition hexDump :: "(nat \<Rightarrow> string) \<Rightarrow> nat \<Rightarrow> mem \<Rightarrow> ptr \<Rightarrow> size_t \<Rightarrow> string \<Rightarrow> Logger \<Rightarrow> Logger option" where
  "hexDump local_time now m data len label lg =
     (if data = nullptr \<or> len = 0 then Some lg
      else do {
        rows \<leftarrow> dump_rows m data (unat len) 0;
        let out = (if label \<noteq> [] then label @ '' ('' @ dec_string (unat len) @ '' bytes)'' @ [CHR 0x0A] else []) @ rows;
        Some (log_info local_time now out lg) })"

definition proto_name :: "u16 \<Rightarrow> string" where
  "proto_name ethertype =
     (if ethertype = 0x0800 then ''IPv4'' else if ethertype = 0x0806 then ''ARP''
      else if ethertype = 0x86DD then ''IPv6''
      else ''0x'' @ setw 4 CHR ''0'' (hex_string (unat ethertype)))"

definition logFrameSummary :: "(nat \<Rightarrow> string) \<Rightarrow> nat \<Rightarrow> mem \<Rightarrow> ptr \<Rightarrow> size_t \<Rightarrow> u64 \<Rightarrow> Logger \<Rightarrow> (u16 \<times> Logger) option" where
  "logFrameSummary local_time now m data len timestamp_ms lg =
     (if data = nullptr \<or> len < 14 then
        Some (0, log_warn local_time now (''logFrameSummary: frame too short ('' @ dec_string (unat len)
          @ '' bytes) '' @ em_dash @ '' skipping'') lg)
      else do {
        dst_mac \<leftarrow> formatMAC m (ptr_add data 0);
        src_mac \<leftarrow> formatMAC m (ptr_add data 6);
        b12 \<leftarrow> load m data 12;
        b13 \<leftarrow> load m data 13;
        let ethertype = (push_bit 8 (ucast b12) OR ucast b13 :: u16);
        let proto = proto_name ethertype;
        Some (ethertype, log_info local_time now
          (''FRAME '' @ setw 5 CHR '' '' (dec_string (unat len)) @ ''B'' @ ''  ts='' @ dec_string (unat timestamp_ms)
           @ ''  dst='' @ dst_mac @ ''  src='' @ src_mac @ ''  EtherType='' @ proto) lg) })"


subsection \<open>The dump as a function of the bytes\<close>

function rows_text :: "nat \<Rightarrow> u8 list \<Rightarrow> string" where
  "rows_text offset bs = (if bs = [] then [] else dump_row offset (take 16 bs) @ rows_text (offset + 16) (drop 16 bs))"
  by auto
termination by (relation "measure (\<lambda>(offset, bs). length bs)") auto

declare rows_text.simps [simp del]

lemma dump_rows_bytes:
  assumes "readable m p len" and "offset \<le> len"
  shows "dump_rows m p len offset = Some (rows_text offset (drop offset (bytes_at m p len)))"
  using assms
proof (induction m p len offset rule: dump_rows.induct)
  case (1 m p len offset)
  have len: "length (bytes_at m p len) = len" using 1(2) by (rule length_bytes_at)
  show ?case
  proof (cases "offset < len")
    case True
    let ?n = "min 16 (len - offset)"
    have row: "load_bytes m p offset ?n = Some (take 16 (drop offset (bytes_at m p len)))"
    proof -
      have "take ?n (drop offset (bytes_at m p len)) = take 16 (drop offset (bytes_at m p len))"
        using len by (cases "16 \<le> len - offset") (simp_all add: min_def)
      moreover have "offset + ?n \<le> len" using True by linarith
      ultimately show ?thesis using load_bytes_readable [OF 1(2), of offset ?n] by simp
    qed
    have rest: "dump_rows m p len (offset + 16) = Some (rows_text (offset + 16) (drop (offset + 16) (bytes_at m p len)))"
    proof (cases "offset + 16 \<le> len")
      case inside: True
      then show ?thesis using 1(1) [OF True row 1(2)] by simp
    next
      case False
      then show ?thesis using len by (subst dump_rows.simps, subst rows_text.simps) simp
    qed
    show ?thesis using True len
      by (subst dump_rows.simps, subst rows_text.simps) (simp add: row rest add.commute)
  next
    case False
    then show ?thesis using len by (subst dump_rows.simps, subst rows_text.simps) simp
  qed
qed

lemma digit_not_space: "d < 16 \<Longrightarrow> digit_char d \<noteq> CHR '' ''"
  by (auto simp: digit_char_def char_of_eq_iff take_bit_nat_eq_self)

lemma hex2_not_spaces: "hex2 b @ '' '' \<noteq> ''   ''"
  using digit_not_space [of "unat b div 16"] unat_u8_less [of b] by (simp add: hex2_digits)

lemma same_length_prefix: "a @ x = b @ y \<Longrightarrow> length a = length b \<Longrightarrow> a = b"
  by simp

lemma cell_inject:
  assumes "(if p then hex2 a @ '' '' else ''   '') = (if q then hex2 b @ '' '' else ''   '')"
  shows "(p \<longleftrightarrow> q) \<and> (p \<longrightarrow> a = b)"
  using assms hex2_not_spaces [of a] hex2_not_spaces [of b] by (metis append_same_eq hex2_inject)

lemma dump_row_split:
  assumes len: "length xs \<le> 16" "length ys \<le> 16" and eq: "dump_row offset xs @ us = dump_row offset ys @ vs"
  shows "xs = ys \<and> us = vs"
proof -
  let ?cell = "\<lambda>xs i. (if i < length xs then hex2 (xs ! i) @ '' '' else ''   '') @ (if i = 7 then '' '' else [])"
  have w: "length (?cell zs i) = (if i = 7 then 4 else 3)" for zs :: "u8 list" and i by simp
  have cl: "length (concat (map (?cell zs) [0..<16])) = 49" for zs :: "u8 list"
    by (simp add: length_concat upt_rec comp_def)
  have "concat (map (?cell xs) [0..<16]) = concat (map (?cell ys) [0..<16])"
    using same_length_prefix [OF eq [unfolded dump_row_def append_assoc same_append_eq]] cl by metis
  then have "map (?cell xs) [0..<16] = map (?cell ys) [0..<16]"
    by (subst (asm) concat_eq_concat_iff) (auto simp: w set_zip)
  then have cell: "?cell xs i = ?cell ys i" if "i < 16" for i
    using that by (simp add: map_eq_conv)
  have same: "(i < length xs \<longleftrightarrow> i < length ys) \<and> (i < length xs \<longrightarrow> xs ! i = ys ! i)" if "i < 16" for i
    using cell_inject [OF cell [OF that, unfolded append_same_eq]] by blast
  have "length xs = length ys"
    using same [of "length xs"] same [of "length ys"] len by (cases "length xs < 16"; cases "length ys < 16") auto
  moreover from this have "xs = ys" using same len by (intro nth_equalityI) auto
  ultimately show ?thesis using eq by simp
qed

lemma rows_text_inject: "rows_text offset xs = rows_text offset ys \<Longrightarrow> xs = ys"
proof (induction offset xs arbitrary: ys rule: rows_text.induct)
  case (1 offset xs)
  consider "xs = []" "ys = []" | "xs = [] \<longleftrightarrow> ys \<noteq> []" | "xs \<noteq> []" "ys \<noteq> []" by blast
  then show ?case
  proof cases
    case 2
    then show ?thesis using 1(2) by (subst (asm) (1 2) rows_text.simps) (auto simp: dump_row_def split: if_splits)
  next
    case 3
    then have "dump_row offset (take 16 xs) @ rows_text (offset + 16) (drop 16 xs)
      = dump_row offset (take 16 ys) @ rows_text (offset + 16) (drop 16 ys)"
      using 1(2) by (subst (asm) (1 2) rows_text.simps) simp
    from dump_row_split [OF _ _ this] have "take 16 xs = take 16 ys"
      "rows_text (offset + 16) (drop 16 xs) = rows_text (offset + 16) (drop 16 ys)" by simp_all
    then show ?thesis using 1(1) [OF 3(1)] by (metis append_take_drop_id)
  qed simp
qed

lemma formatMAC_readable: "readable m p 6 \<Longrightarrow> formatMAC m p = Some (macToString (bytes_at m p 6))"
  using load_bytes_readable [of m p 6 0 6] by (simp add: formatMAC_def macToString_def length_bytes_at)

definition dump_label :: "string \<Rightarrow> nat \<Rightarrow> string" where
  "dump_label label n = (if label \<noteq> [] then label @ '' ('' @ dec_string n @ '' bytes)'' @ [CHR 0x0A] else [])"

lemma hexDump_bytes:
  assumes "readable m p (unat len)" and "len \<noteq> 0"
  shows "hexDump lt now m p len label lg =
    Some (log_info lt now (dump_label label (unat len) @ rows_text 0 (bytes_at m p (unat len))) lg)"
proof -
  have "p \<noteq> nullptr" using assms(1) by auto
  then show ?thesis using assms by (simp add: hexDump_def dump_rows_bytes dump_label_def)
qed

lemma dump_text_inject:
  assumes "dump_label label n @ rows_text 0 xs = dump_label label k @ rows_text 0 ys"
  shows "xs = ys"
proof (cases "label = []")
  case True
  then show ?thesis using assms rows_text_inject [of 0 xs ys] by (simp add: dump_label_def)
next
  case False
  then have "dec_string n @ CHR '' '' # (''bytes)'' @ [CHR 0x0A] @ rows_text 0 xs)
    = dec_string k @ CHR '' '' # (''bytes)'' @ [CHR 0x0A] @ rows_text 0 ys)"
    using assms by (simp add: dump_label_def)
  then have "rows_text 0 xs = rows_text 0 ys"
    by (subst (asm) dec_string_split) (simp_all add: is_digit_def)
  then show ?thesis by (rule rows_text_inject)
qed

lemma log_line_inject: "log_line lt now level a = log_line lt now level b \<longleftrightarrow> a = b"
  by (simp add: log_line_def Let_def)


subsection \<open>Properties\<close>

text \<open>C38: A hex dump is lossless and safe: dumping a readable range never reads outside it, and two
  dumps written with the same label at the same time that look alike show the same bytes, of
  the same number, also when they are not printable.\<close>

theorem hexDump_lossless:
  assumes "readable m p (unat len)" and "readable m' p' (unat len')" and "len \<noteq> 0" and "len' \<noteq> 0"
    and "lg_level lg = INFO"
  shows "\<exists>lg1 lg2. hexDump lt now m p len label lg = Some lg1 \<and> hexDump lt now m' p' len' label lg = Some lg2
    \<and> (lg_out lg1 = lg_out lg2 \<longleftrightarrow> bytes_at m p (unat len) = bytes_at m' p' (unat len'))"
proof -
  let ?bs = "bytes_at m p (unat len)" and ?bs' = "bytes_at m' p' (unat len')"
  let ?t = "dump_label label (unat len) @ rows_text 0 ?bs" and ?t' = "dump_label label (unat len') @ rows_text 0 ?bs'"
  have "lg_out (log_info lt now ?t lg) = lg_out (log_info lt now ?t' lg) \<longleftrightarrow> ?t = ?t'"
    using assms(5) by (simp add: log_info_def Logger_info_def Logger_log_def log_line_inject)
  moreover have "?t = ?t' \<longleftrightarrow> ?bs = ?bs'"
    using dump_text_inject length_bytes_at [OF assms(1)] length_bytes_at [OF assms(2)] by metis
  ultimately show ?thesis using hexDump_bytes [OF assms(1,3)] hexDump_bytes [OF assms(2,4)] by simp
qed

theorem hexDump_lossless_witness:
  "\<exists>lg1 lg2. hexDump (\<lambda>_. []) 0 [0, 1] (Ptr 0) 2 ''f'' new_Logger = Some lg1
    \<and> hexDump (\<lambda>_. []) 0 [0, 7] (Ptr 0) 2 ''f'' new_Logger = Some lg2 \<and> lg_out lg1 \<noteq> lg_out lg2"
  using hexDump_lossless [of "[0, 1]" "Ptr 0" 2 "[0, 7]" "Ptr 0" 2 new_Logger "\<lambda>_. []" 0 "''f''"]
  by (auto simp: new_Logger_def)

text \<open>The frame summary agrees with the Ethernet parser: for a frame the parser accepts,
  \<open>logFrameSummary\<close> returns the EtherType that the parser finds and logs one line with the size,
  the capture time and the parser's own rendering of the two MAC addresses.\<close>

theorem logFrameSummary_agrees:
  assumes "readable m p (unat len)" and "ethernet_parse m p len = Some f" and "eth_valid f"
  shows "logFrameSummary lt now m p len ts lg = Some (eth_ethertype f, log_info lt now
      (''FRAME '' @ setw 5 CHR '' '' (dec_string (unat len)) @ ''B  ts='' @ dec_string (unat ts)
       @ ''  dst='' @ dstMacString f @ ''  src='' @ srcMacString f @ ''  EtherType='' @ proto_name (eth_ethertype f)) lg)"
proof -
  have p: "p \<noteq> nullptr" using assms(1) by auto
  have len: "15 \<le> unat len"
    using assms(2,3) p by (cases "unat len < 15") (auto simp: ethernet_parse_def ethernet_min_less empty_frame_def)
  note f = ethernet_parse_valid [OF assms(1) len]
  have mac: "formatMAC m (ptr_add p k) = Some (macToString (take 6 (drop k (bytes_at m p (unat len)))))" if "k \<le> 6" for k
    using that len readable_ptr_add [OF assms(1), of k 6] by (simp add: formatMAC_readable bytes_at_sub [of k 6 "unat len"])
  have "\<not> len < 14" using len by (simp add: word_less_nat_alt)
  then show ?thesis
    using assms(2) f len p mac [of 0] mac [of 6]
    by (auto simp: logFrameSummary_def Let_def load_readable [OF assms(1)] be16_def dstMacString_def srcMacString_def)
qed

theorem logFrameSummary_agrees_witness:
  "\<exists>lg. logFrameSummary (\<lambda>_. []) 0 (replicate 12 9 @ [8, 6, 1]) (Ptr 0) 15 7 new_Logger = Some (0x0806, lg)"
proof -
  have rd: "readable (replicate 12 9 @ [8, 6, 1]) (Ptr 0) (unat (15 :: size_t))" by simp
  obtain f where f: "ethernet_parse (replicate 12 9 @ [8, 6, 1]) (Ptr 0) 15 = Some f" "eth_valid f" "eth_ethertype f = 0x0806"
    using ethernet_parse_valid [OF rd] by (simp add: nth_append be16_def)
  from logFrameSummary_agrees [OF rd f(1,2)] f(3) show ?thesis by simp
qed

end
