(* ===== verification/Stage_Logs.thy ===== *)
theory Stage_Logs
  imports Dissector_Stage Logger
begin

unbundle bit_operations_syntax

text \<open>
  The messages that \<open>PacketBuffer::read\<close>, \<open>filter_stage\<close> and \<open>dissector_stage\<close> send to the logger. Each
  definition follows the control flow of the operation in its own theory and lists the calls of
  the logger in order; a dropped frame is reported with its reason, and most of the checks of the
  filter stage are shown to be unreachable.
\<close>

type_synonym log_calls = "(LogLevel \<times> string) list"

definition packet_read_log :: "u8 list \<Rightarrow> bool \<Rightarrow> bool \<Rightarrow> size_t \<Rightarrow> PacketBuffer \<Rightarrow> log_calls" where
  "packet_read_log slot_buf stop_wait stop_after out_capacity pb =
     (case ring_read stop_wait stop_after slot_buf 0 pb of
        Returns (ok, _, slot_size, _) \<Rightarrow>
          if \<not> ok then []
          else if slot_size < TIMESTAMP_SIZE then
            [(ERROR, ''packet_buffer: slot_size < TIMESTAMP_SIZE '' @ em_dash @ '' memory corruption or constant mismatch'')]
          else let out_size = slot_size - TIMESTAMP_SIZE in
            if out_size > out_capacity then
              [(ERROR, ''packet_buffer: frame size '' @ dec_string (unat out_size) @ '' exceeds buffer capacity ''
                 @ dec_string (unat out_capacity))]
            else []
      | _ \<Rightarrow> [])"

definition filter_stage_log :: "byte_order \<Rightarrow> u8 list \<Rightarrow> bool \<Rightarrow> bool \<Rightarrow> PacketBuffer \<Rightarrow> u8 list \<Rightarrow> size_t \<Rightarrow> log_calls" where
  "filter_stage_log e slot_buf stop_wait stop_after packet_buf frame_buf buf_capacity =
     packet_read_log slot_buf stop_wait stop_after buf_capacity packet_buf @
     (case packet_read e slot_buf stop_wait stop_after frame_buf buf_capacity 0 0 packet_buf of
        Returns r \<Rightarrow> let frame_buf = rd_data r; frame_size = rd_size r in
          if \<not> rd_ok r then []
          else if frame_size < ETHERNET_MIN_SIZE then
            [(WARN, ''filter_stage: frame too short ('' @ dec_string (unat frame_size) @ '' bytes) '' @ em_dash @ '' dropped'')]
          else if frame_size > buf_capacity then
            [(WARN, ''filter_stage: frame exceeds buffer capacity '' @ em_dash @ '' dropped'')]
          else (case ethernet_parse frame_buf (Ptr 0) frame_size of
              None \<Rightarrow> []
            | Some eth \<Rightarrow>
                if \<not> eth_valid eth then [(WARN, ''filter_stage: invalid Ethernet frame '' @ em_dash @ '' dropped'')]
                else if eth_payload_size eth = 0 then [(WARN, ''filter_stage: empty payload '' @ em_dash @ '' dropped'')]
                else [])
      | _ \<Rightarrow> [])"

definition dissector_stage_log :: "mem \<Rightarrow> FilteredFrame \<Rightarrow> LocalIpSet \<Rightarrow> log_calls option" where
  "dissector_stage_log m filtered local_ips =
     (let eth = ff_eth filtered; dropped = (\<lambda>what. [(WARN, ''dissector_stage: '' @ what @ '' '' @ em_dash @ '' dropped'')]) in
      if eth_ethertype eth = ETHERTYPE_ARP then do {
        arp \<leftarrow> parseArpPacket m (eth_payload eth) (eth_payload_size eth);
        Some (if arp = None then dropped ''ARP parse failed'' else []) }
      else if eth_payload_size eth < 20 then Some (dropped ''IPv4 payload too short'')
      else do {
        s0 \<leftarrow> load m (eth_payload eth) 12;
        s1 \<leftarrow> load m (eth_payload eth) 13;
        s2 \<leftarrow> load m (eth_payload eth) 14;
        s3 \<leftarrow> load m (eth_payload eth) 15;
        let peek_src = push_bit 24 (ucast s0) OR push_bit 16 (ucast s1) OR push_bit 8 (ucast s2) OR ucast s3;
        d0 \<leftarrow> load m (eth_payload eth) 16;
        d1 \<leftarrow> load m (eth_payload eth) 17;
        d2 \<leftarrow> load m (eth_payload eth) 18;
        d3 \<leftarrow> load m (eth_payload eth) 19;
        let peek_dst = push_bit 24 (ucast d0) OR push_bit 16 (ucast d1) OR push_bit 8 (ucast d2) OR ucast d3;
        let dir = resolveDirection peek_src peek_dst local_ips;
        ip \<leftarrow> parseIpHeader m (eth_payload eth) (eth_payload_size eth) dir;
        (case ip of None \<Rightarrow> Some (dropped ''IP parse failed'')
         | Some ip \<Rightarrow>
             if ip_protocol ip = 6 then do {
               tcp \<leftarrow> parseTcpHeader m (ip_payload ip) (ip_payload_len ip);
               Some (if tcp = None then dropped ''TCP parse failed'' else []) }
             else if ip_protocol ip = 17 then do {
               udp \<leftarrow> parseUdpHeader m (ip_payload ip) (ip_payload_len ip);
               Some (if udp = None then dropped ''UDP parse failed'' else []) }
             else if ip_protocol ip = 1 then do {
               icmp \<leftarrow> parseIcmpHeader m (ip_payload ip) (ip_payload_len ip) (ip_total_length ip);
               Some (if icmp = None then dropped ''ICMP parse failed'' else []) }
             else Some []) })"

text \<open>What a dropped frame is reported with, read off the frame itself and the verdicts of the header
  parsers: an ARP packet that does not parse, fewer than 20 bytes for an IPv4 header, an IPv4 header
  that does not parse, or a transport header of the protocol the IPv4 header names. The direction
  of the traffic is not looked at.\<close>

definition drop_reason :: "mem \<Rightarrow> EthernetFrame \<Rightarrow> string" where
  "drop_reason m eth =
     (if eth_ethertype eth = ETHERTYPE_ARP then ''ARP parse failed''
      else if eth_payload_size eth < 20 then ''IPv4 payload too short''
      else case parseIpHeader m (eth_payload eth) (eth_payload_size eth) Unknown of
          Some (Some ip) \<Rightarrow> (if ip_protocol ip = 6 then ''TCP'' else if ip_protocol ip = 17 then ''UDP'' else ''ICMP'') @ '' parse failed''
        | _ \<Rightarrow> ''IP parse failed'')"

definition drop_warning :: "string \<Rightarrow> log_calls" where
  "drop_warning why = [(WARN, ''dissector_stage: '' @ why @ '' '' @ em_dash @ '' dropped'')]"

text \<open>A computation and the messages it writes go the same way: the warning with the given reason when
  the frame is dropped, none otherwise.\<close>

definition logs_drop :: "string \<Rightarrow> 'a option option \<Rightarrow> log_calls option \<Rightarrow> bool" where
  "logs_drop why d l \<longleftrightarrow> (\<forall>r. d = Some r \<longrightarrow> l = Some (if r = None then drop_warning why else []))"

lemma logs_drop_bind: "(\<And>x. a = Some x \<Longrightarrow> logs_drop why (f x) (g x)) \<Longrightarrow> logs_drop why (a \<bind> f) (a \<bind> g)"
  by (cases a) (simp_all add: logs_drop_def)

lemma logs_drop_if:
  "(P \<Longrightarrow> logs_drop why a a') \<Longrightarrow> (\<not> P \<Longrightarrow> logs_drop why b b') \<Longrightarrow> logs_drop why (if P then a else b) (if P then a' else b')"
  by simp

lemma logs_drop_case:
  "(y = None \<Longrightarrow> logs_drop why a a') \<Longrightarrow> (\<And>x. y = Some x \<Longrightarrow> logs_drop why (f x) (g x))
    \<Longrightarrow> logs_drop why (case y of None \<Rightarrow> a | Some x \<Rightarrow> f x) (case y of None \<Rightarrow> a' | Some x \<Rightarrow> g x)"
  by (cases y) simp_all

lemma logs_drop_last: "msg = drop_warning why \<Longrightarrow>
    logs_drop why (case y of None \<Rightarrow> Some None | Some x \<Rightarrow> Some (Some (f x))) (Some (if y = None then msg else []))"
  by (cases y) (simp_all add: logs_drop_def)

lemma logs_drop_now: "msg = drop_warning why \<Longrightarrow> logs_drop why (Some None) (Some msg)"
  by (simp add: logs_drop_def)

lemma logs_drop_none: "logs_drop why (Some (Some x)) (Some [])"
  by (simp add: logs_drop_def)

text \<open>The verdict of the IPv4 parser and the protocol it reads do not depend on the direction.\<close>

lemma parseIpHeader_direction:
  "parseIpHeader m p n dir = map_option (map_option (\<lambda>ip. ip\<lparr>ip_direction := dir\<rparr>)) (parseIpHeader m p n Unknown)"
  by (auto simp: parseIpHeader_def Let_def split: Option.bind_splits)

lemma dissector_log_result:
  "logs_drop (drop_reason m (ff_eth ff)) (dissector_stage m ff local_ips) (dissector_stage_log m ff local_ips)"
  unfolding dissector_stage_def dissector_stage_log_def Let_def
  apply (intro logs_drop_last logs_drop_if logs_drop_bind logs_drop_case logs_drop_now logs_drop_none)
  apply (auto simp add: drop_reason_def drop_warning_def parseIpHeader_direction [where dir = "resolveDirection _ _ _"])
  done

text \<open>The read of the oldest frame writes nothing when the frame fits the caller's buffer.\<close>

lemma packet_read_log_first:
  assumes inv: "packet_inv pb" and fr: "packet_frames e pb = (ts, f) # fs" and buf: "length slot_buf = 2048" and fits: "length f \<le> unat cap"
  shows "packet_read_log slot_buf sw sa cap pb = []"
proof -
  obtain s ss where s: "ring_frames pb = s # ss" "packet_of_slot e s = (ts, f)" using fr by (auto simp: packet_frames_def)
  then have sz: "9 \<le> length s" "f = drop 8 s" using inv by (auto simp: packet_inv_def packet_of_slot_def)
  have "ring_inv pb" using inv by (simp add: packet_inv_def)
  from ring_read_first [OF this s(1), of slot_buf sw sa 0] buf obtain d len pb' where
    r: "ring_read sw sa slot_buf 0 pb = Returns (True, d, len, pb')" and len: "unat len = length s" by auto
  have "unat (len - TIMESTAMP_SIZE) = length f" "\<not> len < TIMESTAMP_SIZE"
    using len sz by (simp_all add: unat_sub word_le_nat_alt word_less_nat_alt)
  then show ?thesis using fits by (simp add: packet_read_log_def r Let_def word_less_nat_alt)
qed


text \<open>A frame admitted by the filter stage has a verdict and the matching messages.\<close>

lemma admitted_drop_logged:
  assumes "filter_frame ts f = Some ff" and "length f \<le> 2040" and "length frame_buf = 2040"
  shows "\<exists>r. dissector_stage (f @ drop (length f) frame_buf) ff local_ips = Some r
    \<and> dissector_stage_log (f @ drop (length f) frame_buf) ff local_ips = Some (if r = None
        then [(WARN, ''dissector_stage: '' @ drop_reason (f @ drop (length f) frame_buf) (ff_eth ff) @ '' '' @ em_dash @ '' dropped'')]
        else [])"
  using dissector_no_fault [OF filter_frame_ok [OF assms(1,2)], of "drop (length f) frame_buf" local_ips] assms(2,3)
    dissector_log_result [of "f @ drop (length f) frame_buf" ff local_ips]
  by (auto simp: logs_drop_def drop_warning_def)


subsection \<open>Properties\<close>

text \<open>C39: Drops are reported: for a frame admitted by the filter stage, \<open>dissector_stage\<close> writes exactly one
  message when it drops the frame, at level WARN and with the reason of the drop (\<open>drop_reason\<close>), and
  nothing when it passes the frame on. In \<open>filter_stage\<close> a frame that was taken out of the packet
  buffer is reported exactly when it has fewer than 15 bytes, at level WARN with its size; no other
  message of \<open>filter_stage\<close> or of \<open>PacketBuffer::read\<close> can occur, and frames that are neither IPv4 nor ARP
  are dropped silently.\<close>

theorem drops_are_logged:
  assumes "packet_inv pb" and "packet_frames e pb = (ts, f) # fs" and "length slot_buf = 2048" and "length frame_buf = 2040"
  shows "filter_stage_log e slot_buf sw sa pb frame_buf 2040 =
      (if length f < 15
       then [(WARN, ''filter_stage: frame too short ('' @ dec_string (length f) @ '' bytes) '' @ em_dash @ '' dropped'')] else [])
    \<and> (\<forall>ff. filter_frame ts f = Some ff \<longrightarrow>
        (\<exists>r. dissector_stage (f @ drop (length f) frame_buf) ff local_ips = Some r
          \<and> dissector_stage_log (f @ drop (length f) frame_buf) ff local_ips = Some (if r = None
              then [(WARN, ''dissector_stage: '' @ drop_reason (f @ drop (length f) frame_buf) (ff_eth ff) @ '' '' @ em_dash @ '' dropped'')]
              else [])))"
proof -
  have cap: "unat (2040 :: size_t) \<le> length frame_buf" using assms(4) by simp
  from packet_read_first [OF assms(1-3) this, of sw sa 0 0] obtain pb' len where
    len: "unat len = length f" "length f \<le> 2040"
    and r: "packet_read e slot_buf sw sa frame_buf 2040 0 0 pb = Returns \<lparr>rd_ok = True,
      rd_data = f @ drop (length f) frame_buf, rd_size = len, rd_timestamp = ts, rd_buffer = pb'\<rparr>" by auto
  have none: "packet_read_log slot_buf sw sa 2040 pb = []" using packet_read_log_first [OF assms(1-3)] len(2) by simp
  have small: "len < ETHERNET_MIN_SIZE \<longleftrightarrow> length f < 15" "\<not> len > 2040"
    using len by (simp_all add: ETHERNET_MIN_SIZE_def word_less_nat_alt)
  have eth: "ethernet_parse (f @ drop (length f) frame_buf) (Ptr 0) len = Some (eth_of_frame f)"
    "eth_payload_size (eth_of_frame f) \<noteq> 0" "eth_valid (eth_of_frame f)" if "\<not> length f < 15"
  proof -
    show "ethernet_parse (f @ drop (length f) frame_buf) (Ptr 0) len = Some (eth_of_frame f)"
      using that len by (intro ethernet_parse_frame) simp_all
    have "unat (of_nat (length f - 14) :: size_t) = length f - 14" using len by (simp add: unat_of_nat take_bit_nat_eq_self)
    then show "eth_payload_size (eth_of_frame f) \<noteq> 0" "eth_valid (eth_of_frame f)"
      using that by (auto simp: eth_of_frame_def dest: arg_cong [of _ 0 unat])
  qed
  have "filter_stage_log e slot_buf sw sa pb frame_buf 2040 =
      (if length f < 15
       then [(WARN, ''filter_stage: frame too short ('' @ dec_string (length f) @ '' bytes) '' @ em_dash @ '' dropped'')] else [])"
    using eth small len(1) by (simp add: filter_stage_log_def none r)
  then show ?thesis using len(2) assms(4) by (intro conjI allI impI admitted_drop_logged) simp_all
qed

theorem drops_are_logged_witness:
  "\<exists>pb ff. let f = replicate 12 0 @ [8, 6, 0] in packet_frames Little_Endian pb = [(5, f)]
    \<and> filter_stage_log Little_Endian (replicate 2048 0) False False pb (replicate 2040 0) 2040 = []
    \<and> filter_frame 5 f = Some ff
    \<and> dissector_stage_log (f @ replicate 2025 0) ff {} = Some [(WARN, ''dissector_stage: ARP parse failed '' @ em_dash @ '' dropped'')]"
proof -
  let ?f = "replicate 12 0 @ [8, 6, 0] :: u8 list"
  obtain pb where pb: "packet_inv pb" "packet_frames Little_Endian pb = []" "rb_capacity pb = 2"
    using ring_of_two new_PacketBuffer_ok [of "\<lambda>_ _. True" 2 _ Little_Endian] by (metis new_PacketBuffer_def)
  obtain q where q: "packet_inv q" "packet_frames Little_Endian q = [(5, ?f)]"
    using pbq.put_room [OF pb(1), of "(5, ?f)" Little_Endian] pb by (auto simp: capture_sized_def)
  obtain ff where ff: "filter_frame 5 ?f = Some ff" "eth_ethertype (ff_eth ff) = ETHERTYPE_ARP" "eth_payload_size (ff_eth ff) < 28"
    by (simp add: filter_frame_def eth_of_frame_def be16_def nth_append ETHERTYPE_ARP_def ETHERTYPE_IPV4_def)
  then have "dissector_stage m ff {} = Some None" for m
    by (simp add: dissector_stage_def parseArpPacket_def)
  then show ?thesis using drops_are_logged [OF q, of "replicate 2048 0" "replicate 2040 0" False False "{}"] q(2) ff
    by (auto simp: drop_reason_def Let_def)
qed

end
