(* ===== verification/Spec2Isabelle.thy ===== *)
theory Spec2Isabelle
  imports Pipeline_Thread Broker_Routing Logger_Threads Message_Schema Wire_Packets Hex_Dump Stage_Logs
begin

unbundle bit_operations_syntax

text \<open>
  Verification of the packet engine (\<open>src/cpp-packet-engine\<close>): the C++ program that captures Ethernet
  frames from a raw socket, dissects them, keeps statistics per flow and publishes a JSON message
  per packet to RabbitMQ.

  \<^bold>\<open>The program.\<close> \<open>main.cpp\<close> opens the socket (\<open>capture/raw_socket.cpp\<close>), builds a packet buffer
  (\<open>capture/packet_buffer.cpp\<close> on \<open>utils/ring_buffer.cpp\<close>) and a publisher
  (\<open>publishers/rabbitmq_publisher.cpp\<close>), and starts two threads. Thread 1 (\<open>capture/capture_session.cpp\<close>)
  receives frames and writes them with a time stamp into the packet buffer. Thread 2 takes each
  frame through \<open>filter_stage\<close>, \<open>dissector_stage\<close> (which calls the parsers of \<open>parsers/\<close>), \<open>stats_stage\<close> and
  \<open>flow_tracker\<close>, and publishes the result. The threads share the ring buffer with its mutex and two
  condition variables, and an atomic stop flag that a signal handler sets.

  \<^bold>\<open>Theories.\<close> Each models the files named after it, one definition per function.
  \<^item> \<open>Engine_Prelude\<close>: machine words, memory as a list of bytes with checked loads (\<open>None\<close> is an access
    outside), the outcome of a call that may wait (\<open>Returns\<close>, \<open>Blocks\<close>, \<open>Undefined\<close>), and the locales
    \<open>checked_machine\<close> (every operation keeps an invariant or fails with an excuse), its special case \<open>safe_machine\<close>
    (without an excuse) and \<open>simulation\<close> (a relation refines another).
    \<open>Text_Format\<close>: decimal, hexadecimal and \<open>inet_ntop\<close> text with their readers.
  \<^item> \<open>Checksum\<close> (\<open>utils/checksum.cpp\<close>); \<open>Header_Reader\<close> (big-endian readers, and the locales
    \<open>safe_parser\<close> and \<open>payload_parser\<close> that every parser is an interpretation of); \<open>Ethernet_Parser\<close>,
    \<open>Arp_Parser\<close>, \<open>Ip_Parser\<close>, \<open>Transport_Parsers\<close> (TCP, UDP, ICMP): each parser reads only the bytes
    it is given, and returns the fields that a well-formed header was written with.
  \<^item> \<open>Bounded_Fifo\<close>: the contract of a bounded queue as a locale; \<open>Ring_Buffer\<close> and \<open>Packet_Buffer\<close> are
    its interpretations, so any sequence of writes and reads is first-in first-out.
  \<^item> \<open>Filter_Stage\<close>, \<open>Dissector_Stage\<close>, \<open>Stats_Stage\<close>, \<open>Flow_Tracker\<close>: the pipeline stages. The flow
    table is an interpretation of \<open>keyed_store\<close>, and its records are summaries of the frames of a flow.
  \<^item> \<open>Logger\<close>, \<open>Hex_Dump\<close>: text output. \<open>Logger_Threads\<close>: the one logger used by several threads, as a step
    relation over its mutex with output character by character: what comes out is what one thread would
    write that made all the calls. \<open>Stage_Logs\<close>: the messages that the packet buffer, the filter and
    the dissector write, as companions of the operations, which do not depend on them; a dropped frame is reported with its reason.
    \<open>Publisher_Json\<close>: the message and a JSON reader that gets every
    field back. \<open>Rabbitmq_Publisher\<close>: connecting, confirms, reconnecting; an interpretation of
    \<open>safe_machine\<close> when connections can be created, and of \<open>checked_machine\<close> when \<open>amqp_new_connection\<close> may return null
    (the operations with suffix \<open>_d\<close>).
  \<^item> \<open>Capture_Session\<close>, \<open>Raw_Socket\<close>: the capture thread and the socket. The three nested loops of \<open>captureLoop\<close> are
    followed once, in the locale \<open>capture_run\<close>, for any condition that receiving and writing a frame keep. A part of
    the loop ends with a result, waits in the state it gives, or is undefined (\<open>ending\<close>).
  \<^item> \<open>Engine_Threads\<close>: both threads and the signal handler as an inductive step relation at the
    granularity of the mutex and the condition variables, without the data: mutual exclusion, what can
    get stuck, and what a stop request does.
  \<^item> \<open>Threaded_Engine\<close>: the same interleaving with the data, each critical section being the operation of
    the packet buffer itself and the work of the pipeline being \<open>process_frame\<close>. It is an interpretation of
    \<open>simulation\<close> over \<open>Engine_Threads\<close>: in every reachable state frames are delivered in order and nothing
    faults, and a stop request that finds no thread waiting lets \<open>main\<close> return with everything closed.
    \<open>Threaded_Progress\<close>: without a stop request every stored frame can still be delivered.
  \<^item> \<open>Capture_Thread\<close>, \<open>Pipeline_Thread\<close>: each run of \<open>captureLoop\<close> (a second interpretation of \<open>capture_run\<close>) and of
    the pipeline loop of \<open>Engine\<close>, followed on its own, is a run of the interleaved engine with the same
    effect, so the model of each thread and the model of both are models of the same program.
  \<^item> \<open>Engine\<close>: the start, the pipeline thread and the shutdown of \<open>main.cpp\<close> over the definitions above.
  \<^item> \<open>Wire_Packets\<close>: frames of every kind described by their headers, and the enriched frame that the stages
    make of them. \<open>Message_Schema\<close>: the validator in \<open>infra/mongo/init-collections.js\<close> that the messages have
    to pass; the service that stores them, which gives their numbers a BSON type, is a parameter. \<open>Broker_Routing\<close>: the definitions in \<open>infra/rabbitmq/definitions.json\<close>, the environment of the container
    in \<open>docker-compose.yml\<close>, and what the publisher names in its calls.
  \<^item> This theory: a packet through the whole pipeline, what the running engine has delivered, its messages
    against the validator, and where they are sent.

  \<^bold>\<open>State.\<close> A class is a record with a field per data member (\<open>RingBuffer\<close>, \<open>RabbitMqPublisher\<close>, \<open>FlowRecord\<close>, ...),
  a method a function from the state to the result and the new state. Integers have the width of the
  source (\<open>size_t\<close> is 64 bits). A pointer into a buffer is an offset or null. Exceptions are values of a sum
  type. Library code (the kernel, \<open>librabbitmq\<close>, \<open>libcap\<close>, the clock, the environment variables) is an
  argument: an environment record whose fields answer each call as an arbitrary function of the
  history of all calls so far, so that theorems hold for every behaviour of it; where a theorem
  needs more (the stop flag is never cleared, \<open>slot_buf\<close> has 2048 bytes), that is a named hypothesis.

  \<^bold>\<open>Loops and bounds.\<close> Loops with a bound in the code (checksum folding, the batch of 64 frames, the
  three connection attempts, the confirm wait of 5000 ms in steps of 50 ms) are total functions with
  a termination proof. The capture loop and the loop around \<open>SIOCGIFCONF\<close> may run forever: they carry
  a bound on the number of iterations, \<open>None\<close> meaning that it was used up. \<open>captureLoop_stops\<close> shows that
  \<open>N + 1\<close> is enough when the stop flag is set after \<open>N\<close> calls, because each iteration makes a call;
  \<open>getLocalIps_exact\<close> that 22 turns are enough, because the buffer doubles from 16 entries on, as long as its
  length in bytes fits an \<open>int\<close>. The pipeline loop is run for a given list of turns, and
  \<open>pipeline_makes_progress\<close> shows that as many turns as there are frames empty the buffer. The threads are a step relation; that they can always
  go on is shown by runs that exist (\<open>stored_frames_delivered\<close>, \<open>engine_shuts_down\<close>), with the ranks of the
  control points as the measure, and not by a fairness assumption.

  \<^bold>\<open>Not modelled.\<close> The branches for systems other than Linux, which only log and
  return; the memory order of the atomic flag (a load may return any earlier value because every
  load is a separate answer of the environment); spurious wakeups, which are subsumed by repeating
  the test; a null result of \<open>amqp_new_connection\<close>, which the code does not handle, other than in the
  operations with suffix \<open>_d\<close>: every other theorem is about runs in which connections can be
  created; the delivery tag of an acknowledgement, which the code does not look at; failing
  allocations of strings and vectors; what a broker does with a message; the data race on the level of
  the logger (a load is one step); the unit tests, whose samples are instances of what is proved for all inputs; the other services of the
  repository, which are empty placeholders, and the parts of its configuration files that the engine does
  not depend on. The declarations in the headers have no definition of their own.
\<close>


subsection \<open>A packet through the pipeline\<close>

lemma enrich_admitted: "enrich ips ts f rest = Some en \<Longrightarrow> filter_frame ts f \<noteq> None"
  using enrich_filtered by force

text \<open>One iteration of the pipeline on a frame that is enriched: tracked, and published if its protocol is.\<close>

lemma enriched_iteration:
  assumes "engine_inv s" and "packet_frames e (en_packet_buf s) = (ts, f) # fs" and "length slot_buf = 2048"
    and en: "enrich ips ts f (drop (length f) (en_frame_buf s)) = Some en"
  defines "flow0 \<equiv> FlowTable_get (en_flow_table s) (ef_flow_key en)"
  shows "\<exists>s' b. pipeline_iteration e slot_buf sw sa sc ips broker s = Returns (Continue, s')
    \<and> packet_frames e (en_packet_buf s') = fs
    \<and> FlowTable_get (en_flow_table s') (ef_flow_key en) = fst (update_record en flow0)
    \<and> (\<forall>k. k \<noteq> ef_flow_key en \<longrightarrow> FlowTable_get (en_flow_table s') k = FlowTable_get (en_flow_table s) k)
    \<and> publish broker en (fst (update_record en flow0)) (snd (update_record en flow0)) (en_publisher s) = Some (b, en_publisher s')"
proof -
  from pipeline_iteration_frame [OF assms(1-3), of sw sa sc ips broker] enrich_admitted [OF en]
  obtain pb s' where it: "pipeline_iteration e slot_buf sw sa sc ips broker s = Returns (Continue, s')" "packet_frames e pb = fs"
    and pr: "processed broker (Some en) (s\<lparr>en_frame_buf := f @ drop (length f) (en_frame_buf s), en_packet_buf := pb\<rparr>) s'"
    unfolding en by auto
  have t: "en_flow_table s' = table_step en (en_flow_table s)" using pr by (simp add: processed_def)
  obtain b where "publish broker en (fst (update_record en flow0)) (snd (update_record en flow0)) (en_publisher s) = Some (b, en_publisher s')"
    using pr by (auto simp: processed_def flow_tracker_result flow0_def)
  then show ?thesis using it pr flows.lookup_same [of en "en_flow_table s"] flows.lookup_other [of _ en "en_flow_table s"]
    by (simp add: processed_def t flow0_def)
qed

text \<open>C1: From the wire to the broker, for every kind of packet: when the oldest frame in the packet buffer is a
  TCP, UDP, ICMP or other IPv4 packet or an ARP packet, one iteration of the pipeline takes it out, updates
  the record of exactly its own flow with it, and, when its protocol is published, hands the broker
  at most one message (exactly one when \<open>publish\<close> succeeds), a JSON object whose 30 members are the values
  of the headers on the wire and of the updated flow record; other packets are tracked but not published.\<close>

theorem packet_end_to_end:
  assumes "engine_inv s" and "packet_frames e (en_packet_buf s) = (ts, wire_frame dst src w padding) # fs"
    and "length slot_buf = 2048" and "wire_wf w padding" and "length dst = 6" and "length src = 6"
  shows "\<exists>s' b rt json. pipeline_iteration e slot_buf sw sa sc ips broker s = Returns (Continue, s')
    \<and> packet_frames e (en_packet_buf s') = fs
    \<and> (let en = wire_enriched ips ts dst src w; flow = FlowTable_get (en_flow_table s') (ef_flow_key en)
       in (flow, rt) = update_record en (FlowTable_get (en_flow_table s) (ef_flow_key en))
        \<and> (\<forall>k. k \<noteq> ef_flow_key en \<longrightarrow> FlowTable_get (en_flow_table s') k = FlowTable_get (en_flow_table s) k)
        \<and> publish broker en flow rt (en_publisher s) = Some (b, en_publisher s')
        \<and> parse_object json = Some (json_members en flow rt)
        \<and> (if published en
            then sent (pub_calls (en_publisher s')) = sent (pub_calls (en_publisher s)) @ [json]
              \<or> \<not> b \<and> sent (pub_calls (en_publisher s')) = sent (pub_calls (en_publisher s))
            else b \<and> en_publisher s' = en_publisher s))"
proof -
  let ?en = "wire_enriched ips ts dst src w"
  let ?u = "update_record ?en (FlowTable_get (en_flow_table s) (ef_flow_key ?en))"
  obtain s' b where it: "pipeline_iteration e slot_buf sw sa sc ips broker s = Returns (Continue, s')" "packet_frames e (en_packet_buf s') = fs"
    "FlowTable_get (en_flow_table s') (ef_flow_key ?en) = fst ?u"
    "\<forall>k. k \<noteq> ef_flow_key ?en \<longrightarrow> FlowTable_get (en_flow_table s') k = FlowTable_get (en_flow_table s) k"
    and p: "publish broker ?en (fst ?u) (snd ?u) (en_publisher s) = Some (b, en_publisher s')"
    using enriched_iteration [OF assms(1-3) wire_enriched_of [OF assms(4-6)], where ips = ips and sw = sw and sa = sa and sc = sc and broker = broker] by blast
  have "\<not> published ?en \<Longrightarrow> b \<and> en_publisher s' = en_publisher s" using p by (auto simp: publish_def published_def split: if_splits)
  with it p publish_sent [OF p] buildJson_parses [OF str_ok_wire, of ips ts dst src w "fst ?u" "snd ?u"] show ?thesis
    unfolding Let_def
    by (intro exI [of _ s'] exI [of _ b] exI [of _ "snd ?u"] exI [of _ "buildJson ?en (fst ?u) (snd ?u)"]) auto
qed

text \<open>An engine with one frame in its packet buffer.\<close>

lemma buffered_frame:
  assumes "1 \<le> length f" and "length f \<le> 2040"
  obtains s where "engine_inv s" "packet_frames Little_Endian (en_packet_buf s) = [(ts, f)]"
proof -
  obtain en os1 where "main_setup plain_os agreeable (\<lambda>_ _. True) boot_state = (Started en, os1)" by (rule plain_engine_starts)
  note st = main_setup_started [OF this]
  have inv: "packet_inv (en_packet_buf en)" "0 < unat (rb_capacity (en_packet_buf en))"
    using st(1) by (simp_all add: engine_inv_def packet_inv_def ring_inv_def)
  obtain q where "packet_inv q" "packet_frames Little_Endian q = [(ts, f)]"
    using pbq.put_room [OF inv(1), of "(ts, f)" Little_Endian] st(2) inv(2) assms by (auto simp: capture_sized_def)
  then show thesis using that [of "en\<lparr>en_packet_buf := q\<rparr>"] st(1) by (simp add: engine_inv_def)
qed

theorem packet_end_to_end_witness:
  "\<exists>s s'. packet_frames Little_Endian (en_packet_buf s) = [(9, wire_frame (replicate 6 1) (replicate 6 2) dns_query [0])]
    \<and> pipeline_iteration Little_Endian (replicate 2048 0) False False False {0x0A000001} agreeable s = Returns (Continue, s')
    \<and> packet_frames Little_Endian (en_packet_buf s') = []"
proof -
  have "1 \<le> length (wire_frame (replicate 6 1) (replicate 6 2) dns_query [0])" "length (wire_frame (replicate 6 1) (replicate 6 2) dns_query [0]) \<le> 2040"
    by (simp_all add: dns_query_length)
  then obtain s where s: "engine_inv s" "packet_frames Little_Endian (en_packet_buf s) = [(9, wire_frame (replicate 6 1) (replicate 6 2) dns_query [0])]"
    by (rule buffered_frame)
  have l: "length (replicate 2048 (0 :: u8)) = 2048" "length (replicate 6 (1 :: u8)) = 6" "length (replicate 6 (2 :: u8)) = 6" by simp_all
  from packet_end_to_end [OF s l(1) dns_query_wf l(2,3), of False False False "{0x0A000001}" agreeable] s(2) show ?thesis by blast
qed

text \<open>The enriched frame of a TCP segment on the wire.\<close>

definition tcp_enriched :: "LocalIpSet \<Rightarrow> u64 \<Rightarrow> MACAddress \<Rightarrow> MACAddress \<Rightarrow> ip_packet \<Rightarrow> tcp_segment \<Rightarrow> EnrichedFrame" where
  "tcp_enriched local_ips ts dst src k g = new_EnrichedFrame
     \<lparr>ef_timestamp := ts, ef_src_ip := pk_src k, ef_dst_ip := pk_dst k, ef_protocol := 6,
      ef_packet_size := of_nat (ip_packet_len k), ef_direction := resolveDirection (pk_src k) (pk_dst k) local_ips,
      ef_ttl := pk_ttl k, ef_src_mac := src, ef_dst_mac := dst, ef_checksum_valid := ip_checksum_valid (ip_wire_header k),
      ef_src_port := sg_src_port g, ef_dst_port := sg_dst_port g, ef_flags := sg_flag_byte g AND 0x3F, ef_seq_num := sg_seq g,
      ef_flow_key := makeFlowKey (pk_src k) (sg_src_port g) (pk_dst k) (sg_dst_port g)\<rparr>"

lemma enrich_tcp_segment:
  assumes "ip_packet_wf k" and "pk_protocol k = 6" and "tcp_segment_wf g" and "pk_data k = tcp_wire g"
    and "length dst = 6" and "length src = 6" and "ip_packet_len k + length padding \<le> 2026"
  shows "enrich ips ts (packet_frame dst src k padding) rest = Some (tcp_enriched ips ts dst src k g)"
  using ip_packet_enriched [of k "Tcp g" padding dst src ips ts rest] assms
  by (simp add: tcp_enriched_def ip_enriched_def)

lemma tcp_enriched_json:
  "parse_object (buildJson (tcp_enriched ips ts dst src k g) fl rt) = Some (json_members (tcp_enriched ips ts dst src k g) fl rt)"
proof -
  have "str_ok (ef_flow_key (tcp_enriched ips ts dst src k g))" by (simp add: tcp_enriched_def makeFlowKey_def)
  from buildJson_parses [OF this] show ?thesis by simp
qed

text \<open>From the wire to the broker: when the oldest frame in the packet buffer is a TCP segment in an
  IPv4 packet, one iteration of the pipeline takes it out, updates the record of exactly its own
  flow with it, and hands the broker at most one message (exactly one when \<open>publish\<close> succeeds): a
  JSON object with the capture time, the addresses, ports, sequence number and flags that are on
  the wire, the direction that follows from the local addresses, and the bytes of the flow so far.\<close>

theorem tcp_segment_end_to_end:
  assumes "engine_inv s" and "packet_frames e (en_packet_buf s) = (ts, packet_frame dst src k padding) # fs"
    and "length slot_buf = 2048"
    and "ip_packet_wf k" and "pk_protocol k = 6" and "tcp_segment_wf g" and "pk_data k = tcp_wire g"
    and "length dst = 6" and "length src = 6" and "ip_packet_len k + length padding \<le> 2026"
  shows "\<exists>s' b rt json ms. pipeline_iteration e slot_buf sw sa sc ips broker s = Returns (Continue, s')
    \<and> packet_frames e (en_packet_buf s') = fs
    \<and> (let key = makeFlowKey (pk_src k) (sg_src_port g) (pk_dst k) (sg_dst_port g);
           flow = FlowTable_get (en_flow_table s') key
       in flow = fst (update_record (tcp_enriched ips ts dst src k g) (FlowTable_get (en_flow_table s) key))
        \<and> (\<forall>k'. k' \<noteq> key \<longrightarrow> FlowTable_get (en_flow_table s') k' = FlowTable_get (en_flow_table s) k')
        \<and> publish broker (tcp_enriched ips ts dst src k g) flow rt (en_publisher s) = Some (b, en_publisher s')
        \<and> (sent (pub_calls (en_publisher s')) = sent (pub_calls (en_publisher s)) @ [json]
            \<or> \<not> b \<and> sent (pub_calls (en_publisher s')) = sent (pub_calls (en_publisher s)))
        \<and> parse_object json = Some ms
        \<and> {(''timestamp'', JNum (unat ts)), (''src_ip'', JStr (ipToString (pk_src k))), (''dst_ip'', JStr (ipToString (pk_dst k))),
           (''protocol'', JStr ''TCP''), (''direction'', direction_value (resolveDirection (pk_src k) (pk_dst k) ips)),
           (''src_port'', JNum (unat (sg_src_port g))), (''dst_port'', JNum (unat (sg_dst_port g))),
           (''seq_num'', JNum (unat (sg_seq g))), (''flags'', JNum (unat (sg_flag_byte g AND 0x3F))),
           (''is_retransmit'', JBool rt), (''total_bytes'', JNum (unat (fl_total_bytes flow)))} \<subseteq> set ms)"
proof -
  let ?en = "tcp_enriched ips ts dst src k g" and ?key = "makeFlowKey (pk_src k) (sg_src_port g) (pk_dst k) (sg_dst_port g)"
  let ?fl = "fst (update_record ?en (FlowTable_get (en_flow_table s) ?key))"
    and ?rt = "snd (update_record ?en (FlowTable_get (en_flow_table s) ?key))"
  have key: "ef_flow_key ?en = ?key" and pub: "published ?en" by (simp_all add: tcp_enriched_def published_def)
  from enriched_iteration [OF assms(1-3) enrich_tcp_segment [OF assms(4-10)], where ips = ips and sw = sw and sa = sa and sc = sc and broker = broker]
  obtain s' b where it: "pipeline_iteration e slot_buf sw sa sc ips broker s = Returns (Continue, s')" "packet_frames e (en_packet_buf s') = fs"
    "FlowTable_get (en_flow_table s') ?key = ?fl" "\<forall>k'. k' \<noteq> ?key \<longrightarrow> FlowTable_get (en_flow_table s') k' = FlowTable_get (en_flow_table s) k'"
    and p: "publish broker ?en ?fl ?rt (en_publisher s) = Some (b, en_publisher s')"
    unfolding key by (elim exE conjE) (rule that)
  have "{(''timestamp'', JNum (unat ts)), (''src_ip'', JStr (ipToString (pk_src k))), (''dst_ip'', JStr (ipToString (pk_dst k))),
       (''protocol'', JStr ''TCP''), (''direction'', direction_value (resolveDirection (pk_src k) (pk_dst k) ips)),
       (''src_port'', JNum (unat (sg_src_port g))), (''dst_port'', JNum (unat (sg_dst_port g))),
       (''seq_num'', JNum (unat (sg_seq g))), (''flags'', JNum (unat (sg_flag_byte g AND 0x3F))),
       (''is_retransmit'', JBool ?rt), (''total_bytes'', JNum (unat (fl_total_bytes ?fl)))} \<subseteq> set (json_members ?en ?fl ?rt)"
    by (simp add: json_members_def) (simp add: tcp_enriched_def protocolToStr_def)
  with it p publish_sent [OF p] pub tcp_enriched_json [of ips ts dst src k g ?fl ?rt] show ?thesis
    unfolding Let_def
    by (intro exI [of _ s'] exI [of _ b] exI [of _ ?rt] exI [of _ "buildJson ?en ?fl ?rt"] exI [of _ "json_members ?en ?fl ?rt"]) auto
qed

text \<open>A SYN-ACK from 10.0.0.1:443 to 10.0.0.2:50000.\<close>

definition syn_ack_segment :: tcp_segment where
  "syn_ack_segment = \<lparr>sg_src_port = 443, sg_dst_port = 50000, sg_seq = 7, sg_ack = 9, sg_offset_byte = 0x50, sg_flag_byte = 0x12,
     sg_window = 1024, sg_checksum = 0, sg_urgent = 0, sg_options = [], sg_data = [0xAB]\<rparr>"

definition syn_ack_packet :: ip_packet where
  "syn_ack_packet = \<lparr>pk_ihl = 5, pk_tos = 0, pk_id = 1, pk_frag = 0, pk_ttl = 64, pk_protocol = 6, pk_checksum = 0,
     pk_src = 0x0A000001, pk_dst = 0x0A000002, pk_options = [], pk_data = tcp_wire syn_ack_segment\<rparr>"

lemma syn_ack_ok:
  "ip_packet_wf syn_ack_packet" "pk_protocol syn_ack_packet = 6" "tcp_segment_wf syn_ack_segment"
  "pk_data syn_ack_packet = tcp_wire syn_ack_segment" "ip_packet_len syn_ack_packet + length [0 :: u8, 0] \<le> 2026"
  by (simp_all add: syn_ack_packet_def syn_ack_segment_def ip_packet_wf_def ip_packet_len_def tcp_segment_wf_def
      tcp_header_bytes_def tcp_wire_def bytes_be16_def bytes_be32_def)

lemma syn_ack_length: "length (packet_frame (replicate 6 1) (replicate 6 2) syn_ack_packet [0, 0]) = 57"
  by (simp add: packet_frame_def ethernet_wire_def ip_wire_header_def syn_ack_packet_def syn_ack_segment_def tcp_wire_def
      bytes_be16_def bytes_be32_def)

theorem tcp_segment_end_to_end_witness:
  "\<exists>s s'. packet_frames Little_Endian (en_packet_buf s) = [(9, packet_frame (replicate 6 1) (replicate 6 2) syn_ack_packet [0, 0])]
    \<and> pipeline_iteration Little_Endian (replicate 2048 0) False False False {0x0A000002} agreeable s = Returns (Continue, s')
    \<and> packet_frames Little_Endian (en_packet_buf s') = []"
proof -
  let ?f = "packet_frame (replicate 6 1) (replicate 6 2) syn_ack_packet [0, 0]"
  have l: "length (replicate 2048 (0 :: u8)) = 2048" "length (replicate 6 (1 :: u8)) = 6" "length (replicate 6 (2 :: u8)) = 6" by simp_all
  have "1 \<le> length ?f" "length ?f \<le> 2040" by (simp_all add: syn_ack_length)
  then obtain s where s: "engine_inv s" "packet_frames Little_Endian (en_packet_buf s) = [(9, ?f)]" by (rule buffered_frame)
  from tcp_segment_end_to_end [OF s l(1) syn_ack_ok(1-4) l(2,3) syn_ack_ok(5), of False False False "{0x0A000002}" agreeable] s(2)
  show ?thesis by blast
qed


subsection \<open>A message is sent\<close>

text \<open>Every engine that has started can send a message: a SYN/ACK segment comes in and is published.\<close>

lemma one_message_sent:
  assumes started: "main_setup env broker alloc_ok os0 = (Started en, os1)"
  obtains c f json where "(tstep Little_Endian {})\<^sup>*\<^sup>* (threads_start en 1) c" "td_taken c = [(0, f)]"
    "sent (pub_calls (en_publisher (td_engine c))) = [json]"
proof -
  let ?f = "packet_frame (replicate 6 1) (replicate 6 2) syn_ack_packet [0, 0]"
  let ?fb = "?f @ replicate 1983 0"
  have fb: "length ?fb = 2040" "take 57 ?fb = ?f" by (simp_all add: syn_ack_length)
  note st = main_setup_started [OF started] and room = started_room [OF started]
  have n: "(1 :: nat) \<le> 57" "(57 :: nat) \<le> 2040" by simp_all
  note r = one_frame_reachable [OF room fb(1) n, of Little_Endian "{}"]
  let ?c = "one_frame en ?fb 57"
  have c: "td_prod ?c = P_Act" "\<not> isFull (td_buf ?c)" "packet_frames Little_Endian (td_buf ?c) = []" "td_clock ?c = 0" "td_bytes ?c = 57"
    "td_frame_buf ?c = ?fb" "td_cons ?c = C_Loop" "td_engine ?c = en" "\<not> td_stop ?c" "td_taken ?c = []"
    using room st(2) by (simp_all add: one_frame_def threads_start_def)
  obtain c1 where c1: "tstep Little_Endian {} ?c c1" "packet_frames Little_Endian (td_buf c1) = [(nowMillis 0, ?f)]" "td_cons c1 = C_Loop"
    "td_owner c1 = None" "\<not> td_stop c1" "td_taken c1 = []" "en_publisher (td_engine c1) = en_publisher en"
    by (rule frame_is_stored [OF threads_reach(1) [OF started r] c(1,2)]) (use c fb(2) in \<open>auto simp: wake_consumer_def\<close>)
  note r1 = rtranclp.rtrancl_into_rtrancl [OF r c1(1)]
  have "length (replicate 6 (1 :: u8)) = 6" "length (replicate 6 (2 :: u8)) = 6" by simp_all
  note ef = packet_frame_filtered [OF syn_ack_ok(1) this] enrich_tcp_segment [OF syn_ack_ok(1-4) this syn_ack_ok(5)]
  let ?en = "tcp_enriched {} (nowMillis 0) (replicate 6 1) (replicate 6 2) syn_ack_packet syn_ack_segment"
  show thesis
  proof (rule frame_is_processed [OF threads_reach(1) [OF started r1] c1(3-5,2) ef(1), where broker = agreeable])
    fix pb en' s
    let ?c2 = "c1\<lparr>td_cons := C_Loop, td_owner := None, td_prod := wake_producer (td_prod c1),
        td_filtered := Some \<lparr>ff_eth = \<lparr>eth_dst_mac = replicate 6 1, eth_src_mac = replicate 6 2, eth_ethertype = ETHERTYPE_IPV4,
          eth_payload = Ptr 14, eth_payload_size = of_nat (ip_packet_len syn_ack_packet + length [0 :: u8, 0]), eth_valid = True\<rparr>,
          ff_capture_ts_ms = nowMillis 0\<rparr>,
        td_engine := en', td_taken := td_taken c1 @ [(nowMillis 0, ?f)]\<rparr>"
    assume run: "(tstep Little_Endian {})\<^sup>*\<^sup>* c1 ?c2"
      and pr: "processed agreeable (enrich {} (nowMillis 0) ?f (drop (length ?f) (en_frame_buf (td_engine c1)))) s en'"
      and s: "en_publisher s = en_publisher (td_engine c1)"
    obtain b fl rt where p: "publish agreeable ?en fl rt (en_publisher en) = Some (b, en_publisher en')"
      using pr s c1(7) ef(2) by (auto simp: processed_def)
    have pub: "published ?en" "ef_protocol ?en = 6" by (simp_all add: published_def tcp_enriched_def)
    obtain cn where "pub_conn (en_publisher en) = Some cn" "pub_connected (en_publisher en)"
      using st(1,6) by (auto simp: engine_inv_def pub_inv_def isConnected_def)
    from agreeable_publish [OF this pub(2), of fl rt] p have b by auto
    then have "sent (pub_calls (en_publisher (td_engine ?c2))) = [buildJson ?en fl rt]" using publish_sent [OF p] pub(1) st(5) by auto
    moreover have "td_taken ?c2 = [(0, ?f)]" using c1(6) by (simp add: nowMillis_def)
    ultimately show thesis using that [of ?c2] rtranclp_trans [OF r1 run] by blast
  qed
qed

lemma sent_call: "json \<in> set (sent h) \<Longrightarrow> \<exists>cn ch ex rk. Basic_Publish cn ch ex rk json \<in> set h"
  by (induction h rule: sent.induct) (auto split: amqp_call.splits)


subsection \<open>The running engine\<close>

text \<open>C2: The running engine, in every interleaving of its threads and the signal handler: its control
  follows the protocol of \<open>Engine_Threads\<close>, so that the two threads are never both in the critical
  section; the frames taken by the pipeline followed by those in the packet buffer are exactly the
  stored ones, in order; every received frame is stored, except the one being written or, when the
  engine is stopping, the last one. All taken frames but at most one in work have been tracked: the
  records of the flow table are exactly their summaries. The messages handed to the broker are
  those of these frames, in order and at most one per frame; of the frames that are published (ARP,
  ICMP, TCP and UDP) one is missing for each time the publisher logged that it dropped a frame,
  and none else.\<close>

theorem threads_deliver_in_order:
  assumes "main_setup env broker alloc_ok os0 = (Started en, os1)" and "(tstep e ips)\<^sup>*\<^sup>* (threads_start en signals) c"
  shows "reachable (unat (packet_capacity (en_packet_buf en))) signals (protocol c)
    \<and> \<not> (prod_owns (td_prod c) \<and> cons_owns (td_cons c))
    \<and> td_stored c = td_taken c @ packet_frames e (td_buf c)
    \<and> (td_received c = td_stored c \<or> (in_write (td_prod c) \<or> td_stop c) \<and> (\<exists>x. td_received c = td_stored c @ [x]))
    \<and> (\<exists>dn work. td_taken c = dn @ work \<and> length work = (if td_cons c = C_Work then 1 else 0)
      \<and> (let ens = enrich_all ips (replicate 2040 0) dn; calls = pub_calls (en_publisher (td_engine c)) in
        (\<forall>k. FlowTable_get (en_flow_table (td_engine c)) k =
           (let own = filter (\<lambda>f. ef_flow_key f = k) ens in if own = [] then new_FlowRecord else flow_summary own))
        \<and> subseq (sent calls) (messages ens Map.empty)
        \<and> length (sent calls) + dropped_logs calls = length (messages ens Map.empty)))"
proof -
  note inv = threads_reach(1) [OF assms, unfolded threaded_inv_def] and r = threads_reach(2) [OF assms]
  have "\<not> (prod_owns (td_prod c) \<and> cons_owns (td_cons c))"
    using inv by (auto simp: sys_inv_def)
  moreover have "td_received c = td_stored c \<or> (in_write (td_prod c) \<or> td_stop c) \<and> (\<exists>x. td_received c = td_stored c @ [x])"
    using inv by (cases "in_write (td_prod c)") (auto simp: capture_ok_def Let_def in_write_def)
  moreover obtain dn work where "td_taken c = dn @ work" "work_ok c work"
    and t: "en_flow_table (td_engine c) = fold table_step (enrich_all ips (replicate 2040 0) dn) Map.empty"
      "subseq (sent (pub_calls (en_publisher (td_engine c)))) (messages (enrich_all ips (replicate 2040 0) dn) Map.empty)"
      "length (sent (pub_calls (en_publisher (td_engine c)))) + dropped_logs (pub_calls (en_publisher (td_engine c)))
        = length (messages (enrich_all ips (replicate 2040 0) dn) Map.empty)"
    using inv by (auto simp: pipeline_ok_def)
  then have "td_taken c = dn @ work \<and> length work = (if td_cons c = C_Work then 1 else 0)" by (auto simp: work_ok_def split: if_splits)
  moreover have "td_stored c = td_taken c @ packet_frames e (td_buf c)" using inv by blast
  ultimately show ?thesis using r t(2,3) enriched_summaries [of ips "replicate 2040 0" dn] unfolding Let_def t(1)
    by (intro conjI exI [of _ dn] exI [of _ work]) simp_all
qed

theorem threads_deliver_in_order_witness:
  "\<exists>en os1 c f json. main_setup plain_os agreeable (\<lambda>_ _. True) boot_state = (Started en, os1)
    \<and> (tstep Little_Endian {})\<^sup>*\<^sup>* (threads_start en 1) c
    \<and> td_taken c = [(0, f)] \<and> td_stored c = (0, f) # packet_frames Little_Endian (td_buf c)
    \<and> sent (pub_calls (en_publisher (td_engine c))) = [json] \<and> dropped_logs (pub_calls (en_publisher (td_engine c))) = 0"
proof -
  obtain en os1 where en: "main_setup plain_os agreeable (\<lambda>_ _. True) boot_state = (Started en, os1)" by (rule plain_engine_starts)
  obtain c f json where c: "(tstep Little_Endian {})\<^sup>*\<^sup>* (threads_start en 1) c" "td_taken c = [(0, f)]"
    "sent (pub_calls (en_publisher (td_engine c))) = [json]" by (rule one_message_sent [OF en])
  from threads_deliver_in_order [OF en c(1)] obtain dn work where
    d: "td_stored c = td_taken c @ packet_frames Little_Endian (td_buf c)" "td_taken c = dn @ work"
      "length (sent (pub_calls (en_publisher (td_engine c)))) + dropped_logs (pub_calls (en_publisher (td_engine c)))
        = length (messages (enrich_all {} (replicate 2040 0) dn) Map.empty)" unfolding Let_def by metis
  have "dropped_logs (pub_calls (en_publisher (td_engine c))) = 0"
    using d(3) messages_length [of "enrich_all {} (replicate 2040 0) dn" Map.empty] enrich_all_length [of "{}" "replicate 2040 0" dn]
      arg_cong [OF d(2), of length] by (simp add: c(2,3) del: append_eq_Cons_conv)
  then show ?thesis using en c d(1) by (intro exI [of _ en] exI [of _ os1] exI [of _ c] exI [of _ f] exI [of _ json]) simp
qed


subsection \<open>The engine and the database\<close>

text \<open>C3: The contract with the database: in every interleaving of the threads and for any traffic, a
  message that the running engine has handed to the broker is a JSON object that passes the validator
  of the collection \<open>traffic_flows\<close> exactly when the service that stores it, whatever it is, gives each number the BSON
  type (\<open>int\<close> or \<open>long\<close>) that the validator declares for its member; in particular it passes when the service
  types numbers by that declaration. So all required members are there, the protocol is one of the four listed,
  the direction is listed or null, ports and sizes are at most 65535, each other member has its
  type, and each number fits the declared integer. That holds as long as fewer than \<open>2 ^ 31\<close> frames have been
  taken, with capture times below \<open>2 ^ 63\<close> milliseconds.\<close>

theorem sent_messages_pass_validator:
  assumes "main_setup env broker alloc_ok os0 = (Started en, os1)" and "(tstep e ips)\<^sup>*\<^sup>* (threads_start en signals) c"
    and "length (td_taken c) < 2 ^ 31" and "\<forall>(ts, f) \<in> set (td_taken c). unat ts < 2 ^ 63"
  shows "list_all (\<lambda>json. (passes_validator conv json \<longleftrightarrow> numbers_as_declared conv json) \<and> passes_validator declared_type json)
    (sent (pub_calls (en_publisher (td_engine c))))"
proof -
  obtain dn work where dn: "td_taken c = dn @ work"
    and s: "subseq (sent (pub_calls (en_publisher (td_engine c)))) (messages (enrich_all ips (replicate 2040 0) dn) Map.empty)"
    using threads_reach(1) [OF assms(1,2)] by (auto simp: threaded_inv_def pipeline_ok_def)
  have "length dn < 2 ^ 31" "\<forall>(ts, f) \<in> set dn. unat ts < 2 ^ 63" using assms(3,4) by (simp_all add: dn)
  from messages_pass [OF this] show ?thesis unfolding list_all_iff by (blast elim: list_emb_set [OF s])
qed

theorem sent_messages_pass_validator_witness:
  "\<exists>en os1 c json. main_setup plain_os agreeable (\<lambda>_ _. True) boot_state = (Started en, os1)
    \<and> (tstep Little_Endian {})\<^sup>*\<^sup>* (threads_start en 1) c
    \<and> sent (pub_calls (en_publisher (td_engine c))) = [json] \<and> passes_validator declared_type json"
proof -
  obtain en os1 where en: "main_setup plain_os agreeable (\<lambda>_ _. True) boot_state = (Started en, os1)" by (rule plain_engine_starts)
  obtain c f json where c: "(tstep Little_Endian {})\<^sup>*\<^sup>* (threads_start en 1) c" "td_taken c = [(0, f)]"
    "sent (pub_calls (en_publisher (td_engine c))) = [json]" by (rule one_message_sent [OF en])
  have "list_all (\<lambda>json. (passes_validator declared_type json \<longleftrightarrow> numbers_as_declared declared_type json) \<and> passes_validator declared_type json)
      (sent (pub_calls (en_publisher (td_engine c))))"
    by (rule sent_messages_pass_validator [OF en c(1)]) (simp_all add: c(2))
  then have "passes_validator declared_type json" unfolding c(3) list.pred_inject by blast
  with c en show ?thesis by (intro exI [of _ en] exI [of _ os1] exI [of _ c] exI [of _ json]) simp
qed


subsection \<open>The engine and the exchange\<close>

text \<open>C4: The contract with the broker: an engine that runs with the environment of \<open>docker-compose.yml\<close> and the
  example values connects, in every interleaving and whatever the broker answers, only to the configured
  host and port; logs in only to the vhost of the example file, as a declared user that may write there; and
  hands every message, on a connection on which it has logged in before, to an exchange that is declared in
  the vhost of that login, with a routing key for which this exchange is bound to a queue declared there, the one
  named in the example file. So no message is addressed to nowhere.\<close>

theorem messages_are_routed:
  assumes "os_getenv env = packet_engine_environment env_example"
    and "main_setup env broker alloc_ok os0 = (Started en, os1)" and "(tstep e ips)\<^sup>*\<^sup>* (threads_start en signals) c"
    and "pub_calls (en_publisher (td_engine c)) = later @ call # earlier"
  shows "case call of
      Socket_Open _ host port \<Rightarrow> Some host = env_example ''RABBITMQ_HOST'' \<and> port = 5672
    | Login _ vhost _ _ _ user password \<Rightarrow> may_write user password vhost \<and> Some vhost = env_example ''RABBITMQ_VHOST''
    | Basic_Publish cn channel exchange key _ \<Rightarrow> channel = 1 \<and> env_example ''RABBITMQ_EXCHANGE'' = Some exchange
        \<and> (\<exists>vhost cm fm hb user password. Login cn vhost cm fm hb user password \<in> set earlier
            \<and> map Some (direct_queues vhost exchange key) = [env_example ''RABBITMQ_QUEUE''])
    | _ \<Rightarrow> True"
proof -
  have "ready default_PublisherConfig (en_publisher en)"
    by (rule main_setup_ready [OF assms(2)]) (use assms(1) example_config in simp)
  then have "ready default_PublisherConfig (en_publisher (td_engine c))"
    by (intro run_ready [OF assms(3)]) (simp add: threads_start_def)
  then have names: "names_config default_PublisherConfig call earlier"
    using history_names_append [of default_PublisherConfig later call earlier] assms(4) by (simp add: ready_def addressed_def)
  then show ?thesis using default_routed
  proof (cases call)
    case (Basic_Publish cn channel exchange key json)
    then have "Login cn ''/'' 0 131072 60 ''guest'' ''guest'' \<in> set earlier" "channel = 1" "exchange = ''raw_packets''"
      "map Some (direct_queues ''/'' exchange key) = [env_example ''RABBITMQ_QUEUE'']"
      using names default_routed by (simp_all add: default_PublisherConfig_def env_example_def logged_in_def)
    then show ?thesis unfolding Basic_Publish amqp_call.case
      by (intro conjI exI [of _ "''/''"] exI [of _ 0] exI [of _ 131072] exI [of _ 60] exI [of _ "''guest''"]) (simp_all add: env_example_def)
  qed (simp_all add: default_PublisherConfig_def env_example_def)
qed

theorem messages_are_routed_witness:
  "\<exists>en os1 c cn json. main_setup example_os agreeable (\<lambda>_ _. True) boot_state = (Started en, os1)
    \<and> (tstep Little_Endian {})\<^sup>*\<^sup>* (threads_start en 1) c
    \<and> Basic_Publish cn 1 ''raw_packets'' ''packet.raw'' json \<in> set (pub_calls (en_publisher (td_engine c)))
    \<and> (\<exists>vhost cm fm hb u pw. Login cn vhost cm fm hb u pw \<in> set (pub_calls (en_publisher (td_engine c)))
        \<and> direct_queues vhost ''raw_packets'' ''packet.raw'' = [''raw_packets.spring''])"
proof -
  obtain en os1 where en: "main_setup example_os agreeable (\<lambda>_ _. True) boot_state = (Started en, os1)" by (rule example_engine_starts)
  obtain c f json where c: "(tstep Little_Endian {})\<^sup>*\<^sup>* (threads_start en 1) c" "td_taken c = [(0, f)]"
    "sent (pub_calls (en_publisher (td_engine c))) = [json]" by (rule one_message_sent [OF en])
  have env: "os_getenv example_os = packet_engine_environment env_example" by (simp add: example_os_def)
  obtain cn ch ex rk j where "Basic_Publish cn ch ex rk j \<in> set (pub_calls (en_publisher (td_engine c)))"
    using sent_call [of json "pub_calls (en_publisher (td_engine c))"] c(3) by auto
  then obtain l h where call: "pub_calls (en_publisher (td_engine c)) = l @ Basic_Publish cn ch ex rk j # h" by (meson split_list)
  from messages_are_routed [OF env en c(1) call] obtain vhost cm fm hb u pw where
    r: "ch = 1" "ex = ''raw_packets''" "Login cn vhost cm fm hb u pw \<in> set h" "direct_queues vhost ex rk = [''raw_packets.spring'']"
    by (auto simp: env_example_def)
  then have "rk = ''packet.raw''" by (auto simp: direct_queues_def broker_bindings_def split: if_splits)
  then show ?thesis using en c(1) call r
    by (intro exI [of _ en] exI [of _ os1] exI [of _ c] exI [of _ cn] exI [of _ j] conjI exI [of _ vhost] exI [of _ cm] exI [of _ fm]
        exI [of _ hb] exI [of _ u] exI [of _ pw]) simp_all
qed

end
